(* ===== verification/Prelude.thy ===== *)
theory Prelude
  imports Main
begin

text \<open>
  Shared vocabulary of the development: the collection of trace-counting equations the
  component proofs rewrite with, generic list facts about counting events in the traces
  of the poller (src/cmd/main.go), and the inversion of results mapped through
  \<open>map_sum\<close>, which the Go error-or-value results of the decoder and of
  \<^verbatim>\<open>math/rand\<close> share.
\<close>

named_theorems trace_simps "equations that count events in a trace after an append"

lemma count_list_replicate [simp]:
  "count_list (replicate n x) y = (if x = y then n else 0)"
  by (induction n) auto

lemma takeWhile_append_all [trace_simps]:
  "\<forall>x \<in> set ys. P x \<Longrightarrow> takeWhile P (ys @ zs) = ys @ takeWhile P zs"
  by (simp add: takeWhile_append)

lemma takeWhile_append_stop [trace_simps]:
  "\<not> P y \<Longrightarrow> takeWhile P (ys @ y # zs) = takeWhile P ys"
  by (simp add: takeWhile_append) (metis takeWhile_eq_all_conv)

lemma map_sum_eq_Inr: "map_sum f g x = Inr y \<longleftrightarrow> (\<exists>z. x = Inr z \<and> y = g z)"
  by (cases x) auto

lemma map_option_sum_eq_Inr:
  "map_option (map_sum id f) x = Some (Inr y) \<longleftrightarrow> (\<exists>y'. x = Some (Inr y') \<and> y = f y')"
proof (cases x)
  case (Some z)
  then show ?thesis by (cases z) auto
qed simp

end
