(* ===== verification/Json_Value.thy ===== *)
theory Json_Value
  imports Prelude
begin

text \<open>
  The response document of one poll (src/cmd/main.go, lines 107--124): the loosely typed
  value that \<^verbatim>\<open>encoding/json\<close> produces when it decodes into
  \<^verbatim>\<open>map[string]interface{}\<close>, the map lookup \<^verbatim>\<open>result["items"]\<close> and the
  type assertion \<^verbatim>\<open>value.([]interface{})\<close>. The byte-level JSON syntax is the
  library's business: it is the parameter \<open>decoder\<close> (a syntax error or a value).
\<close>

datatype json =
    JNull
  | JBool bool
  | JNum string  \<comment> \<open>the number as written; only printed, never inspected\<close>
  | JStr string
  | JArr "json list"
  | JObj "(string \<times> json) list"  \<comment> \<open>members in document order, duplicates kept\<close>

type_synonym decoder = "string \<Rightarrow> string + json"

text \<open>The JSON kind named by \<^verbatim>\<open>UnmarshalTypeError\<close> when a value does not fit the target.\<close>

fun json_kind :: "json \<Rightarrow> string" where
  "json_kind JNull = ''null''"
| "json_kind (JBool _) = ''bool''"
| "json_kind (JNum _) = ''number''"
| "json_kind (JStr _) = ''string''"
| "json_kind (JArr _) = ''array''"
| "json_kind (JObj _) = ''object''"

text \<open>
  \<^verbatim>\<open>json.Unmarshal(body, &result)\<close> with \<^verbatim>\<open>var result map[string]interface{}\<close>:
  a syntax error is returned; \<^verbatim>\<open>null\<close> leaves the map nil (no error; a nil map
  behaves as the empty map under lookup); an object fills the map member by member, so a
  later duplicate key overwrites an earlier one; any other value is a type error.
\<close>

definition unmarshal_map :: "decoder \<Rightarrow> string \<Rightarrow> string + (string \<rightharpoonup> json)" where
  "unmarshal_map dec body =
     (case dec body of
        Inl err \<Rightarrow> Inl err
      | Inr JNull \<Rightarrow> Inr Map.empty
      | Inr (JObj kvs) \<Rightarrow> Inr (map_of (rev kvs))
      | Inr v \<Rightarrow> Inl (''json: cannot unmarshal '' @ json_kind v @
                      '' into Go value of type map[string]interface {}''))"

text \<open>The type assertion \<^verbatim>\<open>value.([]interface{})\<close>: only a JSON array passes.\<close>

fun as_slice :: "json \<Rightarrow> json list option" where
  "as_slice (JArr xs) = Some xs"
| "as_slice _ = None"

lemma as_slice_Some_iff [simp]: "as_slice v = Some xs \<longleftrightarrow> v = JArr xs"
  by (cases v) auto

lemma unmarshal_map_obj:
  "dec body = Inr (JObj kvs) \<Longrightarrow> unmarshal_map dec body = Inr (map_of (rev kvs))"
  by (simp add: unmarshal_map_def)

end
