(* ===== verification/Go_Effects.thy ===== *)
theory Go_Effects
  imports Json_Value
begin

text \<open>
  The observable actions of the program (src/cmd/main.go), in the order they happen:
  console output as the \<^verbatim>\<open>fmt.Print\<close>/\<^verbatim>\<open>fmt.Println\<close> calls with their
  operands (\<open>Console_Text\<close> renders them as the text \<^verbatim>\<open>fmt\<close> writes),
  the one-second sleeps, the HTTP request, body closes, the speaker calls of
  \<^verbatim>\<open>playSound\<close>, cancellation and the signal registration calls, and the fate of
  each operating-system signal. A run of the program is a trace of these events.
\<close>

datatype operand =
    OpStr string   \<comment> \<open>a Go string operand\<close>
  | OpTime         \<comment> \<open>\<^verbatim>\<open>time.Now()\<close>\<close>
  | OpVal json     \<comment> \<open>an \<^verbatim>\<open>interface{}\<close> value printed with \<^verbatim>\<open>%v\<close>\<close>

datatype console = Print "operand list" | Println "operand list"

datatype delivery =
    Delivered  \<comment> \<open>received by the watcher blocked in its \<^verbatim>\<open>select\<close>\<close>
  | Dropped    \<comment> \<open>registered, but nobody receiving on the unbuffered channel\<close>
  | Fatal      \<comment> \<open>not registered: the default action terminates the process\<close>

datatype event =
    EvSleep                  \<comment> \<open>\<^verbatim>\<open>time.Sleep(time.Second)\<close>\<close>
  | EvOut console
  | EvGet string             \<comment> \<open>\<^verbatim>\<open>http.Get(url)\<close> issued\<close>
  | EvBodyClose              \<comment> \<open>\<^verbatim>\<open>resp.Body.Close()\<close>\<close>
  | EvCallPlaySound          \<comment> \<open>\<^verbatim>\<open>playSound()\<close> entered\<close>
  | EvSpeakerInit int int    \<comment> \<open>\<^verbatim>\<open>speaker.Init(sampleRate, bufferSize)\<close>\<close>
  | EvSpeakerPlay            \<comment> \<open>\<^verbatim>\<open>speaker.Play(streamer)\<close>\<close>
  | EvCancel                 \<comment> \<open>\<^verbatim>\<open>cancel()\<close>\<close>
  | EvSigNotify              \<comment> \<open>\<^verbatim>\<open>signal.Notify(signalStream, ...)\<close>\<close>
  | EvSigStop                \<comment> \<open>deferred \<^verbatim>\<open>signal.Stop\<close> and \<^verbatim>\<open>close\<close>\<close>
  | EvSignal delivery        \<comment> \<open>an interrupt or terminate signal arrives\<close>

fun is_get :: "event \<Rightarrow> bool" where
  "is_get (EvGet _) = True"
| "is_get _ = False"

text \<open>Events that only report: console output and the speaker calls of a notification.\<close>

fun is_report :: "event \<Rightarrow> bool" where
  "is_report (EvOut _) = True"
| "is_report EvCallPlaySound = True"
| "is_report (EvSpeakerInit _ _) = True"
| "is_report EvSpeakerPlay = True"
| "is_report _ = False"

text \<open>The fixed request URL of line 91.\<close>

definition timeslot_url :: string where
  "timeslot_url =
     ''https://www.heb.com/commerce-api/v1/timeslot/timeslots?store_id=659&days=20&fulfillment_type=pickup''"

abbreviation println_strs :: "string list \<Rightarrow> event" where
  "println_strs ss \<equiv> EvOut (Println (map OpStr ss))"

text \<open>Counting in traces: requests issued, and sleeps since the last request.\<close>

definition gets :: "event list \<Rightarrow> nat" where
  "gets tr = length (filter is_get tr)"

definition sleeps_since_get :: "event list \<Rightarrow> nat" where
  "sleeps_since_get tr = count_list (takeWhile (\<lambda>e. \<not> is_get e) (rev tr)) EvSleep"

lemma report_not_get: "is_report e \<Longrightarrow> \<not> is_get e"
  by (cases e) simp_all

lemma gets_append [trace_simps]: "gets (xs @ ys) = gets xs + gets ys"
  by (simp add: gets_def)

lemma gets_simps [trace_simps]:
  "gets [] = 0" "gets (e # es) = (if is_get e then Suc (gets es) else gets es)"
  by (simp_all add: gets_def)

lemma gets_replicate [trace_simps]: "gets (replicate n e) = (if is_get e then n else 0)"
  by (simp add: gets_def)

lemma sleeps_since_get_no_sleep: "EvSleep \<notin> set tr \<Longrightarrow> sleeps_since_get tr = 0"
  by (auto simp: sleeps_since_get_def count_list_0_iff dest: set_takeWhileD)

lemma first_gap_no_get: "gets tr = 0 \<Longrightarrow> takeWhile (\<lambda>e. \<not> is_get e) tr = tr"
  by (auto simp: gets_def filter_empty_conv)

lemma first_gap_append [trace_simps]:
  "takeWhile (\<lambda>e. \<not> is_get e) (tr @ es) =
     (if gets tr = 0 then tr @ takeWhile (\<lambda>e. \<not> is_get e) es else takeWhile (\<lambda>e. \<not> is_get e) tr)"
  by (auto simp: takeWhile_append gets_def filter_empty_conv)

lemma sleeps_since_get_sleeps [trace_simps]:
  "sleeps_since_get (tr @ replicate k EvSleep) = sleeps_since_get tr + k"
  by (simp add: sleeps_since_get_def takeWhile_append_all)

lemma sleeps_since_get_snoc [trace_simps]:
  "sleeps_since_get (tr @ [e]) =
     (if is_get e then 0 else if e = EvSleep then Suc (sleeps_since_get tr) else sleeps_since_get tr)"
  by (cases e) (simp_all add: sleeps_since_get_def)

lemma sleeps_since_get_quiet [trace_simps]:
  "EvSleep \<notin> set ys \<Longrightarrow> \<forall>e \<in> set ys. \<not> is_get e \<Longrightarrow>
     sleeps_since_get (tr @ ys) = sleeps_since_get tr"
  by (simp add: sleeps_since_get_def takeWhile_append_all)

lemma sleeps_since_get_after_get [trace_simps]:
  "is_get g \<Longrightarrow> EvSleep \<notin> set ys \<Longrightarrow> sleeps_since_get (tr @ g # ys) = 0"
  by (auto simp: sleeps_since_get_def takeWhile_append_stop count_list_0_iff
           dest: set_takeWhileD)

end
