(* ===== verification/Sound.thy ===== *)
theory Sound
  imports Go_Effects "HOL-Library.Word" "HOL-Library.Signed_Division"
begin

text \<open>
  The notification trigger \<^verbatim>\<open>playSound\<close> (src/cmd/main.go, lines 54--66) and the
  buffer size it asks the speaker for. Go's \<^verbatim>\<open>int\<close> and \<^verbatim>\<open>time.Duration\<close> are
  64-bit two's complement: multiplication wraps and division truncates towards zero.
  The outcome of opening and decoding the asset is the environment's. beep's wav header
  holds the sample rate as an \<^verbatim>\<open>int32\<close>, and \<^verbatim>\<open>beep.SampleRate(h.SampleRate)\<close>
  converts it to \<^verbatim>\<open>int\<close> by sign extension: \<open>scast\<close> of its 32 bits.
\<close>

datatype sound_env =
    OpenFails string     \<comment> \<open>\<^verbatim>\<open>os.Open("167.wav")\<close> failed\<close>
  | DecodeFails string   \<comment> \<open>\<^verbatim>\<open>wav.Decode\<close> failed with this message\<close>
  | Decoded "32 word"    \<comment> \<open>decoded; the header's \<^verbatim>\<open>int32\<close> sample rate, as bits\<close>

text \<open>Go's \<^verbatim>\<open>/\<close> on \<^verbatim>\<open>int64\<close>: truncating, and wrapping at \<^verbatim>\<open>MinInt64 / -1\<close>.\<close>

definition go_div64 :: "64 word \<Rightarrow> 64 word \<Rightarrow> 64 word" where
  "go_div64 a b = word_of_int (sint a sdiv sint b)"

definition time_second :: "64 word" where
  "time_second = 1000000000"

text \<open>beep's \<^verbatim>\<open>SampleRate.N(d) = int(d * time.Duration(sr) / time.Second)\<close>.\<close>

definition sample_rate_N :: "64 word \<Rightarrow> 64 word \<Rightarrow> 64 word" where
  "sample_rate_N sr d = go_div64 (d * sr) time_second"

definition play_sound :: "sound_env \<Rightarrow> event list" where
  "play_sound env =
     (case env of
        OpenFails _ \<Rightarrow> []
      | DecodeFails err \<Rightarrow> [println_strs [''wav.Decode err: '', err]]
      | Decoded hz \<Rightarrow>
          (let sr = (scast hz :: 64 word)
           in [EvSpeakerInit (sint sr) (sint (sample_rate_N sr (go_div64 time_second 10))),
               EvSpeakerPlay]))"

subsection \<open>Arithmetic at 64 bits\<close>

lemma sint_word_of_int_in_range:
  "- (2 ^ 63) \<le> x \<Longrightarrow> x < 2 ^ 63 \<Longrightarrow> sint (word_of_int x :: 64 word) = x"
  by (simp only: sint_sbintrunc') (simp add: signed_take_bit_int_eq_self)

lemma sint_32_bound: "- (2 ^ 31) \<le> sint (hz :: 32 word) \<and> sint hz < 2 ^ 31"
  using sint_ge [of hz] sint_lt [of hz] by simp

lemma sint_scast_32_64: "sint (scast (hz :: 32 word) :: 64 word) = sint hz"
  by (rule sint_up_scast) (simp add: is_up)

lemma sdiv_abs_le: "\<bar>a sdiv b\<bar> \<le> \<bar>a :: int\<bar>"
proof -
  have q0: "0 \<le> \<bar>a\<bar> div \<bar>b\<bar>" by (simp add: div_int_pos_iff)
  have q1: "\<bar>a\<bar> div \<bar>b\<bar> \<le> \<bar>a\<bar>"
  proof (cases "b = 0")
    case False
    then have "\<bar>a\<bar> div \<bar>b\<bar> \<le> \<bar>a\<bar> div 1" by (intro zdiv_mono2) simp_all
    then show ?thesis by simp
  qed simp
  have "\<bar>a sdiv b\<bar> = \<bar>sgn a * sgn b\<bar> * (\<bar>a\<bar> div \<bar>b\<bar>)"
    using q0 by (simp add: signed_divide_int_def abs_mult)
  also have "\<dots> \<le> 1 * (\<bar>a\<bar> div \<bar>b\<bar>)"
    using q0 by (intro mult_right_mono) (simp_all add: abs_mult abs_sgn_eq)
  finally show ?thesis using q1 by simp
qed

lemma go_div64_pos:
  "0 < sint b \<Longrightarrow> sint (go_div64 a b) = sint a sdiv sint b"
proof -
  assume b: "0 < sint b"
  have lo: "- (2 ^ 63) \<le> sint a" and hi: "sint a < 2 ^ 63" using sint_ge [of a] sint_lt [of a] by simp_all
  have "\<bar>sint a sdiv sint b\<bar> \<le> \<bar>sint a\<bar>" by (rule sdiv_abs_le)
  moreover have "sint a sdiv sint b \<le> 0 \<or> sint a sdiv sint b \<le> sint a"
    using b by (cases "0 \<le> sint a") (auto simp: signed_divide_int_def sgn_if int_div_le_self
                                            intro: div_int_pos_iff [THEN iffD2])
  ultimately have "- (2 ^ 63) \<le> sint a sdiv sint b" "sint a sdiv sint b < 2 ^ 63" using lo hi by linarith+
  then show ?thesis by (simp add: go_div64_def sint_word_of_int_in_range)
qed

lemma tenth_second: "go_div64 time_second 10 = 100000000"
  by (simp add: go_div64_def time_second_def signed_divide_int_def)

lemma sdiv_scale: "(100000000 * x) sdiv 1000000000 = x sdiv (10 :: int)"
proof -
  have "(100000000 * \<bar>x\<bar>) div (100000000 * 10) = \<bar>x\<bar> div 10"
    by (rule div_mult_mult1) simp
  then have "\<bar>100000000 * x\<bar> div 1000000000 = \<bar>x\<bar> div 10" by (simp add: abs_mult)
  then show ?thesis by (simp add: signed_divide_int_def sgn_mult)
qed

lemma sample_rate_N_tenth:
  "sint (sample_rate_N (scast (hz :: 32 word)) (go_div64 time_second 10)) = sint hz sdiv 10"
proof -
  have u: "- (2 ^ 31) \<le> sint hz" "sint hz < 2 ^ 31" using sint_32_bound [of hz] by simp_all
  have "sint ((100000000 :: 64 word) * scast hz) = sint (word_of_int (100000000 * sint hz) :: 64 word)"
    by (simp only: scast_eq of_int_mult of_int_numeral)
  also have "\<dots> = 100000000 * sint hz"
  proof (rule sint_word_of_int_in_range)
    have "(100000000::int) * 2 ^ 31 \<le> 2 ^ 63" by simp
    with u show "- (2 ^ 63) \<le> 100000000 * sint hz" "100000000 * sint hz < 2 ^ 63" by linarith+
  qed
  finally have p: "sint ((100000000 :: 64 word) * scast hz) = 100000000 * sint hz" .
  have s: "sint time_second = 1000000000" by (simp add: time_second_def)
  have "sint (sample_rate_N (scast hz) (go_div64 time_second 10)) = (100000000 * sint hz) sdiv 1000000000"
    using p s by (simp add: sample_rate_N_def tenth_second go_div64_pos)
  then show ?thesis by (simp only: sdiv_scale)
qed

text \<open>
  C21: for every sample rate a WAV header can carry (an \<^verbatim>\<open>int32\<close>), \<^verbatim>\<open>playSound\<close>
  initialises the speaker at that rate, sign-extended, with a buffer of a tenth of a second
  of samples, truncated towards zero as Go's division does (so a negative rate gives a
  negative buffer size): the 64-bit product \<^verbatim>\<open>d * sr\<close> never overflows. Then it
  starts playback.
\<close>

theorem play_sound_decoded:
  "play_sound (Decoded hz) = [EvSpeakerInit (sint hz) (sint hz sdiv 10), EvSpeakerPlay]"
  by (simp add: play_sound_def sint_scast_32_64 sample_rate_N_tenth)

end
