(* ===== verification/Poll_Iteration.thy ===== *)
theory Poll_Iteration
  imports Sound
begin

text \<open>
  One check-and-act pass of the poll loop (src/cmd/main.go, lines 89--132): print the time,
  issue the request, read the body, decode it, look up \<^verbatim>\<open>items\<close>, assert its type,
  and either report an empty result or play the sound and print the items. Every
  \<^verbatim>\<open>continue\<close> of the source is a branch that ends the pass. The pass also returns how
  many \<^verbatim>\<open>defer resp.Body.Close()\<close> calls it registered: the defer sits inside the
  loop, so it runs only when the goroutine returns.
\<close>

datatype get_result =
    GetErr string               \<comment> \<open>\<^verbatim>\<open>http.Get\<close> returned an error\<close>
  | GetResp "string + string"   \<comment> \<open>a response; \<^verbatim>\<open>ioutil.ReadAll\<close> fails or yields the body\<close>

abbreviation check_prefix :: "event list" where
  "check_prefix \<equiv> [EvOut (Print [OpTime, OpStr '' -- '']), EvGet timeslot_url]"

definition poll_iteration :: "decoder \<Rightarrow> get_result \<Rightarrow> sound_env \<Rightarrow> event list \<times> nat" where
  "poll_iteration dec g senv =
     (case g of
        GetErr err \<Rightarrow> (check_prefix @ [println_strs [''http.Get err: '', err]], 0)
      | GetResp rd \<Rightarrow>
          (check_prefix @
           (case rd of
              Inl err \<Rightarrow> [println_strs [''ioutil.ReadAll err: '', err]]
            | Inr body \<Rightarrow>
                (case unmarshal_map dec body of
                   Inl err \<Rightarrow> [println_strs [''ioutil.ReadAll err: '', err]]
                 | Inr result \<Rightarrow>
                     (case result ''items'' of
                        None \<Rightarrow> [println_strs [''items missing from response'']]
                      | Some value \<Rightarrow>
                          (case as_slice value of
                             None \<Rightarrow> [println_strs [''type assertion failed'']]
                           | Some items \<Rightarrow>
                               (if length items = 0
                                then [println_strs [''no slots ('', body, '')'']]
                                else EvCallPlaySound # play_sound senv @
                                     [EvOut (Println [OpStr ''********************** '',
                                                      OpVal (JArr items)])]))))), 1))"

text \<open>
  The availability result of the specification: the body was read, decodes to a map,
  and its \<^verbatim>\<open>items\<close> member is a non-empty array.
\<close>

definition available_items :: "decoder \<Rightarrow> get_result \<Rightarrow> json list option" where
  "available_items dec g =
     (case g of
        GetResp (Inr body) \<Rightarrow>
          (case unmarshal_map dec body of
             Inr result \<Rightarrow>
               (case result ''items'' of
                  Some (JArr items) \<Rightarrow> if items = [] then None else Some items
                | _ \<Rightarrow> None)
           | Inl _ \<Rightarrow> None)
      | _ \<Rightarrow> None)"

subsection \<open>Shape of a pass\<close>

lemma play_sound_report: "\<forall>e \<in> set (play_sound senv). is_report e"
  by (simp add: play_sound_def Let_def split: sound_env.splits)

lemma play_sound_no_call: "EvCallPlaySound \<notin> set (play_sound senv)"
  by (simp add: play_sound_def Let_def split: sound_env.splits)

text \<open>
  Every pass prints the time, issues exactly one request, and then only reports; it
  registers a deferred close exactly when a response arrived.
\<close>

lemma poll_iteration_shape:
  "\<exists>post. fst (poll_iteration dec g senv) = check_prefix @ post \<and> (\<forall>e \<in> set post. is_report e)"
  using play_sound_report [of senv]
  by (auto simp: poll_iteration_def split: get_result.splits sum.splits option.splits if_splits)

lemma poll_iteration_defers:
  "snd (poll_iteration dec g senv) = (case g of GetErr _ \<Rightarrow> 0 | GetResp _ \<Rightarrow> 1)"
  by (simp add: poll_iteration_def split: get_result.splits)

lemma poll_iteration_events_quiet [trace_simps]:
  "gets (fst (poll_iteration dec g senv)) = 1"
  "sleeps_since_get (tr @ fst (poll_iteration dec g senv)) = 0"
  "EvSleep \<notin> set (fst (poll_iteration dec g senv))"
  "EvCancel \<notin> set (fst (poll_iteration dec g senv))"
  "EvBodyClose \<notin> set (fst (poll_iteration dec g senv))"
  "EvSigStop \<notin> set (fst (poll_iteration dec g senv))"
proof -
  obtain post where p: "fst (poll_iteration dec g senv) = check_prefix @ post"
    and r: "\<forall>e \<in> set post. is_report e"
    using poll_iteration_shape by blast
  have ng: "\<forall>e \<in> set post. \<not> is_get e" using r report_not_get by blast
  have ns: "EvSleep \<notin> set post" using r by fastforce
  show "gets (fst (poll_iteration dec g senv)) = 1"
    using ng by (simp add: p gets_append gets_def)
  show "sleeps_since_get (tr @ fst (poll_iteration dec g senv)) = 0"
    using ns sleeps_since_get_after_get [of "EvGet timeslot_url" post "tr @ [EvOut (Print [OpTime, OpStr '' -- ''])]"]
    by (simp add: p)
  show "EvSleep \<notin> set (fst (poll_iteration dec g senv))"
    "EvCancel \<notin> set (fst (poll_iteration dec g senv))"
    "EvBodyClose \<notin> set (fst (poll_iteration dec g senv))"
    "EvSigStop \<notin> set (fst (poll_iteration dec g senv))"
    using r by (auto simp: p)
qed

subsection \<open>Behaviour of one pass, branch by branch\<close>

text \<open>
  C15: a document whose \<^verbatim>\<open>items\<close> is the empty array is reported as
  \<^verbatim>\<open>no slots ( <body> )\<close> with the raw body, and no sound is played.
\<close>

theorem poll_iteration_empty_items:
  assumes "dec body = Inr (JObj kvs)" and "map_of (rev kvs) ''items'' = Some (JArr [])"
  shows "poll_iteration dec (GetResp (Inr body)) senv =
           (check_prefix @ [println_strs [''no slots ('', body, '')'']], 1)"
  using assms by (simp add: poll_iteration_def unmarshal_map_obj)

theorem poll_iteration_empty_items_witness:
  "poll_iteration (\<lambda>_. Inr (JObj [(''items'', JArr [])])) (GetResp (Inr ''{\"items\": []}''))
      (OpenFails ''open 167.wav: no such file or directory'') =
     (check_prefix @ [println_strs [''no slots ('', ''{\"items\": []}'', '')'']], 1)"
  using poll_iteration_empty_items [of "\<lambda>_. Inr (JObj [(''items'', JArr [])])"
      "''{\"items\": []}''" "[(''items'', JArr [])]" "OpenFails ''open 167.wav: no such file or directory''"]
  by simp

text \<open>
  C16: a document whose \<^verbatim>\<open>items\<close> is a non-empty array makes the pass call
  \<^verbatim>\<open>playSound\<close> once, then print the banner and the items.
\<close>

theorem poll_iteration_slots:
  assumes "dec body = Inr (JObj kvs)" and "map_of (rev kvs) ''items'' = Some (JArr items)"
    and "items \<noteq> []"
  shows "poll_iteration dec (GetResp (Inr body)) senv =
           (check_prefix @ EvCallPlaySound # play_sound senv @
              [EvOut (Println [OpStr ''********************** '', OpVal (JArr items)])], 1)"
  using assms by (simp add: poll_iteration_def unmarshal_map_obj)

theorem poll_iteration_slots_witness:
  "poll_iteration (\<lambda>_. Inr (JObj [(''items'', JArr [JObj [(''slot'', JStr ''9am'')]])]))
      (GetResp (Inr ''{\"items\": [{\"slot\": \"9am\"}]}'')) (Decoded 44100) =
     (check_prefix @ [EvCallPlaySound, EvSpeakerInit 44100 4410, EvSpeakerPlay,
        EvOut (Println [OpStr ''********************** '',
                        OpVal (JArr [JObj [(''slot'', JStr ''9am'')]])])], 1)"
  using poll_iteration_slots [of "\<lambda>_. Inr (JObj [(''items'', JArr [JObj [(''slot'', JStr ''9am'')]])])"
      "''{\"items\": [{\"slot\": \"9am\"}]}''" "[(''items'', JArr [JObj [(''slot'', JStr ''9am'')]])]"
      "[JObj [(''slot'', JStr ''9am'')]]" "Decoded 44100"]
  by (simp add: play_sound_decoded)

text \<open>
  C17: a document without an \<^verbatim>\<open>items\<close> member is reported as
  \<^verbatim>\<open>items missing from response\<close>, and no sound is played.
\<close>

theorem poll_iteration_items_missing:
  assumes "dec body = Inr (JObj kvs)" and "map_of (rev kvs) ''items'' = None"
  shows "poll_iteration dec (GetResp (Inr body)) senv =
           (check_prefix @ [println_strs [''items missing from response'']], 1)"
  using assms by (simp add: poll_iteration_def unmarshal_map_obj)

theorem poll_iteration_items_missing_witness:
  "poll_iteration (\<lambda>_. Inr (JObj [(''other'', JNum ''1'')])) (GetResp (Inr ''{\"other\": 1}''))
      (Decoded 44100) =
     (check_prefix @ [println_strs [''items missing from response'']], 1)"
  using poll_iteration_items_missing [of "\<lambda>_. Inr (JObj [(''other'', JNum ''1'')])"
      "''{\"other\": 1}''" "[(''other'', JNum ''1'')]" "Decoded 44100"]
  by simp

text \<open>
  C18: a body that is not valid JSON is logged and the pass ends without a sound; the
  line is labelled \<^verbatim>\<open>ioutil.ReadAll err:\<close>, the label of the read failure, not a
  decode-failure label.
\<close>

theorem poll_iteration_decode_error:
  assumes "dec body = Inl err"
  shows "poll_iteration dec (GetResp (Inr body)) senv =
           (check_prefix @ [println_strs [''ioutil.ReadAll err: '', err]], 1)"
  using assms by (simp add: poll_iteration_def unmarshal_map_def)

theorem poll_iteration_decode_error_witness:
  "poll_iteration (\<lambda>_. Inl ''unexpected end of JSON input'') (GetResp (Inr ''{\"items\": ['')) (Decoded 8000) =
     (check_prefix @ [println_strs [''ioutil.ReadAll err: '', ''unexpected end of JSON input'']], 1)"
  using poll_iteration_decode_error [of "\<lambda>_. Inl ''unexpected end of JSON input''"
      "''{\"items\": [''" "''unexpected end of JSON input''" "Decoded 8000"]
  by simp

text \<open>
  C19: an \<^verbatim>\<open>items\<close> member that is present but not an array (for instance
  \<^verbatim>\<open>null\<close> or an object) fails the type assertion and is reported as such.
\<close>

theorem poll_iteration_not_array:
  assumes "dec body = Inr (JObj kvs)" and "map_of (rev kvs) ''items'' = Some v"
    and "as_slice v = None"
  shows "poll_iteration dec (GetResp (Inr body)) senv =
           (check_prefix @ [println_strs [''type assertion failed'']], 1)"
  using assms by (simp add: poll_iteration_def unmarshal_map_obj)

theorem poll_iteration_not_array_witness:
  "poll_iteration (\<lambda>_. Inr (JObj [(''items'', JNull)])) (GetResp (Inr ''{\"items\": null}''))
      (Decoded 8000) =
     (check_prefix @ [println_strs [''type assertion failed'']], 1)"
  using poll_iteration_not_array [of "\<lambda>_. Inr (JObj [(''items'', JNull)])"
      "''{\"items\": null}''" "[(''items'', JNull)]" JNull "Decoded 8000"]
  by simp

text \<open>
  C20: a body that is the JSON literal \<^verbatim>\<open>null\<close> is not a decode failure: it leaves
  the map nil, and the pass reports a missing \<^verbatim>\<open>items\<close> member.
\<close>

theorem poll_iteration_null_document:
  assumes "dec body = Inr JNull"
  shows "poll_iteration dec (GetResp (Inr body)) senv =
           (check_prefix @ [println_strs [''items missing from response'']], 1)"
  using assms by (simp add: poll_iteration_def unmarshal_map_def)

theorem poll_iteration_null_document_witness:
  "poll_iteration (\<lambda>_. Inr JNull) (GetResp (Inr ''null'')) (Decoded 8000) =
     (check_prefix @ [println_strs [''items missing from response'']], 1)"
  using poll_iteration_null_document [of "\<lambda>_. Inr JNull" "''null''" "Decoded 8000"]
  by simp

end
