(* ===== verification/System_State.thy ===== *)
theory System_State
  imports Poll_Iteration
begin

text \<open>
  The state of the running process (src/cmd/main.go): the status of the process, the
  shared cancellation context and \<^verbatim>\<open>sync.WaitGroup\<close>, the program counter of each
  of the three threads of control (\<^verbatim>\<open>main\<close>, the signal watcher goroutine started by
  \<^verbatim>\<open>translateInterruptToCancel\<close>, the poll goroutine), the watcher's signal
  registration, the poll goroutine's locals (\<^verbatim>\<open>timeout\<close>, the loop index \<^verbatim>\<open>i\<close>
  in its program counter, its pending deferred \<^verbatim>\<open>resp.Body.Close\<close> calls), and the
  trace of observable events so far.
\<close>

datatype proc_status =
    Running
  | Exited    \<comment> \<open>\<^verbatim>\<open>main\<close> returned\<close>
  | Killed    \<comment> \<open>terminated by a signal's default action\<close>
  | Panicked  \<comment> \<open>\<^verbatim>\<open>sync: negative WaitGroup counter\<close>\<close>

datatype main_pc =
    MInit        \<comment> \<open>before line 69\<close>
  | MLaunchPoll  \<comment> \<open>watcher launched (line 71), poll goroutine not yet (line 73)\<close>
  | MWait        \<comment> \<open>blocked in \<^verbatim>\<open>wg.Wait()\<close> (line 136)\<close>

datatype watcher_pc =
    WNone        \<comment> \<open>not started\<close>
  | WStart       \<comment> \<open>goroutine started (line 35), channel not yet registered\<close>
  | WRegistered  \<comment> \<open>after \<^verbatim>\<open>signal.Notify\<close> (line 43), before the \<^verbatim>\<open>select\<close>\<close>
  | WSelect      \<comment> \<open>blocked in the \<^verbatim>\<open>select\<close> of line 44\<close>
  | WReturn      \<comment> \<open>returning; the deferred calls have not run\<close>
  | WDone

datatype poll_pc =
    PNone        \<comment> \<open>not started\<close>
  | PWait int    \<comment> \<open>at the wait loop of line 79 with \<^verbatim>\<open>i\<close>\<close>
  | PDone

record sys =
  proc :: proc_status
  ctx_done :: bool
  wg :: int
  mpc :: main_pc
  wpc :: watcher_pc
  sig_reg :: bool
  ppc :: poll_pc
  timeout :: int
  defers :: nat
  trace :: "event list"

text \<open>
  The initial state: nothing has run; the context, once \<^verbatim>\<open>main\<close> creates it, is not
  cancelled, and the wait group counter is zero.
\<close>

definition init_sys :: sys where
  "init_sys =
     \<lparr>proc = Running, ctx_done = False, wg = 0, mpc = MInit, wpc = WNone, sig_reg = False,
      ppc = PNone, timeout = 0, defers = 0, trace = []\<rparr>"

text \<open>
  \<^verbatim>\<open>wg.Done()\<close>: the counter goes down by one; below zero the runtime panics
  (\<^verbatim>\<open>sync: negative WaitGroup counter\<close>).
\<close>

definition wg_done :: "sys \<Rightarrow> sys" where
  "wg_done s = (if wg s \<le> 0 then s\<lparr>proc := Panicked\<rparr> else s\<lparr>wg := wg s - 1\<rparr>)"

fun watcher_live :: "watcher_pc \<Rightarrow> bool" where
  "watcher_live WNone = False"
| "watcher_live WDone = False"
| "watcher_live _ = True"

fun poll_live :: "poll_pc \<Rightarrow> bool" where
  "poll_live (PWait _) = True"
| "poll_live _ = False"

definition live_goroutines :: "sys \<Rightarrow> int" where
  "live_goroutines s = of_bool (watcher_live (wpc s)) + of_bool (poll_live (ppc s))"

lemma wg_done_live:
  "0 < wg s \<Longrightarrow> wg_done s = s\<lparr>wg := wg s - 1\<rparr>"
  by (simp add: wg_done_def)

end
