(* ===== verification/Watcher.thy ===== *)
theory Watcher
  imports System_State
begin

text \<open>
  The signal watcher: the goroutine of \<^verbatim>\<open>translateInterruptToCancel\<close>
  (src/cmd/main.go, lines 33--52), and the operating system's delivery of interrupt and
  terminate signals to it. Each rule is one atomic action of the goroutine, guarded by
  its program counter. The channel is unbuffered and \<^verbatim>\<open>os/signal\<close> never blocks
  when it sends: a signal reaches the watcher only while it is blocked in its
  \<^verbatim>\<open>select\<close>; while the channel is registered but nobody receives, the signal is
  dropped; while no channel is registered, the default action ends the process.
\<close>

inductive watcher_step :: "sys \<Rightarrow> sys \<Rightarrow> bool" where
  w_register:
    "proc s = Running \<Longrightarrow> wpc s = WStart \<Longrightarrow>
     watcher_step s (s\<lparr>wpc := WRegistered, sig_reg := True, trace := trace s @ [EvSigNotify]\<rparr>)"
| w_select:
    "proc s = Running \<Longrightarrow> wpc s = WRegistered \<Longrightarrow>
     watcher_step s (s\<lparr>wpc := WSelect\<rparr>)"
| w_signal:
    "proc s = Running \<Longrightarrow> wpc s = WSelect \<Longrightarrow>
     watcher_step s (s\<lparr>wpc := WReturn, ctx_done := True,
                       trace := trace s @ [EvSignal Delivered, EvCancel]\<rparr>)"
| w_ctx_done:
    "proc s = Running \<Longrightarrow> wpc s = WSelect \<Longrightarrow> ctx_done s \<Longrightarrow>
     watcher_step s (s\<lparr>wpc := WReturn\<rparr>)"
| w_return:
    "proc s = Running \<Longrightarrow> wpc s = WReturn \<Longrightarrow>
     watcher_step s (wg_done (s\<lparr>wpc := WDone, sig_reg := False, trace := trace s @ [EvSigStop]\<rparr>))"

inductive signal_step :: "sys \<Rightarrow> sys \<Rightarrow> bool" where
  sig_drop:
    "proc s = Running \<Longrightarrow> sig_reg s \<Longrightarrow> wpc s \<noteq> WSelect \<Longrightarrow>
     signal_step s (s\<lparr>trace := trace s @ [EvSignal Dropped]\<rparr>)"
| sig_fatal:
    "proc s = Running \<Longrightarrow> \<not> sig_reg s \<Longrightarrow>
     signal_step s (s\<lparr>proc := Killed, trace := trace s @ [EvSignal Fatal]\<rparr>)"

inductive_cases watcher_stepE: "watcher_step s t"
inductive_cases signal_stepE: "signal_step s t"

end
