(* ===== verification/Poller.thy ===== *)
theory Poller
  imports System_State
begin

text \<open>
  The poll goroutine (src/cmd/main.go, lines 73--134). Its program counter holds the
  index \<^verbatim>\<open>i\<close> of the wait loop; \<^verbatim>\<open>timeout\<close> starts at 0, so the first pass
  runs at once. Each one-second step of the wait first polls the context
  (\<^verbatim>\<open>select\<close> with \<^verbatim>\<open>default\<close>): if it is cancelled the goroutine returns,
  running its deferred body closes and \<^verbatim>\<open>wg.Done()\<close>. When the wait is over, the
  next \<^verbatim>\<open>timeout\<close> is drawn (\<^verbatim>\<open>rand.Intn(10)\<close> returns \<open>r\<close> with
  \<open>0 \<le> r < 10\<close>) and one check-and-act pass runs with the environment's HTTP and
  audio outcomes.
\<close>

inductive poll_step :: "decoder \<Rightarrow> sys \<Rightarrow> sys \<Rightarrow> bool" for dec where
  p_sleep:
    "proc s = Running \<Longrightarrow> ppc s = PWait i \<Longrightarrow> i < timeout s \<Longrightarrow> \<not> ctx_done s \<Longrightarrow>
     poll_step dec s (s\<lparr>ppc := PWait (i + 1), trace := trace s @ [EvSleep]\<rparr>)"
| p_return:
    "proc s = Running \<Longrightarrow> ppc s = PWait i \<Longrightarrow> i < timeout s \<Longrightarrow> ctx_done s \<Longrightarrow>
     poll_step dec s (wg_done (s\<lparr>ppc := PDone, defers := 0,
                                 trace := trace s @ replicate (defers s) EvBodyClose\<rparr>))"
| p_check:
    "proc s = Running \<Longrightarrow> ppc s = PWait i \<Longrightarrow> \<not> i < timeout s \<Longrightarrow> 0 \<le> r \<Longrightarrow> r < 10 \<Longrightarrow>
     poll_step dec s (s\<lparr>ppc := PWait 0, timeout := 25 + r,
                         defers := defers s + snd (poll_iteration dec g senv),
                         trace := trace s @ fst (poll_iteration dec g senv)\<rparr>)"

text \<open>
  The loop of lines 77--133 read as a sequential program, for runs without cancellation:
  each pass follows a wait of \<^verbatim>\<open>timeout\<close> one-second sleeps, and the draw made
  before the pass (line 87) sets the next wait. The environment supplies, per pass, the
  random draw, the HTTP outcome and the audio outcome.
\<close>

fun poll_run :: "decoder \<Rightarrow> int \<Rightarrow> (int \<times> get_result \<times> sound_env) list \<Rightarrow> event list \<times> nat" where
  "poll_run dec t [] = ([], 0)"
| "poll_run dec t ((r, g, senv) # xs) =
     (let (evs, d) = poll_iteration dec g senv; (evs', d') = poll_run dec (25 + r) xs
      in (replicate (nat t) EvSleep @ evs @ evs', d + d'))"

fun run_timeout :: "int \<Rightarrow> (int \<times> 'a) list \<Rightarrow> int" where
  "run_timeout t [] = t"
| "run_timeout t ((r, _) # xs) = run_timeout (25 + r) xs"

inductive_cases poll_stepE: "poll_step dec s t"

lemma poll_run_Cons [simp]:
  "poll_run dec t ((r, g, senv) # xs) =
     (replicate (nat t) EvSleep @ fst (poll_iteration dec g senv) @ fst (poll_run dec (25 + r) xs),
      snd (poll_iteration dec g senv) + snd (poll_run dec (25 + r) xs))"
  by (simp add: split_def Let_def)

declare poll_run.simps(2) [simp del]

lemma poll_sleeps:
  assumes "proc s = Running" and "\<not> ctx_done s" and "ppc s = PWait i" and "i + int k \<le> timeout s"
  shows "(poll_step dec)\<^sup>*\<^sup>* s (s\<lparr>ppc := PWait (i + int k), trace := trace s @ replicate k EvSleep\<rparr>)"
  using assms(4)
proof (induction k)
  case 0
  have "s\<lparr>ppc := PWait (i + int 0), trace := trace s @ replicate 0 EvSleep\<rparr> = s"
    using assms(3) by (cases s) simp
  then show ?case by simp
next
  case (Suc k)
  let ?s = "s\<lparr>ppc := PWait (i + int k), trace := trace s @ replicate k EvSleep\<rparr>"
  have "poll_step dec ?s (?s\<lparr>ppc := PWait (i + int k + 1), trace := trace ?s @ [EvSleep]\<rparr>)"
    using Suc.prems assms(1,2) by (intro poll_step.p_sleep) simp_all
  moreover have "?s\<lparr>ppc := PWait (i + int k + 1), trace := trace ?s @ [EvSleep]\<rparr> =
                 s\<lparr>ppc := PWait (i + int (Suc k)), trace := trace s @ replicate (Suc k) EvSleep\<rparr>"
    by (simp add: replicate_append_same [symmetric] add.assoc)
  ultimately show ?case using Suc.IH Suc.prems
    by (auto intro: rtranclp.rtrancl_into_rtrancl [of _ s ?s])
qed

text \<open>
  C22: the poll goroutine implements the sequential loop: from the top of the wait loop
  with the context not cancelled, its steps can run any sequence of passes, producing
  exactly the events, the deferred closes and the final interval of \<open>poll_run\<close>.
\<close>

theorem poll_run_refinement:
  assumes "proc s = Running" and "\<not> ctx_done s" and "ppc s = PWait 0" and "0 \<le> timeout s"
    and "\<forall>(r, _) \<in> set xs. 0 \<le> r \<and> r < 10"
  shows "(poll_step dec)\<^sup>*\<^sup>* s
           (s\<lparr>ppc := PWait 0, timeout := run_timeout (timeout s) xs,
               defers := defers s + snd (poll_run dec (timeout s) xs),
               trace := trace s @ fst (poll_run dec (timeout s) xs)\<rparr>)"
  using assms
proof (induction xs arbitrary: s)
  case Nil
  have "s\<lparr>ppc := PWait 0, timeout := timeout s, defers := defers s + 0, trace := trace s @ []\<rparr> = s"
    using Nil.prems(3) by (cases s) simp
  then show ?case by simp
next
  case (Cons x xs)
  obtain r g senv where x: "x = (r, g, senv)" by (cases x) auto
  let ?k = "nat (timeout s)"
  let ?s1 = "s\<lparr>ppc := PWait (0 + int ?k), trace := trace s @ replicate ?k EvSleep\<rparr>"
  let ?s2 = "?s1\<lparr>ppc := PWait 0, timeout := 25 + r,
                 defers := defers ?s1 + snd (poll_iteration dec g senv),
                 trace := trace ?s1 @ fst (poll_iteration dec g senv)\<rparr>"
  have r: "0 \<le> r" "r < 10" using Cons.prems(5) x by auto
  have w: "(poll_step dec)\<^sup>*\<^sup>* s ?s1"
    using Cons.prems(1-4) by (intro poll_sleeps) simp_all
  have c: "poll_step dec ?s1 ?s2"
    using Cons.prems(1,4) r by (intro poll_step.p_check [where i = "int ?k"]) simp_all
  have ih: "(poll_step dec)\<^sup>*\<^sup>* ?s2
              (?s2\<lparr>ppc := PWait 0, timeout := run_timeout (timeout ?s2) xs,
                   defers := defers ?s2 + snd (poll_run dec (timeout ?s2) xs),
                   trace := trace ?s2 @ fst (poll_run dec (timeout ?s2) xs)\<rparr>)"
    using Cons.prems(1,2,5) r by (intro Cons.IH) auto
  have eq: "?s2\<lparr>ppc := PWait 0, timeout := run_timeout (timeout ?s2) xs,
                   defers := defers ?s2 + snd (poll_run dec (timeout ?s2) xs),
                   trace := trace ?s2 @ fst (poll_run dec (timeout ?s2) xs)\<rparr> =
            s\<lparr>ppc := PWait 0, timeout := run_timeout (timeout s) (x # xs),
               defers := defers s + snd (poll_run dec (timeout s) (x # xs)),
               trace := trace s @ fst (poll_run dec (timeout s) (x # xs))\<rparr>"
    by (simp only: x poll_run_Cons run_timeout.simps) simp
  have c': "(poll_step dec)\<^sup>*\<^sup>* ?s1 ?s2" using c by (rule r_into_rtranclp)
  show ?case
    using rtranclp_trans [OF w rtranclp_trans [OF c' ih]] by (simp only: eq)
qed


theorem poll_run_refinement_witness:
  "\<exists>t. (poll_step (\<lambda>_. Inr JNull))\<^sup>*\<^sup>* (init_sys\<lparr>ppc := PWait 0\<rparr>) t \<and>
       trace t = fst (poll_run (\<lambda>_. Inr JNull) 0
                        [(3, GetErr ''timeout'', OpenFails ''none''), (0, GetErr ''timeout'', OpenFails ''none'')]) \<and>
       timeout t = 25"
proof -
  define xs where "xs = [(3::int, GetErr ''timeout'', OpenFails ''none''), (0, GetErr ''timeout'', OpenFails ''none'')]"
  define s where "s = init_sys\<lparr>ppc := PWait 0\<rparr>"
  define t where "t = s\<lparr>ppc := PWait 0, timeout := run_timeout (timeout s) xs,
                          defers := defers s + snd (poll_run (\<lambda>_. Inr JNull) (timeout s) xs),
                          trace := trace s @ fst (poll_run (\<lambda>_. Inr JNull) (timeout s) xs)\<rparr>"
  have h: "(poll_step (\<lambda>_. Inr JNull))\<^sup>*\<^sup>* s t"
    unfolding t_def by (rule poll_run_refinement) (simp_all add: s_def xs_def init_sys_def)
  have "trace t = fst (poll_run (\<lambda>_. Inr JNull) 0 xs)" "timeout t = 25"
    by (simp_all add: t_def s_def xs_def init_sys_def)
  with h show ?thesis unfolding s_def xs_def by blast
qed

lemma poll_iteration_play_calls:
  "count_list (fst (poll_iteration dec g senv)) EvCallPlaySound =
     (if available_items dec g = None then 0 else 1)"
  using play_sound_no_call [of senv]
  by (auto simp: poll_iteration_def available_items_def
           split: get_result.splits sum.splits option.splits if_splits json.splits)

text \<open>
  C3: over any sequence of passes, \<^verbatim>\<open>playSound\<close> is called exactly once per pass whose
  response carries a non-empty \<^verbatim>\<open>items\<close> array, and never otherwise (transport, read,
  decode and shape failures and the empty result included).
\<close>

theorem poll_run_notifications:
  "count_list (fst (poll_run dec t xs)) EvCallPlaySound =
     length (filter (\<lambda>(r, g, senv). available_items dec g \<noteq> None) xs)"
proof (induction xs arbitrary: t)
  case Nil
  then show ?case by simp
next
  case (Cons x xs)
  obtain r g senv where "x = (r, g, senv)" by (cases x) auto
  with Cons show ?case by (simp add: poll_run_Cons poll_iteration_play_calls)
qed

text \<open>
  The same empty result repeated over \<open>n\<close> consecutive passes produces \<open>n\<close>
  \<^verbatim>\<open>no slots\<close> lines and no notification.
\<close>

theorem poll_run_empty_idempotent:
  assumes "dec body = Inr (JObj kvs)" and "map_of (rev kvs) ''items'' = Some (JArr [])"
  shows "count_list (fst (poll_run dec t (replicate n (r, GetResp (Inr body), senv)))) EvCallPlaySound = 0 \<and>
         count_list (fst (poll_run dec t (replicate n (r, GetResp (Inr body), senv))))
           (println_strs [''no slots ('', body, '')'']) = n"
proof (induction n arbitrary: t)
  case 0
  then show ?case by simp
next
  case (Suc n)
  have "fst (poll_iteration dec (GetResp (Inr body)) senv) =
          check_prefix @ [println_strs [''no slots ('', body, '')'']]"
    using assms by (simp add: poll_iteration_def unmarshal_map_obj)
  with Suc show ?case by (simp add: poll_run_Cons)
qed

theorem poll_run_empty_idempotent_witness:
  "count_list (fst (poll_run (\<lambda>_. Inr (JObj [(''items'', JArr [])])) 0
      (replicate 3 (0, GetResp (Inr ''{\"items\": []}''), Decoded 44100)))) EvCallPlaySound = 0 \<and>
   count_list (fst (poll_run (\<lambda>_. Inr (JObj [(''items'', JArr [])])) 0
      (replicate 3 (0, GetResp (Inr ''{\"items\": []}''), Decoded 44100))))
     (println_strs [''no slots ('', ''{\"items\": []}'', '')'']) = 3"
  using poll_run_empty_idempotent [of "\<lambda>_. Inr (JObj [(''items'', JArr [])])" "''{\"items\": []}''"
      "[(''items'', JArr [])]" 0 3 0 "Decoded 44100"]
  by simp

end
