(* ===== verification/Coordinator.thy ===== *)
theory Coordinator
  imports Watcher Poller
begin

text \<open>
  The coordinator \<^verbatim>\<open>main\<close> (src/cmd/main.go, lines 68--73 and 136--137) and the
  whole process: any thread of control that can move does, one atomic action at a time,
  and the operating system may deliver a signal between any two actions. The reachable
  states are those of all interleavings from the initial state, for a fixed JSON
  decoder and any behaviour of the network, the audio device and the random source.
\<close>

inductive main_step :: "sys \<Rightarrow> sys \<Rightarrow> bool" where
  m_start:
    "proc s = Running \<Longrightarrow> mpc s = MInit \<Longrightarrow>
     main_step s (s\<lparr>mpc := MLaunchPoll, wg := wg s + 1, wpc := WStart\<rparr>)"
| m_launch:
    "proc s = Running \<Longrightarrow> mpc s = MLaunchPoll \<Longrightarrow>
     main_step s (s\<lparr>mpc := MWait, wg := wg s + 1, ppc := PWait 0, timeout := 0\<rparr>)"
| m_exit:
    "proc s = Running \<Longrightarrow> mpc s = MWait \<Longrightarrow> wg s = 0 \<Longrightarrow>
     main_step s (s\<lparr>proc := Exited\<rparr>)"

definition prog_step :: "decoder \<Rightarrow> sys \<Rightarrow> sys \<Rightarrow> bool" where
  "prog_step dec s t \<longleftrightarrow> main_step s t \<or> watcher_step s t \<or> poll_step dec s t"

definition sys_step :: "decoder \<Rightarrow> sys \<Rightarrow> sys \<Rightarrow> bool" where
  "sys_step dec s t \<longleftrightarrow> prog_step dec s t \<or> signal_step s t"

inductive reachable :: "decoder \<Rightarrow> sys \<Rightarrow> bool" for dec where
  reach_init: "reachable dec init_sys"
| reach_step: "reachable dec s \<Longrightarrow> sys_step dec s t \<Longrightarrow> reachable dec t"

text \<open>Requests issued after the context was cancelled.\<close>

definition late_gets :: "event list \<Rightarrow> nat" where
  "late_gets tr = gets (dropWhile (\<lambda>e. e \<noteq> EvCancel) tr)"

text \<open>
  The sleeps between consecutive requests, one number per pair; the counter is
  \<open>None\<close> before the first request.
\<close>

fun gaps_from :: "nat option \<Rightarrow> event list \<Rightarrow> nat list" where
  "gaps_from c [] = []"
| "gaps_from c (e # es) =
     (if is_get e then (case c of None \<Rightarrow> [] | Some n \<Rightarrow> [n]) @ gaps_from (Some 0) es
      else gaps_from (if e = EvSleep then map_option Suc c else c) es)"

fun gap_counter :: "nat option \<Rightarrow> event list \<Rightarrow> nat option" where
  "gap_counter c [] = c"
| "gap_counter c (e # es) =
     gap_counter (if is_get e then Some 0 else if e = EvSleep then map_option Suc c else c) es"

definition fetch_gaps :: "event list \<Rightarrow> nat list" where
  "fetch_gaps tr = gaps_from None tr"

text \<open>
  The invariant of the reachable states, in four parts: how the threads' program counters
  and the wait group counter agree; how cancellation and the signal registration follow
  the watcher; the poll goroutine's loop index, \<^verbatim>\<open>timeout\<close> and deferred closes; and
  what the trace records about the spacing of requests and the requests made after
  cancellation.
\<close>

definition inv_threads :: "sys \<Rightarrow> bool" where
  "inv_threads s \<longleftrightarrow>
     (mpc s = MInit \<longrightarrow> wpc s = WNone \<and> ppc s = PNone) \<and>
     (mpc s = MLaunchPoll \<longrightarrow> wpc s \<noteq> WNone \<and> ppc s = PNone) \<and>
     (mpc s = MWait \<longrightarrow> wpc s \<noteq> WNone \<and> ppc s \<noteq> PNone) \<and>
     (proc s = Exited \<longrightarrow> wpc s = WDone \<and> ppc s = PDone) \<and>
     proc s \<noteq> Panicked \<and> wg s = live_goroutines s"

definition inv_signal :: "sys \<Rightarrow> bool" where
  "inv_signal s \<longleftrightarrow>
     (ctx_done s \<longleftrightarrow> EvCancel \<in> set (trace s)) \<and>
     (ctx_done s \<longrightarrow> wpc s = WReturn \<or> wpc s = WDone) \<and>
     (sig_reg s \<longleftrightarrow> wpc s = WRegistered \<or> wpc s = WSelect \<or> wpc s = WReturn) \<and>
     count_list (trace s) EvSigStop = (if wpc s = WDone then 1 else 0)"

definition inv_poll :: "sys \<Rightarrow> bool" where
  "inv_poll s \<longleftrightarrow>
     (ppc s = PNone \<longrightarrow> gets (trace s) = 0 \<and> EvSleep \<notin> set (trace s) \<and> defers s = 0) \<and>
     (\<forall>i. ppc s = PWait i \<longrightarrow> 0 \<le> i \<and> i \<le> timeout s \<and> sleeps_since_get (trace s) = nat i) \<and>
     (gets (trace s) = 0 \<longrightarrow> timeout s = 0) \<and>
     (0 < gets (trace s) \<longrightarrow> 25 \<le> timeout s \<and> timeout s \<le> 34) \<and>
     (ppc s \<noteq> PDone \<longrightarrow> EvBodyClose \<notin> set (trace s)) \<and>
     (ppc s = PDone \<longrightarrow> defers s = 0)"

definition inv_history :: "sys \<Rightarrow> bool" where
  "inv_history s \<longleftrightarrow>
     EvSleep \<notin> set (takeWhile (\<lambda>e. \<not> is_get e) (trace s)) \<and>
     (\<forall>n \<in> set (fetch_gaps (trace s)). 25 \<le> n \<and> n \<le> 34) \<and>
     late_gets (trace s) \<le> 1 \<and>
     (late_gets (trace s) = 1 \<longrightarrow> ppc s = PDone \<or> (\<exists>i. ppc s = PWait i \<and> i < timeout s))"

definition sys_inv :: "sys \<Rightarrow> bool" where
  "sys_inv s \<longleftrightarrow> inv_threads s \<and> inv_signal s \<and> inv_poll s \<and> inv_history s"

inductive_cases main_stepE: "main_step s t"

lemma gap_counter_snoc:
  "gap_counter c (tr @ [e]) =
     (if is_get e then Some 0 else if e = EvSleep then map_option Suc (gap_counter c tr) else gap_counter c tr)"
  by (induction tr arbitrary: c) auto

lemma gaps_from_snoc:
  "gaps_from c (tr @ [e]) =
     gaps_from c tr @ (if is_get e then (case gap_counter c tr of None \<Rightarrow> [] | Some n \<Rightarrow> [n]) else [])"
  by (induction tr arbitrary: c) auto

lemma gap_counter_None:
  "gap_counter None tr = (if gets tr = 0 then None else Some (sleeps_since_get tr))"
proof (induction tr rule: rev_induct)
  case Nil
  then show ?case by (simp add: gets_def)
next
  case (snoc e tr)
  then show ?case by (simp add: gap_counter_snoc trace_simps)
qed

lemma fetch_gaps_snoc [trace_simps]:
  "fetch_gaps (tr @ [e]) =
     fetch_gaps tr @ (if is_get e \<and> 0 < gets tr then [sleeps_since_get tr] else [])"
  by (simp add: fetch_gaps_def gaps_from_snoc gap_counter_None)

lemma fetch_gaps_quiet [trace_simps]:
  "\<forall>e \<in> set ys. \<not> is_get e \<Longrightarrow> fetch_gaps (tr @ ys) = fetch_gaps tr"
proof (induction ys rule: rev_induct)
  case Nil
  then show ?case by simp
next
  case (snoc y ys)
  then show ?case using fetch_gaps_snoc [of "tr @ ys" y] by simp
qed

lemma late_gets_append [trace_simps]:
  "late_gets (tr @ es) = (if EvCancel \<in> set tr then late_gets tr + gets es else late_gets es)"
  by (auto simp: late_gets_def dropWhile_append trace_simps)

lemma late_gets_no_cancel:
  "EvCancel \<notin> set tr \<Longrightarrow> late_gets tr = 0"
proof -
  assume "EvCancel \<notin> set tr"
  then have "dropWhile (\<lambda>e. e \<noteq> EvCancel) tr = []" by (auto simp: dropWhile_eq_Nil_conv)
  then show ?thesis by (simp add: late_gets_def gets_def del: dropWhile_eq_Nil_conv)
qed

lemma fetch_gaps_iteration [trace_simps]:
  "fetch_gaps (tr @ fst (poll_iteration dec g senv)) =
     fetch_gaps tr @ (if 0 < gets tr then [sleeps_since_get tr] else [])"
proof -
  obtain post where p: "fst (poll_iteration dec g senv) = check_prefix @ post"
    and r: "\<forall>e \<in> set post. is_report e"
    using poll_iteration_shape by blast
  have ng: "\<forall>e \<in> set post. \<not> is_get e" using r report_not_get by blast
  let ?tr1 = "tr @ [EvOut (Print [OpTime, OpStr '' -- ''])]"
  have "fetch_gaps (tr @ fst (poll_iteration dec g senv)) = fetch_gaps ((?tr1 @ [EvGet timeslot_url]) @ post)"
    by (simp add: p)
  also have "\<dots> = fetch_gaps (?tr1 @ [EvGet timeslot_url])" using ng by (rule fetch_gaps_quiet)
  also have "\<dots> = fetch_gaps tr @ (if 0 < gets tr then [sleeps_since_get tr] else [])"
    using fetch_gaps_snoc [of ?tr1 "EvGet timeslot_url"] fetch_gaps_snoc [of tr "EvOut (Print [OpTime, OpStr '' -- ''])"]
    by (simp add: gets_append sleeps_since_get_snoc gets_simps)
  finally show ?thesis .
qed


lemmas inv_defs = sys_inv_def inv_threads_def inv_signal_def inv_poll_def inv_history_def

lemma late_gets_simps [trace_simps]:
  "late_gets [] = 0" "late_gets (e # es) = (if e = EvCancel then gets es else late_gets es)"
  by (simp_all add: late_gets_def gets_def)

lemma no_live_goroutine:
  "of_bool (watcher_live w) + of_bool (poll_live p) = (0::int) \<Longrightarrow> w \<noteq> WNone \<Longrightarrow> p \<noteq> PNone \<Longrightarrow>
   w = WDone \<and> p = PDone"
  by (cases w; cases p) auto

lemma sys_inv_init: "sys_inv init_sys"
  by (simp add: inv_defs init_sys_def live_goroutines_def fetch_gaps_def late_gets_def gets_def
                sleeps_since_get_def)

lemma main_step_inv: "main_step s t \<Longrightarrow> sys_inv s \<Longrightarrow> sys_inv t"
proof (induction rule: main_step.induct)
  case (m_start s)
  then show ?case
    unfolding sys_inv_def
    by (clarsimp simp add: inv_threads_def inv_signal_def inv_poll_def inv_history_def live_goroutines_def
                          sleeps_since_get_no_sleep)
next
  case (m_launch s)
  then show ?case
    unfolding sys_inv_def
    by (clarsimp simp add: inv_threads_def inv_signal_def inv_poll_def inv_history_def live_goroutines_def
                          sleeps_since_get_no_sleep)
next
  case (m_exit s)
  then show ?case
    unfolding sys_inv_def
    by (clarsimp simp add: inv_threads_def inv_signal_def inv_poll_def inv_history_def live_goroutines_def
                          no_live_goroutine)
qed


lemma watcher_step_inv: "watcher_step s t \<Longrightarrow> sys_inv s \<Longrightarrow> sys_inv t"
proof (induction rule: watcher_step.induct)
  case (w_register s)
  then show ?case
    unfolding sys_inv_def
    by (auto simp add: inv_threads_def inv_signal_def inv_poll_def inv_history_def
                           live_goroutines_def trace_simps late_gets_no_cancel first_gap_no_get)
next
  case (w_select s)
  then show ?case
    unfolding sys_inv_def
    by (clarsimp simp add: inv_threads_def inv_signal_def inv_poll_def inv_history_def
                           live_goroutines_def)
next
  case (w_signal s)
  then show ?case
    unfolding sys_inv_def
    by (auto simp add: inv_threads_def inv_signal_def inv_poll_def inv_history_def
                           live_goroutines_def trace_simps late_gets_no_cancel first_gap_no_get)
next
  case (w_ctx_done s)
  then show ?case
    unfolding sys_inv_def
    by (clarsimp simp add: inv_threads_def inv_signal_def inv_poll_def inv_history_def
                           live_goroutines_def)
next
  case (w_return s)
  then show ?case
    unfolding sys_inv_def
    by (clarsimp simp add: inv_threads_def inv_signal_def inv_poll_def inv_history_def
                           live_goroutines_def wg_done_def trace_simps late_gets_no_cancel first_gap_no_get)
qed


lemma signal_step_inv: "signal_step s t \<Longrightarrow> sys_inv s \<Longrightarrow> sys_inv t"
proof (induction rule: signal_step.induct)
  case (sig_drop s)
  then show ?case
    unfolding sys_inv_def
    by (auto simp add: inv_threads_def inv_signal_def inv_poll_def inv_history_def
                       live_goroutines_def trace_simps late_gets_no_cancel first_gap_no_get)
next
  case (sig_fatal s)
  then show ?case
    unfolding sys_inv_def
    by (auto simp add: inv_threads_def inv_signal_def inv_poll_def inv_history_def
                       live_goroutines_def trace_simps late_gets_no_cancel first_gap_no_get)
qed

lemma poll_step_inv: "poll_step dec s t \<Longrightarrow> sys_inv s \<Longrightarrow> sys_inv t"
proof (induction rule: poll_step.induct)
  case (p_sleep s i)
  then show ?case
    unfolding sys_inv_def
    by (auto simp add: inv_threads_def inv_signal_def inv_poll_def inv_history_def
                       live_goroutines_def trace_simps late_gets_no_cancel first_gap_no_get)
next
  case (p_return s i)
  then show ?case
    unfolding sys_inv_def
    by (auto simp add: inv_threads_def inv_signal_def inv_poll_def inv_history_def wg_done_def
                       live_goroutines_def trace_simps late_gets_no_cancel first_gap_no_get)
next
  case (p_check s i r g senv)
  have "25 \<le> 25 + r \<and> 25 + r \<le> (34::int)" using p_check.hyps(4,5) by simp
  with p_check show ?case
    unfolding sys_inv_def
    by (auto simp add: inv_threads_def inv_signal_def inv_poll_def inv_history_def
                       live_goroutines_def trace_simps fetch_gaps_iteration late_gets_no_cancel
                       first_gap_no_get dest: set_takeWhileD)
qed



lemma sys_step_inv: "sys_step dec s t \<Longrightarrow> sys_inv s \<Longrightarrow> sys_inv t"
  unfolding sys_step_def prog_step_def
  using main_step_inv watcher_step_inv poll_step_inv signal_step_inv by blast

lemma reachable_inv: "reachable dec s \<Longrightarrow> sys_inv s"
proof (induction rule: reachable.induct)
  case reach_init
  show ?case by (rule sys_inv_init)
next
  case (reach_step s t)
  then show ?case by (blast intro: sys_step_inv)
qed

lemma reachable_prog_step: "reachable dec s \<Longrightarrow> prog_step dec s t \<Longrightarrow> reachable dec t"
  by (auto simp: sys_step_def intro: reach_step)

subsection \<open>Two concrete runs\<close>

lemma reachable_step_to:
  "reachable dec s \<Longrightarrow> prog_step dec s t \<Longrightarrow> t = u \<Longrightarrow> reachable dec u"
  using reachable_prog_step by blast

lemma reach_main: "reachable dec s \<Longrightarrow> main_step s t \<Longrightarrow> reachable dec t"
  and reach_watcher: "reachable dec s \<Longrightarrow> watcher_step s t \<Longrightarrow> reachable dec t"
  and reach_poll: "reachable dec s \<Longrightarrow> poll_step dec s t \<Longrightarrow> reachable dec t"
  by (auto simp: prog_step_def intro: reachable_prog_step)

lemma poll_sleeps_reachable:
  assumes "reachable dec s" and "proc s = Running" and "\<not> ctx_done s" and "ppc s = PWait i"
    and "i + int k \<le> timeout s"
  shows "reachable dec (s\<lparr>ppc := PWait (i + int k), trace := trace s @ replicate k EvSleep\<rparr>)"
  using assms(5)
proof (induction k)
  case 0
  have "s\<lparr>ppc := PWait (i + int 0), trace := trace s @ replicate 0 EvSleep\<rparr> = s"
    using assms(4) by (cases s) simp
  then show ?case using assms(1) by simp
next
  case (Suc k)
  let ?s = "s\<lparr>ppc := PWait (i + int k), trace := trace s @ replicate k EvSleep\<rparr>"
  have r: "reachable dec ?s" using Suc by simp
  have "poll_step dec ?s (?s\<lparr>ppc := PWait (i + int k + 1), trace := trace ?s @ [EvSleep]\<rparr>)"
    using Suc.prems assms(2,3) by (intro poll_step.p_sleep) simp_all
  then show ?case
    by (rule reachable_step_to [OF r, unfolded prog_step_def, OF disjI2 [OF disjI2]])
       (simp add: replicate_append_same [symmetric] add.assoc)
qed

text \<open>A run in which the signal arrives before the poller starts, up to exit.\<close>

lemma cancel_first_run:
  fixes dec :: decoder
  defines "s1 \<equiv> init_sys\<lparr>mpc := MLaunchPoll, wg := wg init_sys + 1, wpc := WStart\<rparr>"
  defines "s2 \<equiv> s1\<lparr>wpc := WRegistered, sig_reg := True, trace := trace s1 @ [EvSigNotify]\<rparr>"
  defines "s3 \<equiv> s2\<lparr>wpc := WSelect\<rparr>"
  defines "s4 \<equiv> s3\<lparr>wpc := WReturn, ctx_done := True, trace := trace s3 @ [EvSignal Delivered, EvCancel]\<rparr>"
  defines "s5 \<equiv> s4\<lparr>mpc := MWait, wg := wg s4 + 1, ppc := PWait 0, timeout := 0\<rparr>"
  defines "s6 \<equiv> s5\<lparr>ppc := PWait 0, timeout := 25 + 0,
                    defers := defers s5 + snd (poll_iteration dec (GetErr ''timeout'') (OpenFails ''none'')),
                    trace := trace s5 @ fst (poll_iteration dec (GetErr ''timeout'') (OpenFails ''none''))\<rparr>"
  defines "s7 \<equiv> wg_done (s6\<lparr>ppc := PDone, defers := 0, trace := trace s6 @ replicate (defers s6) EvBodyClose\<rparr>)"
  defines "s8 \<equiv> wg_done (s7\<lparr>wpc := WDone, sig_reg := False, trace := trace s7 @ [EvSigStop]\<rparr>)"
  defines "s9 \<equiv> s8\<lparr>proc := Exited\<rparr>"
  shows "reachable dec s3 \<and> wpc s3 = WSelect \<and> \<not> ctx_done s3"
    and "reachable dec s4 \<and> main_step s4 s5 \<and> ctx_done s4"
    and "reachable dec s6 \<and> ctx_done s6 \<and> late_gets (trace s6) = 1 \<and> ppc s6 = PWait 0 \<and>
         proc s6 = Running"
    and "reachable dec s9 \<and> proc s9 = Exited \<and> wpc s9 = WDone"
proof -
  have r1: "reachable dec s1" unfolding s1_def
    by (rule reach_main [OF reach_init], rule main_step.m_start) (simp_all add: init_sys_def)
  have r2: "reachable dec s2" unfolding s2_def
    by (rule reach_watcher [OF r1], rule watcher_step.w_register) (simp_all add: s1_def init_sys_def)
  have r3: "reachable dec s3" unfolding s3_def
    by (rule reach_watcher [OF r2], rule watcher_step.w_select) (simp_all add: s2_def s1_def init_sys_def)
  have r4: "reachable dec s4" unfolding s4_def
    by (rule reach_watcher [OF r3], rule watcher_step.w_signal) (simp_all add: s3_def s2_def s1_def init_sys_def)
  have r5: "reachable dec s5" unfolding s5_def
    by (rule reach_main [OF r4], rule main_step.m_launch) (simp_all add: s4_def s3_def s2_def s1_def init_sys_def)
  have r6: "reachable dec s6" unfolding s6_def
    by (rule reach_poll [OF r5], rule poll_step.p_check [where i = 0]) (simp_all add: s5_def s4_def s3_def s2_def s1_def init_sys_def)
  have r7: "reachable dec s7" unfolding s7_def
    by (rule reach_poll [OF r6], rule poll_step.p_return [where i = 0])
       (simp_all add: s6_def s5_def s4_def s3_def s2_def s1_def init_sys_def)
  have r8: "reachable dec s8" unfolding s8_def
    by (rule reach_watcher [OF r7], rule watcher_step.w_return)
       (simp_all add: s7_def s6_def s5_def s4_def s3_def s2_def s1_def init_sys_def wg_done_def)
  have r9: "reachable dec s9" unfolding s9_def
    by (rule reach_main [OF r8], rule main_step.m_exit)
       (simp_all add: s8_def s7_def s6_def s5_def s4_def s3_def s2_def s1_def init_sys_def wg_done_def
                      poll_iteration_def)
  have m5: "main_step s4 s5" unfolding s5_def
    by (rule main_step.m_launch) (simp_all add: s4_def s3_def s2_def s1_def init_sys_def)
  show "reachable dec s3 \<and> wpc s3 = WSelect \<and> \<not> ctx_done s3"
    using r3 by (simp add: s3_def s2_def s1_def init_sys_def)
  show "reachable dec s4 \<and> main_step s4 s5 \<and> ctx_done s4"
    using r4 m5 by (simp add: s4_def)
  show "reachable dec s6 \<and> ctx_done s6 \<and> late_gets (trace s6) = 1 \<and> ppc s6 = PWait 0 \<and>
        proc s6 = Running"
    using r6 by (simp add: s6_def s5_def s4_def s3_def s2_def s1_def init_sys_def poll_iteration_def
                           late_gets_def gets_def)
  show "reachable dec s9 \<and> proc s9 = Exited \<and> wpc s9 = WDone"
    using r9 by (simp add: s9_def s8_def s7_def wg_done_def)
qed

text \<open>A run with two successful requests 25 seconds apart and no signal.\<close>

lemma two_fetch_run:
  fixes dec :: decoder
  defines "g \<equiv> GetResp (Inl ''unexpected EOF'')"
  defines "s1 \<equiv> init_sys\<lparr>mpc := MLaunchPoll, wg := wg init_sys + 1, wpc := WStart\<rparr>"
  defines "s2 \<equiv> s1\<lparr>mpc := MWait, wg := wg s1 + 1, ppc := PWait 0, timeout := 0\<rparr>"
  defines "s3 \<equiv> s2\<lparr>ppc := PWait 0, timeout := 25 + 0,
                    defers := defers s2 + snd (poll_iteration dec g (OpenFails ''none'')),
                    trace := trace s2 @ fst (poll_iteration dec g (OpenFails ''none''))\<rparr>"
  defines "s4 \<equiv> s3\<lparr>ppc := PWait (0 + int 25), trace := trace s3 @ replicate 25 EvSleep\<rparr>"
  defines "s5 \<equiv> s4\<lparr>ppc := PWait 0, timeout := 25 + 0,
                    defers := defers s4 + snd (poll_iteration dec g (OpenFails ''none'')),
                    trace := trace s4 @ fst (poll_iteration dec g (OpenFails ''none''))\<rparr>"
  shows "reachable dec s5 \<and> defers s5 = 2 \<and> ppc s5 \<noteq> PDone \<and> fetch_gaps (trace s5) = [25] \<and>
         gets (trace s5) = 2 \<and> timeout s5 = 25"
proof -
  have r1: "reachable dec s1" unfolding s1_def
    by (rule reach_main [OF reach_init], rule main_step.m_start) (simp_all add: init_sys_def)
  have r2: "reachable dec s2" unfolding s2_def
    by (rule reach_main [OF r1], rule main_step.m_launch) (simp_all add: s1_def init_sys_def)
  have r3: "reachable dec s3" unfolding s3_def
    by (rule reach_poll [OF r2], rule poll_step.p_check [where i = 0])
       (simp_all add: s2_def s1_def init_sys_def)
  have r4: "reachable dec s4" unfolding s4_def
    by (rule poll_sleeps_reachable [OF r3]) (simp_all add: s3_def s2_def s1_def init_sys_def)
  have r5: "reachable dec s5" unfolding s5_def
    by (rule reach_poll [OF r4], rule poll_step.p_check [where i = 25])
       (simp_all add: s4_def s3_def s2_def s1_def init_sys_def)
  have t3: "trace s3 = fst (poll_iteration dec g (OpenFails ''none''))"
    by (simp add: s3_def s2_def s1_def init_sys_def)
  have gap: "fetch_gaps (trace s5) = [25]"
  proof -
    have "fetch_gaps [] = []" by (simp add: fetch_gaps_def)
    then show ?thesis
      using fetch_gaps_iteration [of "trace s4" dec g "OpenFails ''none''"]
            fetch_gaps_iteration [of "[]" dec g "OpenFails ''none''"]
            poll_iteration_events_quiet(2) [of "[]" dec g "OpenFails ''none''"]
      by (simp add: s5_def s4_def t3 fetch_gaps_quiet sleeps_since_get_sleeps trace_simps)
  qed
  show ?thesis
    using r5 gap by (simp add: s5_def s4_def s3_def s2_def s1_def init_sys_def g_def poll_iteration_def
                              gets_def)
qed



subsection \<open>Safety of the coordination\<close>

text \<open>
  C1: \<^verbatim>\<open>main\<close> returns (and the process exits) only after both goroutines have
  returned, under every interleaving and every signal timing.
\<close>

theorem coordinator_waits_for_both:
  assumes "reachable dec s" and "proc s = Exited"
  shows "wpc s = WDone \<and> ppc s = PDone"
  using reachable_inv [OF assms(1)] assms(2) by (simp add: sys_inv_def inv_threads_def)

theorem coordinator_waits_for_both_witness:
  "\<exists>s. reachable (\<lambda>_. Inr JNull) s \<and> proc s = Exited \<and> wpc s = WDone \<and> ppc s = PDone"
proof -
  note run = cancel_first_run(4) [of "\<lambda>_. Inr JNull"]
  from coordinator_waits_for_both [OF run [THEN conjunct1] run [THEN conjunct2, THEN conjunct1]] run
  show ?thesis by blast
qed


text \<open>
  C2: the wait group counter always equals the number of goroutines that have started and
  not yet returned, so it never goes negative and \<^verbatim>\<open>wg.Done()\<close> never panics.
\<close>

theorem waitgroup_counts_live:
  assumes "reachable dec s"
  shows "wg s = live_goroutines s \<and> 0 \<le> wg s \<and> proc s \<noteq> Panicked"
  using reachable_inv [OF assms] by (auto simp: sys_inv_def inv_threads_def live_goroutines_def)

theorem waitgroup_counts_live_witness:
  "\<exists>s. reachable (\<lambda>_. Inr JNull) s \<and> wg s = 2 \<and> wg s = live_goroutines s \<and> proc s \<noteq> Panicked"
proof -
  note run = cancel_first_run(3) [of "\<lambda>_. Inr JNull"]
  from waitgroup_counts_live [OF run [THEN conjunct1]] run
  show ?thesis by (auto simp: init_sys_def wg_done_def)
qed


lemma sys_step_keeps_ctx_done: "sys_step dec s t \<Longrightarrow> ctx_done s \<Longrightarrow> ctx_done t"
  by (auto simp: sys_step_def prog_step_def wg_done_def
           elim!: main_stepE watcher_stepE poll_stepE signal_stepE)

text \<open>
  C4: at most one request is issued after the context is cancelled: the wait loop notices
  cancellation before its next one-second step, but a pass already due (the first one, or
  one whose wait ended at the cancellation) still runs.
\<close>

theorem at_most_one_fetch_after_cancel:
  assumes "reachable dec s"
  shows "late_gets (trace s) \<le> 1"
  using reachable_inv [OF assms] by (simp add: sys_inv_def inv_history_def)

theorem at_most_one_fetch_after_cancel_witness:
  "\<exists>s. reachable (\<lambda>_. Inr JNull) s \<and> ctx_done s \<and> late_gets (trace s) \<le> 1"
proof -
  note run = cancel_first_run(3) [of "\<lambda>_. Inr JNull"]
  from at_most_one_fetch_after_cancel [OF run [THEN conjunct1]] run
  show ?thesis by blast
qed


text \<open>
  C6: the first request is not delayed: no one-second sleep precedes it, because
  \<^verbatim>\<open>timeout\<close> starts at 0 and is drawn only after a wait.
\<close>

theorem first_fetch_not_delayed:
  assumes "reachable dec s"
  shows "EvSleep \<notin> set (takeWhile (\<lambda>e. \<not> is_get e) (trace s))"
  using reachable_inv [OF assms] by (simp add: sys_inv_def inv_history_def)

theorem first_fetch_not_delayed_witness:
  "\<exists>s. reachable (\<lambda>_. Inr JNull) s \<and> gets (trace s) = 2 \<and>
       EvSleep \<notin> set (takeWhile (\<lambda>e. \<not> is_get e) (trace s))"
proof -
  note run = two_fetch_run [of "\<lambda>_. Inr JNull"]
  from first_fetch_not_delayed [OF run [THEN conjunct1]] run
  show ?thesis by blast
qed


text \<open>
  C7: between any two consecutive requests the poller sleeps between 25 and 34 seconds,
  in one-second steps.
\<close>

theorem fetch_gaps_in_range:
  assumes "reachable dec s"
  shows "\<forall>n \<in> set (fetch_gaps (trace s)). 25 \<le> n \<and> n \<le> 34"
  using reachable_inv [OF assms] by (simp add: sys_inv_def inv_history_def)

theorem fetch_gaps_in_range_witness:
  "\<exists>s. reachable (\<lambda>_. Inr JNull) s \<and> fetch_gaps (trace s) = [25] \<and>
       (\<forall>n \<in> set (fetch_gaps (trace s)). 25 \<le> n \<and> n \<le> 34)"
proof -
  note run = two_fetch_run [of "\<lambda>_. Inr JNull"]
  from fetch_gaps_in_range [OF run [THEN conjunct1]] run
  show ?thesis by blast
qed


text \<open>
  C8: the watcher releases its signal registration exactly once: \<^verbatim>\<open>signal.Stop\<close> and
  \<^verbatim>\<open>close\<close> have run once when it has returned, never before, and never twice.
\<close>

theorem watcher_releases_once:
  assumes "reachable dec s"
  shows "count_list (trace s) EvSigStop = (if wpc s = WDone then 1 else 0) \<and>
         (wpc s = WDone \<longrightarrow> \<not> sig_reg s)"
  using reachable_inv [OF assms] by (simp add: sys_inv_def inv_signal_def)

theorem watcher_releases_once_witness:
  "\<exists>s. reachable (\<lambda>_. Inr JNull) s \<and> proc s = Exited \<and> count_list (trace s) EvSigStop = 1"
proof -
  note run = cancel_first_run(4) [of "\<lambda>_. Inr JNull"]
  from watcher_releases_once [OF run [THEN conjunct1]] run
  show ?thesis by auto
qed


text \<open>
  C9: the context is cancelled only by the watcher itself, on a delivered signal; so when
  the watcher is blocked in its \<^verbatim>\<open>select\<close> the context is never already cancelled, and
  the \<^verbatim>\<open><-ctx.Done()\<close> case of line 48 can never be taken.
\<close>

theorem watcher_ctx_case_dead:
  assumes "reachable dec s" and "wpc s = WSelect"
  shows "\<not> ctx_done s"
  using reachable_inv [OF assms(1)] assms(2) by (auto simp: sys_inv_def inv_signal_def)

theorem watcher_ctx_case_dead_witness:
  "\<exists>s. reachable (\<lambda>_. Inr JNull) s \<and> wpc s = WSelect \<and> \<not> ctx_done s"
proof -
  note run = cancel_first_run(1) [of "\<lambda>_. Inr JNull"]
  from watcher_ctx_case_dead [OF run [THEN conjunct1] run [THEN conjunct2, THEN conjunct1]] run
  show ?thesis by blast
qed


text \<open>
  C10: no response body is closed while the poll goroutine runs: the deferred closes
  registered in the loop run only when the goroutine returns.
\<close>

theorem bodies_closed_only_at_return:
  assumes "reachable dec s" and "ppc s \<noteq> PDone"
  shows "EvBodyClose \<notin> set (trace s)"
  using reachable_inv [OF assms(1)] assms(2) by (simp add: sys_inv_def inv_poll_def)

theorem bodies_closed_only_at_return_witness:
  "\<exists>s. reachable (\<lambda>_. Inr JNull) s \<and> ppc s = PWait 0 \<and> EvBodyClose \<notin> set (trace s)"
proof -
  note run = cancel_first_run(3) [of "\<lambda>_. Inr JNull"]
  have "ppc s \<noteq> PDone" if "ppc s = PWait 0" for s :: sys using that by simp
  from bodies_closed_only_at_return [OF run [THEN conjunct1] this] run
  show ?thesis by blast
qed


text \<open>
  C12: once the first request has been issued, the poll interval lies in the closed range
  [25, 34]; before it, it is 0.
\<close>

theorem timeout_bounds:
  assumes "reachable dec s"
  shows "(0 < gets (trace s) \<longrightarrow> 25 \<le> timeout s \<and> timeout s \<le> 34) \<and>
         (gets (trace s) = 0 \<longrightarrow> timeout s = 0)"
  using reachable_inv [OF assms] by (simp add: sys_inv_def inv_poll_def)


theorem timeout_bounds_witness:
  "\<exists>s. reachable (\<lambda>_. Inr JNull) s \<and> gets (trace s) = 2 \<and> 25 \<le> timeout s \<and> timeout s \<le> 34"
proof -
  note run = two_fetch_run [of "\<lambda>_. Inr JNull"]
  from timeout_bounds [OF run [THEN conjunct1]] run
  show ?thesis by auto
qed

text \<open>
  C5: a request can be issued after the context was cancelled: when the signal arrives
  before the poll goroutine has started, its first pass runs without looking at the
  context (the same happens when the signal arrives during the last second of a wait).
\<close>

theorem fetch_after_cancel_reachable:
  "\<exists>s. reachable dec s \<and> ctx_done s \<and> late_gets (trace s) = 1"
  using cancel_first_run(3) by blast

text \<open>
  C11: response bodies accumulate: with two successful requests and no signal, two
  bodies are open at the same time and none has been closed, because each
  \<^verbatim>\<open>defer resp.Body.Close()\<close> waits for the goroutine to return.
\<close>

theorem response_bodies_accumulate:
  "\<exists>s. reachable dec s \<and> defers s = 2 \<and> EvBodyClose \<notin> set (trace s)"
proof -
  note run = two_fetch_run [of dec]
  from reachable_inv [OF run [THEN conjunct1]] run
  show ?thesis by (auto simp: sys_inv_def inv_poll_def)
qed

text \<open>
  C24: a signal can be lost: one that arrives after \<^verbatim>\<open>signal.Notify\<close> but before the
  watcher blocks in its \<^verbatim>\<open>select\<close> finds nobody receiving on the unbuffered channel
  and is dropped; the process goes on running with the context not cancelled, and the
  watcher then waits for another signal.
\<close>

theorem signal_lost_reachable:
  "\<exists>s. reachable dec s \<and> EvSignal Dropped \<in> set (trace s) \<and> \<not> ctx_done s \<and>
       proc s = Running \<and> wpc s = WRegistered"
proof -
  define s1 where "s1 = init_sys\<lparr>mpc := MLaunchPoll, wg := wg init_sys + 1, wpc := WStart\<rparr>"
  define s2 where "s2 = s1\<lparr>wpc := WRegistered, sig_reg := True, trace := trace s1 @ [EvSigNotify]\<rparr>"
  define s3 where "s3 = s2\<lparr>trace := trace s2 @ [EvSignal Dropped]\<rparr>"
  have r1: "reachable dec s1" unfolding s1_def
    by (rule reach_main [OF reach_init], rule main_step.m_start) (simp_all add: init_sys_def)
  have r2: "reachable dec s2" unfolding s2_def
    by (rule reach_watcher [OF r1], rule watcher_step.w_register) (simp_all add: s1_def init_sys_def)
  have "signal_step s2 s3" unfolding s3_def
    by (rule signal_step.sig_drop) (simp_all add: s2_def s1_def init_sys_def)
  then have r3: "reachable dec s3" using r2 by (auto simp: sys_step_def intro: reach_step)
  moreover have "EvSignal Dropped \<in> set (trace s3) \<and> \<not> ctx_done s3 \<and> proc s3 = Running \<and>
                 wpc s3 = WRegistered"
    by (simp add: s3_def s2_def s1_def init_sys_def)
  ultimately show ?thesis by blast
qed

end
