(* ===== verification/Cancel_Context.thy ===== *)
theory Cancel_Context
  imports Coordinator
begin

text \<open>
  The context of src/cmd/main.go, line 69: \<^verbatim>\<open>context.WithCancel(context.Background())\<close>,
  Go's \<^verbatim>\<open>cancelCtx\<close>. Its \<^verbatim>\<open>Done()\<close> makes the done channel lazily; the first
  \<^verbatim>\<open>cancel()\<close> records \<^verbatim>\<open>context canceled\<close> and closes that channel, or stores the
  package's pre-closed \<^verbatim>\<open>closedchan\<close> if \<^verbatim>\<open>Done()\<close> was never called; later
  calls return at once. Closing a closed channel panics in Go, so \<open>close_chan\<close> and
  \<open>ctx_cancel\<close> return \<open>None\<close> for that panic. A \<^verbatim>\<open>select\<close> case
  \<^verbatim>\<open><-ctx.Done()\<close> (lines 48 and 81) can proceed exactly when the channel
  \<^verbatim>\<open>Done()\<close> returns is closed. The parent is \<^verbatim>\<open>Background\<close>, which is never
  cancelled and has no children to propagate to, and no context is derived from this one.
  The rest of the development keeps the context as the flag \<open>ctx_done\<close>;
  \<open>ctx_flag_refines_context\<close> shows that the flag is what this model reports.
\<close>

datatype done_chan = ClosedChan | MadeChan

record cancel_ctx =
  ctx_done_ch :: "done_chan option"
  ctx_made_closed :: bool
  ctx_err :: "string option"

definition canceled_err :: string where
  "canceled_err = ''context canceled''"

definition with_cancel :: cancel_ctx where
  "with_cancel = \<lparr>ctx_done_ch = None, ctx_made_closed = False, ctx_err = None\<rparr>"

definition ctx_Done :: "cancel_ctx \<Rightarrow> cancel_ctx \<times> done_chan" where
  "ctx_Done c =
     (case ctx_done_ch c of
        None \<Rightarrow> (c\<lparr>ctx_done_ch := Some MadeChan\<rparr>, MadeChan)
      | Some d \<Rightarrow> (c, d))"

definition chan_closed :: "cancel_ctx \<Rightarrow> done_chan \<Rightarrow> bool" where
  "chan_closed c d = (case d of ClosedChan \<Rightarrow> True | MadeChan \<Rightarrow> ctx_made_closed c)"

definition close_chan :: "cancel_ctx \<Rightarrow> done_chan \<Rightarrow> cancel_ctx option" where
  "close_chan c d = (if chan_closed c d then None else Some (c\<lparr>ctx_made_closed := True\<rparr>))"

definition ctx_cancel :: "cancel_ctx \<Rightarrow> cancel_ctx option" where
  "ctx_cancel c =
     (if ctx_err c \<noteq> None then Some c
      else
        (let c1 = c\<lparr>ctx_err := Some canceled_err\<rparr>
         in case ctx_done_ch c1 of
              None \<Rightarrow> Some (c1\<lparr>ctx_done_ch := Some ClosedChan\<rparr>)
            | Some d \<Rightarrow> close_chan c1 d))"

text \<open>Whether \<^verbatim>\<open>case <-ctx.Done():\<close> of a \<^verbatim>\<open>select\<close> can proceed.\<close>

definition done_ready :: "cancel_ctx \<Rightarrow> bool" where
  "done_ready c = (case ctx_Done c of (c', d) \<Rightarrow> chan_closed c' d)"

text \<open>
  The calls the two goroutines make on the context, in the order they happen; a run
  returns the final context and the channels the \<^verbatim>\<open>Done()\<close> calls handed out, which
  a \<^verbatim>\<open>select\<close> may still be waiting on.
\<close>

datatype ctx_call = CallDone | CallCancel

fun ctx_run :: "cancel_ctx \<Rightarrow> ctx_call list \<Rightarrow> (cancel_ctx \<times> done_chan list) option" where
  "ctx_run c [] = Some (c, [])"
| "ctx_run c (CallDone # ops) =
     (case ctx_Done c of (c', d) \<Rightarrow> map_option (\<lambda>(c'', ds). (c'', d # ds)) (ctx_run c' ops))"
| "ctx_run c (CallCancel # ops) = (case ctx_cancel c of None \<Rightarrow> None | Some c' \<Rightarrow> ctx_run c' ops)"

definition ctx_inv :: "cancel_ctx \<Rightarrow> bool" where
  "ctx_inv c \<longleftrightarrow>
     (ctx_made_closed c \<longrightarrow> ctx_done_ch c = Some MadeChan) \<and>
     (ctx_err c = None \<longleftrightarrow> \<not> (ctx_done_ch c = Some ClosedChan \<or> ctx_made_closed c)) \<and>
     (ctx_err c = None \<or> ctx_err c = Some canceled_err)"

lemma ctx_inv_init: "ctx_inv with_cancel"
  by (simp add: ctx_inv_def with_cancel_def)

lemma ctx_Done_inv:
  "ctx_inv c \<Longrightarrow> ctx_Done c = (c', d) \<Longrightarrow>
   ctx_inv c' \<and> ctx_err c' = ctx_err c \<and> ctx_done_ch c' = Some d \<and>
   (\<forall>d0. ctx_done_ch c = Some d0 \<longrightarrow> d = d0)"
  by (auto simp: ctx_inv_def ctx_Done_def split: option.splits)

lemma ctx_cancel_inv:
  "ctx_inv c \<Longrightarrow>
   \<exists>c'. ctx_cancel c = Some c' \<and> ctx_inv c' \<and> ctx_err c' = Some canceled_err \<and>
        (\<forall>d. ctx_done_ch c = Some d \<longrightarrow> ctx_done_ch c' = Some d)"
  by (auto simp: ctx_inv_def ctx_cancel_def close_chan_def chan_closed_def Let_def
           split: option.split done_chan.split)

lemma chan_closed_inv: "ctx_inv c \<Longrightarrow> ctx_done_ch c = Some d \<Longrightarrow> chan_closed c d \<longleftrightarrow> ctx_err c \<noteq> None"
  by (auto simp: ctx_inv_def chan_closed_def split: done_chan.split)

lemma done_ready_inv: "ctx_inv c \<Longrightarrow> done_ready c \<longleftrightarrow> ctx_err c \<noteq> None"
  by (auto simp: ctx_inv_def done_ready_def ctx_Done_def chan_closed_def split: option.split done_chan.split)

lemma ctx_run_inv:
  "ctx_inv c \<Longrightarrow>
   \<exists>c' ds. ctx_run c ops = Some (c', ds) \<and> ctx_inv c' \<and>
        ctx_err c' = (if CallCancel \<in> set ops then Some canceled_err else ctx_err c) \<and>
        (\<forall>d. ctx_done_ch c = Some d \<longrightarrow> ctx_done_ch c' = Some d) \<and>
        (\<forall>d \<in> set ds. ctx_done_ch c' = Some d)"
proof (induction c ops rule: ctx_run.induct)
  case (2 c ops)
  obtain c1 d where D: "ctx_Done c = (c1, d)" by fastforce
  note f = ctx_Done_inv [OF 2(2) D]
  obtain c' ds where "ctx_run c1 ops = Some (c', ds)" "ctx_inv c'"
    "ctx_err c' = (if CallCancel \<in> set ops then Some canceled_err else ctx_err c1)"
    "\<forall>d. ctx_done_ch c1 = Some d \<longrightarrow> ctx_done_ch c' = Some d" "\<forall>d \<in> set ds. ctx_done_ch c' = Some d"
    using 2(1) [OF D [symmetric]] f by blast
  then show ?case using D f by auto
next
  case (3 c ops)
  obtain c1 where "ctx_cancel c = Some c1" "ctx_inv c1" "ctx_err c1 = Some canceled_err"
    "\<forall>d. ctx_done_ch c = Some d \<longrightarrow> ctx_done_ch c1 = Some d"
    using ctx_cancel_inv [OF 3(2)] by blast
  then show ?case using 3(1) by fastforce
qed simp

lemma cancel_calls_iff:
  "filter (\<lambda>x. x = CallCancel) ops = replicate n CallCancel \<Longrightarrow> CallCancel \<in> set ops \<longleftrightarrow> 0 < n"
proof -
  assume f: "filter (\<lambda>x. x = CallCancel) ops = replicate n CallCancel"
  have "CallCancel \<in> set ops \<longleftrightarrow> CallCancel \<in> set (filter (\<lambda>x. x = CallCancel) ops)" by simp
  then show ?thesis using f by simp
qed

text \<open>
  C23: the flag \<open>ctx_done\<close> of every reachable state is what the context package reports:
  for every interleaving of \<^verbatim>\<open>Done()\<close> calls with the \<^verbatim>\<open>cancel()\<close> calls the trace
  records, no call panics, every channel a \<^verbatim>\<open>Done()\<close> call handed out (one a
  \<^verbatim>\<open>select\<close> may still wait on) and the channel of a new call are closed exactly when
  the flag is set, and \<^verbatim>\<open>Err()\<close> is \<^verbatim>\<open>context canceled\<close> then and \<^verbatim>\<open>nil\<close> before.
\<close>

theorem ctx_flag_refines_context:
  assumes "reachable dec s"
    and "filter (\<lambda>x. x = CallCancel) ops = replicate (count_list (trace s) EvCancel) CallCancel"
  shows "\<exists>c ds. ctx_run with_cancel ops = Some (c, ds) \<and> (\<forall>d \<in> set ds. chan_closed c d \<longleftrightarrow> ctx_done s) \<and>
             (done_ready c \<longleftrightarrow> ctx_done s) \<and> ctx_err c = (if ctx_done s then Some canceled_err else None)"
proof -
  have "ctx_done s \<longleftrightarrow> EvCancel \<in> set (trace s)"
    using reachable_inv [OF assms(1)] by (simp add: inv_defs)
  moreover have "0 < count_list (trace s) EvCancel \<longleftrightarrow> EvCancel \<in> set (trace s)"
    using count_list_0_iff [of "trace s" EvCancel] by auto
  ultimately have flag: "CallCancel \<in> set ops \<longleftrightarrow> ctx_done s"
    using cancel_calls_iff [OF assms(2)] by simp
  obtain c ds where r: "ctx_run with_cancel ops = Some (c, ds)" "ctx_inv c"
    "ctx_err c = (if CallCancel \<in> set ops then Some canceled_err else None)"
    "\<forall>d \<in> set ds. ctx_done_ch c = Some d"
    using ctx_run_inv [OF ctx_inv_init, of ops] by (auto simp: with_cancel_def)
  then have "\<forall>d \<in> set ds. chan_closed c d \<longleftrightarrow> ctx_done s" using flag chan_closed_inv by auto
  then show ?thesis using r flag done_ready_inv by auto
qed

theorem ctx_flag_refines_context_witness:
  "\<exists>s c. reachable (\<lambda>_. Inr JNull) s \<and> ctx_done s \<and>
     ctx_run with_cancel [CallDone, CallCancel, CallDone] = Some (c, [MadeChan, MadeChan]) \<and>
     chan_closed c MadeChan \<and> done_ready c \<and> ctx_err c = Some canceled_err"
proof -
  obtain s where s: "reachable (\<lambda>_. Inr JNull) s" "ctx_done s" "trace s = [EvSigNotify, EvSignal Delivered, EvCancel]"
    using cancel_first_run(2) [of "\<lambda>_. Inr JNull"] by (force simp: init_sys_def)
  have "filter (\<lambda>x. x = CallCancel) [CallDone, CallCancel, CallDone] =
        replicate (count_list (trace s) EvCancel) CallCancel" using s(3) by simp
  from ctx_flag_refines_context [OF s(1) this] obtain c ds where
    "ctx_run with_cancel [CallDone, CallCancel, CallDone] = Some (c, ds)" "\<forall>d \<in> set ds. chan_closed c d"
    "done_ready c" "ctx_err c = Some canceled_err" using s(2) by auto
  moreover have "ds = [MadeChan, MadeChan]" using calculation(1)
    by (simp add: with_cancel_def ctx_Done_def ctx_cancel_def close_chan_def chan_closed_def Let_def)
  ultimately show ?thesis using s(1,2) by auto
qed

end
