(* ===== verification/Rand.thy ===== *)
theory Rand
  imports Prelude "HOL-Library.Word" "HOL-Library.Signed_Division"
begin

text \<open>
  The random draw of the poll loop, \<^verbatim>\<open>rand.Intn(10)\<close> (src/cmd/main.go, line 87),
  as Go's \<^verbatim>\<open>math/rand\<close> computes it: \<^verbatim>\<open>Intn\<close> panics for a bound that is not
  positive and otherwise calls \<^verbatim>\<open>Int31n\<close> (bounds below \<open>2^31\<close>) or
  \<^verbatim>\<open>Int63n\<close>. Both mask the draw when the bound is a power of two and otherwise reject
  draws above the largest multiple of the bound and return the remainder; one generic
  definition \<open>go_intn\<close> over the word width is both. The generator itself (the
  additive lagged Fibonacci source) is the parameter \<open>src\<close>, the sequence of its
  64-bit outputs; \<^verbatim>\<open>Int63\<close> masks the top bit and \<^verbatim>\<open>Int31\<close> keeps bits 32 to 62.
  The rejection loop may run forever on an adversarial source, so it is a
  \<open>partial_function (option)\<close>: \<open>None\<close> is non-termination.
\<close>

unbundle bit_operations_syntax

type_synonym rng_source = "nat \<Rightarrow> 64 word"

definition int63 :: "rng_source \<Rightarrow> nat \<Rightarrow> 64 word" where
  "int63 src i = src i AND mask 63"

definition int31 :: "rng_source \<Rightarrow> nat \<Rightarrow> 32 word" where
  "int31 src i = ucast (drop_bit 32 (int63 src i))"

definition go_mod :: "'a::len word \<Rightarrow> 'a word \<Rightarrow> 'a word" where
  "go_mod a b = word_of_int (sint a smod sint b)"

definition go_intn_max :: "'a::len word \<Rightarrow> 'a word" where
  "go_intn_max n = (2 ^ (LENGTH('a) - 1) - 1) - (2 ^ (LENGTH('a) - 1) mod n)"

partial_function (option) reject_loop ::
  "(nat \<Rightarrow> 'a::len word) \<Rightarrow> 'a word \<Rightarrow> nat \<Rightarrow> ('a word \<times> nat) option" where
  "reject_loop draw m i = (if m <s draw i then reject_loop draw m (Suc i) else Some (draw i, Suc i))"

declare reject_loop.simps [code]

definition go_intn :: "string \<Rightarrow> (nat \<Rightarrow> 'a::len word) \<Rightarrow> 'a word \<Rightarrow> nat \<Rightarrow> (string + 'a word \<times> nat) option" where
  "go_intn name draw n i =
     (if n \<le>s 0 then Some (Inl (''invalid argument to '' @ name))
      else if n AND (n - 1) = 0 then Some (Inr (draw i AND (n - 1), Suc i))
      else map_option (\<lambda>(v, j). Inr (go_mod v n, j)) (reject_loop draw (go_intn_max n) i))"

definition go_intn_ref :: "string \<Rightarrow> (nat \<Rightarrow> 'a::len word) \<Rightarrow> 'a word \<Rightarrow> nat \<Rightarrow> (string + 'a word \<times> nat) option" where
  "go_intn_ref name draw n i =
     (if n \<le>s 0 then Some (Inl (''invalid argument to '' @ name))
      else map_option (\<lambda>(v, j). Inr (go_mod v n, j)) (reject_loop draw (go_intn_max n) i))"

definition int31n :: "rng_source \<Rightarrow> 32 word \<Rightarrow> nat \<Rightarrow> (string + 32 word \<times> nat) option" where
  "int31n src = go_intn ''Int31n'' (int31 src)"

definition int63n :: "rng_source \<Rightarrow> 64 word \<Rightarrow> nat \<Rightarrow> (string + 64 word \<times> nat) option" where
  "int63n src = go_intn ''Int63n'' (int63 src)"

definition intn :: "rng_source \<Rightarrow> 64 word \<Rightarrow> nat \<Rightarrow> (string + int \<times> nat) option" where
  "intn src n i =
     (if n \<le>s 0 then Some (Inl ''invalid argument to Intn'')
      else if n \<le>s 2 ^ 31 - 1
      then map_option (map_sum id (\<lambda>(v, j). (sint v, j))) (int31n src (ucast n) i)
      else map_option (map_sum id (\<lambda>(v, j). (sint v, j))) (int63n src n i))"

text \<open>
  The statement \<^verbatim>\<open>timeout = 25 + rand.Intn(10)\<close> (src/cmd/main.go, line 87): the next
  poll interval and the position of the next unused draw of the source.
\<close>

definition next_timeout :: "rng_source \<Rightarrow> nat \<Rightarrow> (string + int \<times> nat) option" where
  "next_timeout src i = map_option (map_sum id (\<lambda>(r, j). (25 + r, j))) (intn src 10 i)"

lemma int31_alt: "int31 src i = ucast (drop_bit 32 (src i)) AND mask 31"
  unfolding int31_def int63_def by (rule bit_word_eqI) (auto simp: bit_simps)

lemma int31_half: "uint (int31 src i) < 2 ^ 31"
  unfolding int31_alt by (rule and_mask_lt_2p)

lemma int63_half: "uint (int63 src i) < 2 ^ 63"
  unfolding int63_def by (rule and_mask_lt_2p)

lemma sint_eq_uint_half:
  "uint (w :: 'a::len word) < 2 ^ (LENGTH('a) - 1) \<Longrightarrow> sint w = uint w"
proof -
  assume "uint w < 2 ^ (LENGTH('a) - 1)"
  moreover have "- (2 ^ (LENGTH('a) - 1)) \<le> uint w"
    using uint_ge_0 [of w] zero_le_power [of "2::int" "LENGTH('a) - 1"] by linarith
  ultimately show ?thesis unfolding sint_uint by (simp add: signed_take_bit_int_eq_self)
qed

lemma sint_nonneg_eq_uint:
  "0 \<le> sint (w :: 'a::len word) \<Longrightarrow> sint w = uint w"
proof -
  assume "0 \<le> sint w"
  moreover have "sint w < 2 ^ LENGTH('a)"
    using sint_lt [of w] by (rule less_le_trans) simp
  ultimately show ?thesis by (simp add: uint_sint take_bit_int_eq_self)
qed

lemma reject_loop_Some:
  assumes "reject_loop draw m i = Some y"
  shows "\<not> m <s fst y \<and> fst y = draw (snd y - 1) \<and> i < snd y"
  by (rule reject_loop.raw_induct [OF _ assms]) (fastforce split: if_splits)

lemma reject_loop_terminates:
  "\<not> m <s draw k \<Longrightarrow> i \<le> k \<Longrightarrow> \<exists>v j. reject_loop draw m i = Some (v, j)"
proof (induction "k - i" arbitrary: i)
  case 0
  then have "i = k" by simp
  with 0 show ?case by (subst reject_loop.simps) simp
next
  case (Suc d)
  show ?case
  proof (cases "m <s draw i")
    case True
    with Suc.prems have "Suc i \<le> k" by (cases "i = k") auto
    moreover have "d = k - Suc i" using Suc.hyps(2) by arith
    ultimately obtain v j where "reject_loop draw m (Suc i) = Some (v, j)"
      using Suc.hyps(1) Suc.prems(1) by blast
    with True show ?thesis by (subst reject_loop.simps) simp
  next
    case False
    then show ?thesis by (subst reject_loop.simps) simp
  qed
qed

lemma go_mod_nonneg:
  assumes a: "0 \<le> sint a" and b: "0 < sint b"
  shows "go_mod a b = a mod b"
proof -
  have "sint a smod sint b = sint a mod sint b"
    using a b by (cases "sint a = 0") (simp_all add: signed_modulo_int_eq_modulo_int sgn_if)
  then show ?thesis using a b by (simp add: go_mod_def sint_nonneg_eq_uint word_mod_def)
qed

lemma sint_pos_facts:
  "0 < sint (n :: 'a::len word) \<Longrightarrow> sint n = uint n \<and> n \<noteq> 0 \<and> uint n < 2 ^ (LENGTH('a) - 1)"
  using sint_nonneg_eq_uint [of n] sint_lt [of n] by auto

lemma go_intn_Inr_pos:
  "go_intn name draw n i = Some (Inr y) \<Longrightarrow> 0 < sint n"
  by (auto simp: go_intn_def word_sle_eq split: if_splits)

lemma go_intn_range:
  assumes half: "\<forall>i. uint (draw i) < 2 ^ (LENGTH('a) - 1)"
    and res: "go_intn name draw (n :: 'a::len word) i = Some (Inr (r, j))"
  shows "0 \<le> sint r \<and> sint r < sint n"
proof -
  have pos: "0 < sint n" using go_intn_Inr_pos res .
  note n = sint_pos_facts [OF pos]
  have lt: "uint r < uint n"
  proof (cases "n AND (n - 1) = 0")
    case True
    with res pos have "r = draw i AND (n - 1)" by (auto simp: go_intn_def word_sle_eq)
    then have "unat r \<le> unat (n - 1)" using word_and_le1 [of "draw i" "n - 1"]
      by (simp add: word_le_nat_alt)
    also have "\<dots> < unat n" using n unat_minus_one [of n] unat_gt_0 [of n] by simp
    finally have "r < n" by (simp add: word_less_nat_alt)
    then show ?thesis by (simp add: word_less_def)
  next
    case False
    with res pos obtain v j' where l: "reject_loop draw (go_intn_max n) i = Some (v, j')"
      and r: "r = go_mod v n"
      by (auto simp: go_intn_def word_sle_eq split: if_splits)
    have "v = draw (j' - 1)" using reject_loop_Some [OF l] by simp
    then have "0 \<le> sint v" using half sint_eq_uint_half [of v] by simp
    then have "r = v mod n" using r pos go_mod_nonneg by simp
    moreover have "0 < uint n" using n by (simp add: uint_0_iff order_le_neq_trans)
    ultimately show ?thesis by (simp add: uint_mod)
  qed
  with n have "sint r = uint r" by (simp add: sint_eq_uint_half)
  with lt n show ?thesis by simp
qed

lemma go_intn_returns_iff:
  assumes "0 <s n"
  shows "(\<exists>y. go_intn name draw n i = Some (Inr y)) \<longleftrightarrow>
         n AND (n - 1) = 0 \<or> (\<exists>k \<ge> i. \<not> go_intn_max n <s draw k)"
proof
  assume "\<exists>y. go_intn name draw n i = Some (Inr y)"
  then obtain y where y: "go_intn name draw n i = Some (Inr y)" by blast
  show "n AND (n - 1) = 0 \<or> (\<exists>k \<ge> i. \<not> go_intn_max n <s draw k)"
  proof (cases "n AND (n - 1) = 0")
    case True
    then show ?thesis by simp
  next
    case False
    with y assms obtain y' where "reject_loop draw (go_intn_max n) i = Some y'"
      by (auto simp: go_intn_def word_sle_eq word_sless_alt)
    from reject_loop_Some [OF this] have "\<exists>k \<ge> i. \<not> go_intn_max n <s draw k"
      by (intro exI [of _ "snd y' - 1"]) auto
    then show ?thesis by simp
  qed
next
  assume "n AND (n - 1) = 0 \<or> (\<exists>k \<ge> i. \<not> go_intn_max n <s draw k)"
  then show "\<exists>y. go_intn name draw n i = Some (Inr y)"
  proof
    assume "n AND (n - 1) = 0"
    then show ?thesis using assms by (simp add: go_intn_def word_sle_eq word_sless_alt)
  next
    assume "\<exists>k \<ge> i. \<not> go_intn_max n <s draw k"
    then obtain k where "\<not> go_intn_max n <s draw k" "i \<le> k" by blast
    from reject_loop_terminates [where draw = draw, OF this] obtain v j
      where "reject_loop draw (go_intn_max n) i = Some (v, j)" by blast
    then show ?thesis using assms by (simp add: go_intn_def word_sle_eq word_sless_alt)
  qed
qed

lemma word_2p_pos: "k < LENGTH('a) \<Longrightarrow> 0 < (2::'a::len word) ^ k"
  by (simp add: word_gt_0 power_not_zero)

lemma uint_2p_small: "k < LENGTH('a) \<Longrightarrow> uint ((2::'a::len word) ^ k) = 2 ^ k"
  by (rule uint_2p) (rule word_2p_pos)

lemma pow2_and_pred: "k < LENGTH('a) \<Longrightarrow> (2::'a::len word) ^ k AND (2 ^ k - 1) = 0"
  by (simp add: mask_eq_exp_minus_1 [symmetric]) (rule bit_word_eqI, auto simp: bit_simps)

lemma go_intn_max_pow2:
  assumes "k < LENGTH('a) - 1"
  shows "go_intn_max ((2::'a::len word) ^ k) = 2 ^ (LENGTH('a) - 1) - 1"
proof -
  have "(2::int) ^ k dvd 2 ^ (LENGTH('a) - 1)" using assms by (simp add: le_imp_power_dvd)
  then have "(2::'a word) ^ (LENGTH('a) - 1) mod 2 ^ k = 0"
    using assms by (simp add: word_mod_def uint_2p_small)
  then show ?thesis by (simp add: go_intn_max_def)
qed

lemma uint_smax: "uint (2 ^ (LENGTH('a) - 1) - 1 :: 'a::len word) = 2 ^ (LENGTH('a) - 1) - 1"
  by (simp add: uint_2p_small uint_sub_if' word_2p_pos)

lemma sint_smax: "sint (2 ^ (LENGTH('a) - 1) - 1 :: 'a::len word) = 2 ^ (LENGTH('a) - 1) - 1"
proof -
  have u: "uint (2 ^ (LENGTH('a) - 1) - 1 :: 'a word) = 2 ^ (LENGTH('a) - 1) - 1"
    by (rule uint_smax)
  have "uint (2 ^ (LENGTH('a) - 1) - 1 :: 'a word) < 2 ^ (LENGTH('a) - 1)"
    unfolding u by simp
  then have "sint (2 ^ (LENGTH('a) - 1) - 1 :: 'a word) = uint (2 ^ (LENGTH('a) - 1) - 1 :: 'a word)"
    by (rule sint_eq_uint_half)
  then show ?thesis using u by (rule trans)
qed

lemma sint_max_not_less: "\<not> (2 ^ (LENGTH('a) - 1) - 1 :: 'a::len word) <s w"
  using sint_smax [where 'a = 'a] sint_lt [of w] by (simp add: word_sless_alt)

lemma go_intn_pow2_ref:
  assumes k: "k < LENGTH('a) - 1" and half: "\<forall>i. uint (draw i) < 2 ^ (LENGTH('a) - 1)"
  shows "go_intn name draw ((2::'a::len word) ^ k) i = go_intn_ref name draw (2 ^ k) i"
proof -
  have k': "k < LENGTH('a)" using k by simp
  have u: "uint ((2::'a word) ^ k) = 2 ^ k" using k' by (rule uint_2p_small)
  have "(2::int) ^ k < 2 ^ (LENGTH('a) - 1)" using k by simp
  then have s: "sint ((2::'a word) ^ k) = 2 ^ k" using u by (simp add: sint_eq_uint_half)
  then have pos: "\<not> (2::'a word) ^ k \<le>s 0" by (simp add: word_sle_eq)
  have loop: "reject_loop draw (go_intn_max ((2::'a word) ^ k)) i = Some (draw i, Suc i)"
    using sint_max_not_less [of "draw i"]
    by (subst reject_loop.simps) (simp add: go_intn_max_pow2 [OF k])
  have "0 \<le> sint (draw i)" using half sint_eq_uint_half [of "draw i"] by simp
  then have "go_mod (draw i) (2 ^ k) = draw i AND (2 ^ k - 1)"
    using s go_mod_nonneg [of "draw i" "2 ^ k"]
    by (simp add: word_mod_2p_is_mask word_2p_pos [OF k'] mask_eq_exp_minus_1)
  then show ?thesis
    using pos loop by (simp add: go_intn_def go_intn_ref_def pow2_and_pred [OF k'])
qed

lemma uint_go_intn_max:
  assumes "0 < sint (n :: 'a::len word)"
  shows "uint (go_intn_max n) = 2 ^ (LENGTH('a) - 1) - 1 - 2 ^ (LENGTH('a) - 1) mod uint n"
proof -
  note n = sint_pos_facts [OF assms]
  have "LENGTH('a) - 1 < LENGTH('a)" by simp
  then have m: "uint ((2::'a word) ^ (LENGTH('a) - 1) mod n) = 2 ^ (LENGTH('a) - 1) mod uint n"
    by (simp add: uint_mod uint_2p_small)
  have "0 < uint n" using n by (simp add: uint_0_iff order_le_neq_trans)
  then have "2 ^ (LENGTH('a) - 1) mod uint n < uint n" by simp
  with n have "2 ^ (LENGTH('a) - 1) mod uint n \<le> 2 ^ (LENGTH('a) - 1) - 1" by linarith
  then show ?thesis
    using uint_smax [where 'a = 'a] m by (simp add: go_intn_max_def uint_sub_lem [THEN iffD1])
qed

lemma uint_go_intn_max_lt:
  assumes "0 < sint (n :: 'a::len word)"
  shows "uint (go_intn_max n) < 2 ^ (LENGTH('a) - 1)"
proof -
  have "0 < uint n" using sint_pos_facts [OF assms] by (simp add: uint_0_iff order_le_neq_trans)
  then have "0 \<le> (2::int) ^ (LENGTH('a) - 1) mod uint n" by simp
  then show ?thesis using uint_go_intn_max [OF assms] by linarith
qed

lemma go_intn_single_draw:
  assumes pos: "0 < sint n" and np: "n AND (n - 1) \<noteq> 0"
    and v: "uint (v :: 'a::len word) < 2 ^ (LENGTH('a) - 1)"
  shows "go_intn name (\<lambda>_. v) n i = Some (Inr (k, j)) \<longleftrightarrow>
         uint v \<le> uint (go_intn_max n) \<and> v mod n = k \<and> j = Suc i"
proof -
  have "uint (go_intn_max n) < 2 ^ (LENGTH('a) - 1)" using uint_go_intn_max_lt [OF pos] .
  then have acc: "\<not> go_intn_max n <s v \<longleftrightarrow> uint v \<le> uint (go_intn_max n)"
    using v by (simp add: word_sless_alt sint_eq_uint_half not_less)
  have sv: "0 \<le> sint v" using v by (simp add: sint_eq_uint_half)
  have npos: "\<not> n \<le>s 0" using pos by (simp add: word_sle_eq)
  show ?thesis
  proof (cases "go_intn_max n <s v")
    case False
    then have "reject_loop (\<lambda>_. v) (go_intn_max n) i = Some (v, Suc i)"
      by (subst reject_loop.simps) simp
    then show ?thesis
      using False acc npos np go_mod_nonneg [OF sv pos] by (auto simp: go_intn_def)
  next
    case True
    have "reject_loop (\<lambda>_. v) (go_intn_max n) i = None"
    proof (rule ccontr)
      assume "reject_loop (\<lambda>_. v) (go_intn_max n) i \<noteq> None"
      then obtain y where "reject_loop (\<lambda>_. v) (go_intn_max n) i = Some y" by blast
      from reject_loop_Some [OF this] True show False by auto
    qed
    then show ?thesis using True acc npos np by (simp add: go_intn_def)
  qed
qed

lemma card_residue_class:
  assumes "K < (N::nat)"
  shows "card {x. x < N * q \<and> x mod N = K} = q"
proof -
  have "{x. x < N * q \<and> x mod N = K} = (\<lambda>t. t * N + K) ` {..<q}"
  proof (intro set_eqI iffI)
    fix x assume "x \<in> {x. x < N * q \<and> x mod N = K}"
    then have "x = x div N * N + K" "x div N < q"
      by (auto simp: less_mult_imp_div_less mult.commute)
    then show "x \<in> (\<lambda>t. t * N + K) ` {..<q}" by blast
  next
    fix x assume "x \<in> (\<lambda>t. t * N + K) ` {..<q}"
    then obtain t where t: "t < q" "x = t * N + K" by blast
    then have "t * N + K < (t + 1) * N" using assms by simp
    also have "\<dots> \<le> q * N" using t(1) by (intro mult_le_mono1) simp
    finally show "x \<in> {x. x < N * q \<and> x mod N = K}" using t assms by (simp add: mult.commute)
  qed
  moreover have "inj_on (\<lambda>t. t * N + K) {..<q}" using assms by (auto simp: inj_on_def)
  ultimately show ?thesis by (simp add: card_image)
qed

lemma card_accepted_residue:
  assumes pos: "0 < sint n" and k: "k < n"
  shows "card {v :: 'a::len word. uint v \<le> uint (go_intn_max n) \<and> v mod n = k} =
         2 ^ (LENGTH('a) - 1) div unat n"
proof -
  define P where "P = (2::nat) ^ (LENGTH('a) - 1)"
  define N where "N = unat n"
  have un: "uint n = int N" by (simp only: N_def uint_nat)
  have "n \<noteq> 0" using sint_pos_facts [OF pos] by simp
  then have N0: "0 < N" by (simp add: N_def unat_gt_0)
  have K: "unat k < N" using k by (simp add: N_def word_less_nat_alt)
  have "int P - int P mod int N = int N * (int P div int N)" by (simp add: minus_mod_eq_mult_div)
  also have "\<dots> = int (N * (P div N))" by (simp add: zdiv_int)
  finally have m: "uint (go_intn_max n) = int (N * (P div N)) - 1"
    using uint_go_intn_max [OF pos] un by (simp add: P_def)
  have acc: "uint v \<le> uint (go_intn_max n) \<longleftrightarrow> unat v < N * (P div N)" for v :: "'a word"
  proof -
    have e: "int (unat v) = uint v" by (simp only: uint_nat)
    have "unat v < N * (P div N) \<longleftrightarrow> int (unat v) < int (N * (P div N))"
      by (rule of_nat_less_iff [symmetric])
    with e m show ?thesis by linarith
  qed
  have "N * (P div N) \<le> P" by simp
  also have "P < 2 ^ LENGTH('a)" by (simp add: P_def)
  finally have small: "N * (P div N) < 2 ^ LENGTH('a)" .
  let ?S = "{v :: 'a word. uint v \<le> uint (go_intn_max n) \<and> v mod n = k}"
  have img: "unat ` ?S = {x. x < N * (P div N) \<and> x mod N = unat k}"
  proof (intro set_eqI iffI)
    fix x assume "x \<in> unat ` ?S"
    then show "x \<in> {x. x < N * (P div N) \<and> x mod N = unat k}"
      using acc by (auto simp: N_def unat_mod)
  next
    fix x assume x: "x \<in> {x. x < N * (P div N) \<and> x mod N = unat k}"
    then have ux: "unat (word_of_nat x :: 'a word) = x" using small by (simp add: unat_of_nat)
    then have "(word_of_nat x :: 'a word) mod n = k"
      using x by (simp add: word_unat_eq_iff unat_mod N_def)
    with ux x acc have "word_of_nat x \<in> ?S" by simp
    with ux show "x \<in> unat ` ?S" by (metis image_eqI)
  qed
  have "inj_on unat ?S" by (simp add: inj_on_def word_unat_eq_iff)
  then have "card ?S = card (unat ` ?S)" by (simp add: card_image)
  also have "\<dots> = P div N" unfolding img by (rule card_residue_class [OF K])
  finally show ?thesis by (simp add: P_def N_def)
qed

lemma reject_loop_accept:
  "\<not> m <s draw i \<Longrightarrow> reject_loop draw m i = Some (draw i, Suc i)"
  by (subst reject_loop.simps) simp

lemma int31_source:
  "uint v < 2 ^ 31 \<Longrightarrow> int31 (\<lambda>_. push_bit 32 (ucast v)) i = v"
proof -
  assume "uint v < 2 ^ 31"
  then have "v AND mask 31 = v" by (intro less_mask_eq) (simp add: word_less_def)
  moreover have "int31 (\<lambda>_. push_bit 32 (ucast v)) i = v AND mask 31"
    unfolding int31_alt by (rule bit_word_eqI) (auto simp: bit_simps)
  ultimately show ?thesis by simp
qed

lemma int31_not_above:
  "uint m < 2 ^ 31 \<Longrightarrow> \<not> m <s int31 src k \<longleftrightarrow> int31 src k \<le> m"
  using int31_half [of src k] by (simp add: word_sless_alt sint_eq_uint_half word_le_def not_less)

lemma intn_10:
  "intn src 10 i = map_option (map_sum id (\<lambda>(v, j). (sint v, j))) (int31n src 10 i)"
  by (simp add: intn_def word_sle_eq)

lemma go_intn_max_10: "go_intn_max (10 :: 32 word) = 2147483639"
  by (simp add: go_intn_max_def)

lemma ten_facts: "(0 :: 32 word) <s 10 \<and> (10 :: 32 word) AND (10 - 1) \<noteq> 0 \<and> sint (10 :: 32 word) = 10"
  by (simp add: word_sless_alt)

text \<open>
  \<^verbatim>\<open>rand.Intn(10)\<close> ends exactly when the source eventually yields a 31-bit draw
  of at most 2147483639 (the largest multiple of ten below \<open>2^31\<close>, minus one); on
  a source that from some point on yields only the eight larger draws, it loops forever.
\<close>

lemma intn_10_terminates_iff:
  "(\<exists>y. intn src 10 i = Some (Inr y)) \<longleftrightarrow> (\<exists>k \<ge> i. int31 src k \<le> 2147483639)"
proof -
  have "(\<exists>y. int31n src 10 i = Some (Inr y)) \<longleftrightarrow>
        (\<exists>k \<ge> i. \<not> go_intn_max (10 :: 32 word) <s int31 src k)"
    using go_intn_returns_iff [of 10 "''Int31n''" "int31 src" i] ten_facts by (simp add: int31n_def)
  also have "\<dots> \<longleftrightarrow> (\<exists>k \<ge> i. int31 src k \<le> 2147483639)"
    using int31_not_above [of "go_intn_max (10 :: 32 word)" src] by (simp add: go_intn_max_10)
  finally show ?thesis unfolding intn_10 map_option_sum_eq_Inr by auto
qed

lemma int31n_single_draw:
  assumes "0 <s n" "n AND (n - 1) \<noteq> 0" "uint v < 2 ^ 31"
  shows "int31n (\<lambda>_. push_bit 32 (ucast v)) n i = Some (Inr (k, j)) \<longleftrightarrow>
         uint v \<le> uint (go_intn_max n) \<and> v mod n = k \<and> j = Suc i"
proof -
  have "int31 (\<lambda>_. push_bit 32 (ucast v)) = (\<lambda>_. v)" using assms(3) by (intro ext) (simp add: int31_source)
  then show ?thesis
    using go_intn_single_draw [of n v "''Int31n''" i k j] assms by (simp add: int31n_def word_sless_alt)
qed

text \<open>
  The results of \<^verbatim>\<open>rand.Intn(10)\<close> are exactly the integers \<open>0 \<le> r < 10\<close>,
  the draws that the poll goroutine's step \<open>p_check\<close> admits: every result lies in that
  range, and each of them is returned for some source.
\<close>

lemma intn_10_range_exact:
  "(\<exists>src j. intn src 10 i = Some (Inr (r, j))) \<longleftrightarrow> 0 \<le> r \<and> r < 10"
proof
  assume "\<exists>src j. intn src 10 i = Some (Inr (r, j))"
  then obtain src j v where "int31n src 10 i = Some (Inr (v, j))" "r = sint v"
    unfolding intn_10 map_option_sum_eq_Inr by auto
  moreover have "\<forall>k. uint (int31 src k) < 2 ^ (LENGTH(32) - 1)" using int31_half by simp
  ultimately have "0 \<le> sint v \<and> sint v < sint (10 :: 32 word)"
    using go_intn_range [of "int31 src" "''Int31n''" 10 i v j] by (simp add: int31n_def)
  then show "0 \<le> r \<and> r < 10" using \<open>r = sint v\<close> ten_facts by simp
next
  assume r: "0 \<le> r \<and> r < 10"
  define v :: "32 word" where "v = word_of_int r"
  have uv: "uint v = r" using r by (simp add: v_def uint_word_of_int take_bit_int_eq_self)
  then have "uint v < 2 ^ 31" "uint v \<le> uint (go_intn_max (10 :: 32 word))"
    using r by (simp_all add: go_intn_max_10)
  moreover have "v mod 10 = v" using uv r by (simp add: word_uint_eq_iff uint_mod)
  ultimately have "int31n (\<lambda>_. push_bit 32 (ucast v)) 10 i = Some (Inr (v, Suc i))"
    using int31n_single_draw [of 10 v i v "Suc i"] ten_facts by simp
  moreover have "sint v = r" using uv r by (simp add: sint_eq_uint_half)
  ultimately have "intn (\<lambda>_. push_bit 32 (ucast v)) 10 i = Some (Inr (r, Suc i))"
    by (simp add: intn_10)
  then show "\<exists>src j. intn src 10 i = Some (Inr (r, j))" by blast
qed

text \<open>
  For a power-of-two bound the fast path of \<^verbatim>\<open>Int31n\<close> (a mask of one draw)
  returns what rejection sampling returns, the reference \<open>go_intn_ref\<close>: no draw is
  rejected and the mask equals the remainder.
\<close>

lemma int31n_pow2_fast_path:
  assumes "k < 31"
  shows "int31n src (2 ^ k) i = go_intn_ref ''Int31n'' (int31 src) (2 ^ k) i"
  using go_intn_pow2_ref [of k "int31 src"] assms int31_half by (simp add: int31n_def)

text \<open>
  Rejection sampling makes \<^verbatim>\<open>Int31n\<close> uniform: for a bound \<open>n\<close> that is not a
  power of two, each result \<open>k < n\<close> is returned for exactly \<open>2^31 div n\<close> of the
  \<open>2^31\<close> possible draws (the first draw of the source), and the remaining draws are
  rejected. For \<open>n = 10\<close> each offset of the poll interval has 214748364 draws.
\<close>

lemma int31n_uniform:
  assumes "0 <s n" and "n AND (n - 1) \<noteq> 0" and "k < n"
  shows "card {v :: 32 word. uint v < 2 ^ 31 \<and>
                int31n (\<lambda>_. push_bit 32 (ucast v)) n 0 = Some (Inr (k, 1))} = 2 ^ 31 div unat n"
proof -
  have pos: "0 < sint n" using assms(1) by (simp add: word_sless_alt)
  have "uint (go_intn_max n) < 2 ^ 31" using uint_go_intn_max_lt [OF pos] by simp
  then have "{v :: 32 word. uint v < 2 ^ 31 \<and> int31n (\<lambda>_. push_bit 32 (ucast v)) n 0 = Some (Inr (k, 1))} =
             {v. uint v \<le> uint (go_intn_max n) \<and> v mod n = k}"
    using int31n_single_draw [OF assms(1,2)] by fastforce
  then show ?thesis using card_accepted_residue [OF pos assms(3)] by simp
qed

text \<open>
  C25: the poll interval of line 87 is computed, that is \<^verbatim>\<open>rand.Intn(10)\<close>
  returns, exactly when the source eventually yields a 31-bit draw of at most 2147483639
  (the largest multiple of ten below \<open>2^31\<close>, minus one); on a source that from some
  point on yields only the eight larger draws the call loops forever.
\<close>

theorem next_timeout_terminates_iff:
  "(\<exists>y. next_timeout src i = Some (Inr y)) \<longleftrightarrow> (\<exists>k \<ge> i. int31 src k \<le> 2147483639)"
  unfolding next_timeout_def map_option_sum_eq_Inr using intn_10_terminates_iff [of src i] by auto

text \<open>
  C26: the intervals of line 87 are exactly the integers 25 to 34: every result of
  \<^verbatim>\<open>25 + rand.Intn(10)\<close> lies in that range, each of them is produced by some source,
  and these are the values the poll goroutine's step \<open>p_check\<close> admits.
\<close>

theorem next_timeout_range_exact:
  "(\<exists>src j. next_timeout src i = Some (Inr (t, j))) \<longleftrightarrow> 25 \<le> t \<and> t \<le> 34"
proof -
  have "(\<exists>src j. next_timeout src i = Some (Inr (t, j))) \<longleftrightarrow>
        (\<exists>src j. intn src 10 i = Some (Inr (t - 25, j)))"
  proof
    assume "\<exists>src j. next_timeout src i = Some (Inr (t, j))"
    then obtain src j r j' where "intn src 10 i = Some (Inr (r, j'))" "(t, j) = (25 + r, j')"
      unfolding next_timeout_def map_option_sum_eq_Inr by auto
    then show "\<exists>src j. intn src 10 i = Some (Inr (t - 25, j))" by auto
  next
    assume "\<exists>src j. intn src 10 i = Some (Inr (t - 25, j))"
    then obtain src j where "intn src 10 i = Some (Inr (t - 25, j))" by blast
    then have "next_timeout src i = Some (Inr (t, j))" by (simp add: next_timeout_def)
    then show "\<exists>src j. next_timeout src i = Some (Inr (t, j))" by blast
  qed
  then show ?thesis using intn_10_range_exact [of i "t - 25"] by auto
qed

text \<open>
  C27: the interval is uniform over 25 to 34 in the first draw: each value is produced by
  exactly 214748364 (\<open>2^31 div 10\<close>) of the \<open>2^31\<close> possible 31-bit draws, and the
  remaining eight draws are rejected.
\<close>

theorem next_timeout_uniform:
  assumes "25 \<le> t" and "t \<le> 34"
  shows "card {v :: 32 word. uint v < 2 ^ 31 \<and>
                next_timeout (\<lambda>_. push_bit 32 (ucast v)) 0 = Some (Inr (t, 1))} = 214748364"
proof -
  define k :: "32 word" where "k = word_of_int (t - 25)"
  have uk: "uint k = t - 25" unfolding k_def uint_word_of_int using assms by (simp add: take_bit_int_eq_self)
  then have sk: "sint k = t - 25" using assms by (simp add: sint_eq_uint_half)
  have kl: "k < 10" using uk assms by (simp add: word_less_def)
  have eq: "next_timeout (\<lambda>_. push_bit 32 (ucast v)) 0 = Some (Inr (t, 1)) \<longleftrightarrow>
            int31n (\<lambda>_. push_bit 32 (ucast v)) 10 0 = Some (Inr (k, 1))" if "uint v < 2 ^ 31" for v
  proof
    assume "next_timeout (\<lambda>_. push_bit 32 (ucast v)) 0 = Some (Inr (t, 1))"
    then obtain w where w: "int31n (\<lambda>_. push_bit 32 (ucast v)) 10 0 = Some (Inr (w, 1))" "t = 25 + sint w"
      by (auto simp: next_timeout_def intn_10 map_sum_eq_Inr split_beta)
    then have "sint w = sint k" using sk by simp
    then have "w = k" by (rule signed_word_eqI)
    then show "int31n (\<lambda>_. push_bit 32 (ucast v)) 10 0 = Some (Inr (k, 1))" using w(1) by simp
  next
    assume "int31n (\<lambda>_. push_bit 32 (ucast v)) 10 0 = Some (Inr (k, 1))"
    then show "next_timeout (\<lambda>_. push_bit 32 (ucast v)) 0 = Some (Inr (t, 1))"
      using sk by (simp add: next_timeout_def intn_10)
  qed
  have "{v :: 32 word. uint v < 2 ^ 31 \<and> next_timeout (\<lambda>_. push_bit 32 (ucast v)) 0 = Some (Inr (t, 1))} =
        {v :: 32 word. uint v < 2 ^ 31 \<and> int31n (\<lambda>_. push_bit 32 (ucast v)) 10 0 = Some (Inr (k, 1))}"
    using eq by blast
  then show ?thesis using int31n_uniform [of 10 k] ten_facts kl by (simp add: word_sless_alt)
qed

theorem next_timeout_uniform_witness:
  "card {v :: 32 word. uint v < 2 ^ 31 \<and>
         next_timeout (\<lambda>_. push_bit 32 (ucast v)) 0 = Some (Inr (30, 1))} = 214748364"
  using next_timeout_uniform [of 30] by simp

end
