(* ===== verification/Rand_Source.thy ===== *)
theory Rand_Source
  imports Rand
begin

text \<open>
  The generator behind \<^verbatim>\<open>rand.Intn\<close>: math/rand's \<^verbatim>\<open>rngSource\<close> (rng.go), an
  additive lagged Fibonacci generator \<open>x(n) = x(n - 607) + x(n - 273)\<close> on 64-bit words,
  kept in a ring buffer \<^verbatim>\<open>vec\<close> of 607 words with the indices \<^verbatim>\<open>tap\<close> and
  \<^verbatim>\<open>feed\<close>, and seeded by the Park--Miller generator \<open>x \<mapsto> 48271 x mod (2^31 - 1)\<close>
  computed in 32 bits by Schrage's method (\<^verbatim>\<open>seedrand\<close>). The 607 constants of
  \<^verbatim>\<open>rngCooked\<close> are data, the parameter \<open>cooked\<close>. The program's calls go to the global
  source, which Go releases before 1.20 seed with 1 (\<^verbatim>\<open>NewSource(1)\<close>).
\<close>

unbundle bit_operations_syntax

record rng_state =
  tap :: int
  feed :: int
  vec :: "64 word list"

text \<open>Go's \<^verbatim>\<open>/\<close> on signed integers: truncation towards zero, wrapping on overflow.\<close>

definition go_div :: "'a::len word \<Rightarrow> 'a word \<Rightarrow> 'a word" where
  "go_div a b = word_of_int (sint a sdiv sint b)"

definition seedrand :: "32 word \<Rightarrow> 32 word" where
  "seedrand x =
     (let hi = go_div x 44488; lo = go_mod x 44488; x' = 48271 * lo - 3399 * hi
      in if x' <s 0 then x' + 2147483647 else x')"

text \<open>The loop \<^verbatim>\<open>for i := -20; i < rngLen; i++\<close> of \<^verbatim>\<open>(*rngSource).Seed\<close>.\<close>

function seed_loop :: "64 word list \<Rightarrow> int \<Rightarrow> 32 word \<Rightarrow> 64 word list \<Rightarrow> 64 word list" where
  "seed_loop cooked i x v =
     (if i < 607 then
        (let x1 = seedrand x in
         if 0 \<le> i then
           (let u0 = push_bit 40 (scast x1 :: 64 word); x2 = seedrand x1;
                u1 = u0 XOR push_bit 20 (scast x2); x3 = seedrand x2;
                u2 = u1 XOR scast x3; u3 = u2 XOR cooked ! nat i
            in seed_loop cooked (i + 1) x3 (v[nat i := u3]))
         else seed_loop cooked (i + 1) x1 v)
      else v)"
  by pat_completeness auto
termination by (relation "measure (\<lambda>(_, i, _, _). nat (607 - i))") auto

declare seed_loop.simps [simp del]

definition rng_seed :: "64 word list \<Rightarrow> 64 word \<Rightarrow> rng_state" where
  "rng_seed cooked seed =
     (let s1 = go_mod seed 2147483647;
          s2 = (if s1 <s 0 then s1 + 2147483647 else s1);
          s3 = (if s2 = 0 then 89482311 else s2)
      in \<lparr>tap = 0, feed = 607 - 273, vec = seed_loop cooked (-20) (ucast s3) (replicate 607 0)\<rparr>)"

definition rng_uint64 :: "rng_state \<Rightarrow> 64 word \<times> rng_state" where
  "rng_uint64 st =
     (let t = tap st - 1; t' = (if t < 0 then t + 607 else t);
          f = feed st - 1; f' = (if f < 0 then f + 607 else f);
          x = vec st ! nat f' + vec st ! nat t'
      in (x, st\<lparr>tap := t', feed := f', vec := (vec st)[nat f' := x]\<rparr>))"

fun rng_states :: "rng_state \<Rightarrow> nat \<Rightarrow> rng_state" where
  "rng_states st 0 = st"
| "rng_states st (Suc n) = snd (rng_uint64 (rng_states st n))"

definition rng_stream :: "rng_state \<Rightarrow> rng_source" where
  "rng_stream st n = fst (rng_uint64 (rng_states st n))"

definition global_source :: "64 word list \<Rightarrow> rng_state" where
  "global_source cooked = rng_seed cooked 1"

text \<open>The reference the generator is measured against.\<close>

definition park_miller :: "int \<Rightarrow> int" where
  "park_miller x = 48271 * x mod 2147483647"

definition rng_inv :: "rng_state \<Rightarrow> bool" where
  "rng_inv st \<longleftrightarrow> 0 \<le> tap st \<and> tap st < 607 \<and> 0 \<le> feed st \<and> feed st < 607 \<and>
                  (feed st - tap st) mod 607 = 334 \<and> length (vec st) = 607"

text \<open>One word of the buffer as \<^verbatim>\<open>Seed\<close> computes it from the current Park--Miller state.\<close>

definition seed_entry :: "64 word list \<Rightarrow> nat \<Rightarrow> 32 word \<Rightarrow> 64 word" where
  "seed_entry cooked j y =
     (let a = seedrand y; b = seedrand a; c = seedrand b
      in ((push_bit 40 (scast a) XOR push_bit 20 (scast b)) XOR scast c) XOR cooked ! j)"

text \<open>
  The reference the seeding is measured against: the same buffer computed with the
  Park--Miller generator in unbounded integers, word \<open>j\<close> built from its iterates
  \<open>21 + 3 j\<close> to \<open>23 + 3 j\<close> after the normalised seed.
\<close>

definition seed_start :: "int \<Rightarrow> int" where
  "seed_start s = (let r = s mod 2147483647 in if r = 0 then 89482311 else r)"

definition seed_vec_ref :: "64 word list \<Rightarrow> int \<Rightarrow> 64 word list" where
  "seed_vec_ref cooked s =
     map (\<lambda>j. let a = (park_miller ^^ (21 + 3 * j)) (seed_start s); b = park_miller a; c = park_miller b
              in ((push_bit 40 (word_of_int a) XOR push_bit 20 (word_of_int b)) XOR word_of_int c) XOR cooked ! j)
       [0..<607]"

text \<open>
  The lagged Fibonacci generator as a sliding window of its last 607 outputs, oldest
  first, and the window the ring buffer holds: the oldest output sits just below
  \<^verbatim>\<open>feed\<close>.
\<close>

definition lf_step :: "64 word list \<Rightarrow> 64 word \<times> 64 word list" where
  "lf_step q = (let x = q ! 0 + q ! 334 in (x, tl q @ [x]))"

fun lf_queues :: "64 word list \<Rightarrow> nat \<Rightarrow> 64 word list" where
  "lf_queues q 0 = q"
| "lf_queues q (Suc n) = snd (lf_step (lf_queues q n))"

definition lf_stream :: "64 word list \<Rightarrow> rng_source" where
  "lf_stream q n = fst (lf_step (lf_queues q n))"

definition lf_queue :: "rng_state \<Rightarrow> 64 word list" where
  "lf_queue st = map (\<lambda>i. vec st ! nat ((feed st - 1 - int i) mod 607)) [0..<607]"

text \<open>
  Line 87 as the program runs it: \<^verbatim>\<open>rand.Intn(10)\<close> draws from the global source.
\<close>

definition program_timeout :: "64 word list \<Rightarrow> nat \<Rightarrow> (string + int \<times> nat) option" where
  "program_timeout cooked i = next_timeout (rng_stream (global_source cooked)) i"

lemma sint_word_of_int_small:
  "- (2 ^ (LENGTH('a) - 1)) \<le> k \<Longrightarrow> k < 2 ^ (LENGTH('a) - 1) \<Longrightarrow> sint (word_of_int k :: 'a::len word) = k"
  by (simp add: sint_sbintrunc' signed_take_bit_int_eq_self)

lemma sdiv_smod_nonneg:
  "0 \<le> k \<Longrightarrow> 0 < l \<Longrightarrow> k sdiv l = k div l \<and> k smod l = k mod l" for k l :: int
  by (cases "k = 0") (simp_all add: signed_divide_int_eq_divide_int signed_modulo_int_eq_modulo_int sgn_if)

lemma seedrand_schrage:
  assumes x0: "0 \<le> sint x" and x1: "sint x < 2147483647"
  shows "sint (seedrand x) = park_miller (sint x)"
proof -
  define X where "X = sint x"
  define H where "H = X div 44488"
  define L where "L = X mod 44488"
  have XHL: "X = 44488 * H + L" by (simp add: H_def L_def)
  have "X div 44488 \<le> 2147483646 div 44488" using x1 by (intro zdiv_mono1) (simp_all add: X_def)
  then have H: "0 \<le> H" "H \<le> 48271" using x0 by (simp_all add: H_def X_def)
  have L: "0 \<le> L" "L < 44488" by (simp_all add: L_def)
  have hi: "sint (go_div x 44488) = H"
    using sdiv_smod_nonneg [of X 44488] x0 H by (simp add: go_div_def X_def H_def sint_word_of_int_small)
  have lo: "sint (go_mod x 44488) = L"
    using sdiv_smod_nonneg [of X 44488] x0 L by (simp add: go_mod_def X_def L_def sint_word_of_int_small)
  have a: "sint (48271 * go_mod x 44488) = 48271 * L"
    using L by (simp add: sint_word_mult lo signed_take_bit_int_eq_self)
  have b: "sint (3399 * go_div x 44488) = 3399 * H"
    using H by (simp add: sint_word_mult hi signed_take_bit_int_eq_self)
  define D where "D = 48271 * L - 3399 * H"
  have D: "- 2147483647 < D" "D < 2147483647" using H L by (simp_all add: D_def)
  have d: "sint (48271 * go_mod x 44488 - 3399 * go_div x 44488) = D"
    using a b D by (simp add: sint_word_diff D_def signed_take_bit_int_eq_self)
  have pm: "park_miller X = D mod 2147483647"
  proof -
    have "48271 * X = 2147483647 * H + D" by (simp add: XHL D_def algebra_simps)
    then show ?thesis by (simp add: park_miller_def)
  qed
  show ?thesis
  proof (cases "D < 0")
    case True
    have "sint (48271 * go_mod x 44488 - 3399 * go_div x 44488 + 2147483647) = D + 2147483647"
      using d D True by (simp add: sint_word_add signed_take_bit_int_eq_self)
    moreover have "D mod 2147483647 = D + 2147483647"
      using mod_pos_pos_trivial [of "D + 2147483647" 2147483647] True D by simp
    ultimately show ?thesis using True d pm by (simp add: seedrand_def word_sless_alt X_def Let_def)
  next
    case False
    then show ?thesis using d D pm by (simp add: seedrand_def word_sless_alt X_def Let_def)
  qed
qed

lemma park_miller_range:
  assumes "0 < X" and "X < 2147483647"
  shows "0 < park_miller X \<and> park_miller X < 2147483647"
proof -
  have cop: "coprime (2147483647 :: int) 48271" by code_simp
  have "\<not> (2147483647 :: int) dvd X" using assms by (auto dest: zdvd_imp_le)
  then have "\<not> (2147483647 :: int) dvd 48271 * X" using cop by (simp add: coprime_dvd_mult_right_iff)
  then have "48271 * X mod 2147483647 \<noteq> 0" by (simp add: dvd_eq_mod_eq_0)
  moreover have "0 \<le> 48271 * X mod 2147483647" "48271 * X mod 2147483647 < 2147483647" by simp_all
  ultimately show ?thesis by (simp add: park_miller_def)
qed

lemma seedrand_range:
  "0 < sint x \<Longrightarrow> sint x < 2147483647 \<Longrightarrow> 0 < sint (seedrand x) \<and> sint (seedrand x) < 2147483647"
  using seedrand_schrage [of x] park_miller_range [of "sint x"] by simp

lemma seedrand_funpow:
  assumes "0 < sint x" and "sint x < 2147483647"
  shows "sint ((seedrand ^^ k) x) = (park_miller ^^ k) (sint x) \<and>
         0 < sint ((seedrand ^^ k) x) \<and> sint ((seedrand ^^ k) x) < 2147483647"
proof (induction k)
  case (Suc k)
  then show ?case using seedrand_schrage [of "(seedrand ^^ k) x"] seedrand_range [of "(seedrand ^^ k) x"] by simp
qed (simp add: assms)

lemma seed_loop_unfold:
  "i < 607 \<Longrightarrow> seed_loop cooked i x v =
     (if 0 \<le> i then seed_loop cooked (i + 1) ((seedrand ^^ 3) x) (v[nat i := seed_entry cooked (nat i) x])
      else seed_loop cooked (i + 1) (seedrand x) v)"
  by (subst seed_loop.simps) (simp add: seed_entry_def Let_def numeral_3_eq_3)

lemma seed_loop_warmup:
  "seed_loop cooked (- int n) x v = seed_loop cooked 0 ((seedrand ^^ n) x) v"
proof (induction n arbitrary: x)
  case (Suc n)
  have "seed_loop cooked (- int (Suc n)) x v = seed_loop cooked (- int n) (seedrand x) v"
    by (subst seed_loop_unfold) auto
  then show ?case using Suc [of "seedrand x"] by (simp add: funpow_swap1)
qed simp

lemma seed_loop_fill:
  assumes "k \<le> 607" and "length v = 607"
  shows "seed_loop cooked (607 - int k) x v =
         map (\<lambda>j. if j < 607 - k then v ! j else seed_entry cooked j ((seedrand ^^ (3 * (j - (607 - k)))) x)) [0..<607]"
  using assms
proof (induction k arbitrary: x v)
  case 0
  then show ?case by (subst seed_loop.simps) (auto intro: nth_equalityI)
next
  case (Suc k)
  let ?i = "606 - k"
  have i: "607 - int (Suc k) = int ?i" "int ?i + 1 = 607 - int k" using Suc.prems by simp_all
  have step: "seed_loop cooked (607 - int (Suc k)) x v =
              seed_loop cooked (607 - int k) ((seedrand ^^ 3) x) (v[?i := seed_entry cooked ?i x])"
  proof -
    have "nat (606 - int k) = 606 - k" using Suc.prems by simp
    then show ?thesis using seed_loop_unfold [of "int ?i" cooked x v] i by simp
  qed
  have ih: "seed_loop cooked (607 - int k) ((seedrand ^^ 3) x) (v[?i := seed_entry cooked ?i x]) =
            map (\<lambda>j. if j < 607 - k then v[?i := seed_entry cooked ?i x] ! j
                     else seed_entry cooked j ((seedrand ^^ (3 * (j - (607 - k)))) ((seedrand ^^ 3) x))) [0..<607]"
    using Suc by simp
  have pt: "(if j < 607 - k then v[?i := seed_entry cooked ?i x] ! j
             else seed_entry cooked j ((seedrand ^^ (3 * (j - (607 - k)))) ((seedrand ^^ 3) x))) =
            (if j < 607 - Suc k then v ! j else seed_entry cooked j ((seedrand ^^ (3 * (j - (607 - Suc k)))) x))"
    if "j < 607" for j
  proof -
    have "(seedrand ^^ (3 * (j - (607 - k)))) ((seedrand ^^ 3) x) = (seedrand ^^ (3 * (j - (607 - k)) + 3)) x"
      by (simp add: funpow_add)
    moreover have "j \<ge> 607 - k \<Longrightarrow> 3 * (j - (607 - k)) + 3 = 3 * (j - (607 - Suc k))" using Suc.prems by simp
    ultimately show ?thesis using Suc.prems that by (auto simp: nth_list_update)
  qed
  show ?case using step ih pt by simp
qed

lemma seed_normalise:
  fixes seed :: "64 word"
  defines "s1 \<equiv> go_mod seed 2147483647"
  defines "s2 \<equiv> (if s1 <s 0 then s1 + 2147483647 else s1)"
  defines "s3 \<equiv> (if s2 = 0 then 89482311 else s2)"
  shows "\<exists>x0. rng_seed cooked seed = \<lparr>tap = 0, feed = 334, vec = seed_loop cooked (-20) x0 (replicate 607 0)\<rparr> \<and>
              sint x0 = seed_start (sint seed) \<and> 0 < sint x0 \<and> sint x0 < 2147483647"
proof -
  have st: "rng_seed cooked seed = \<lparr>tap = 0, feed = 334, vec = seed_loop cooked (-20) (ucast s3) (replicate 607 0)\<rparr>"
    unfolding rng_seed_def s1_def s2_def s3_def Let_def by simp
  define K where "K = sint seed"
  define M where "M = K mod 2147483647"
  have M: "0 \<le> M" "M < 2147483647" by (simp_all add: M_def)
  have sm: "K smod 2147483647 = M \<or> K smod 2147483647 = M - 2147483647"
    by (simp add: signed_modulo_int_eq_modulo_int M_def) blast
  then have b: "- 2147483647 \<le> K smod 2147483647 \<and> K smod 2147483647 < 2147483647" using M by auto
  have p: "sint (2147483647 :: 64 word) = 2147483647" by simp
  have s1: "sint s1 = K smod 2147483647"
    unfolding s1_def go_mod_def p K_def [symmetric] using b by (intro sint_word_of_int_small) simp_all
  have s2: "sint s2 = M"
  proof (cases "s1 <s 0")
    case True
    then have "K smod 2147483647 = M - 2147483647" using sm s1 M by (auto simp: word_sless_alt)
    then show ?thesis using True s1 M by (simp add: s2_def sint_word_add signed_take_bit_int_eq_self)
  next
    case False
    then have "K smod 2147483647 = M" using sm s1 M by (auto simp: word_sless_alt)
    then show ?thesis using False s1 by (simp add: s2_def)
  qed
  have s3: "sint s3 = seed_start K"
  proof (cases "M = 0")
    case True
    then have "s2 = 0" using s2 by (metis sint_0 signed_word_eqI)
    then show ?thesis using True by (simp add: s3_def seed_start_def M_def)
  next
    case False
    then have "s2 \<noteq> 0" using s2 by auto
    then show ?thesis using False s2 by (simp add: s3_def seed_start_def M_def)
  qed
  have range: "0 < seed_start K \<and> seed_start K < 2147483647"
    using M by (auto simp: seed_start_def M_def Let_def)
  have "uint s3 = seed_start K" using s3 range sint_nonneg_eq_uint [of s3] by simp
  then have "uint (ucast s3 :: 32 word) = seed_start K"
    using range by (simp add: unsigned_ucast_eq take_bit_int_eq_self)
  then have "sint (ucast s3 :: 32 word) = seed_start K" using range by (simp add: sint_eq_uint_half)
  then show ?thesis using range st unfolding K_def by (intro exI [of _ "ucast s3"]) simp
qed

lemma seed_entry_ref:
  assumes "0 < sint x" and "sint x < 2147483647"
  shows "seed_entry cooked j ((seedrand ^^ m) x) =
         (let a = (park_miller ^^ Suc m) (sint x); b = park_miller a; c = park_miller b
          in ((push_bit 40 (word_of_int a) XOR push_bit 20 (word_of_int b)) XOR word_of_int c) XOR cooked ! j)"
proof -
  have f: "sint ((seedrand ^^ n) x) = (park_miller ^^ n) (sint x)" for n
    using seedrand_funpow [OF assms, of n] by simp
  have a: "(scast (seedrand ((seedrand ^^ m) x)) :: 64 word) = word_of_int ((park_miller ^^ Suc m) (sint x))"
    using f [of "Suc m"] by (simp only: scast_eq funpow.simps comp_apply)
  have b: "(scast (seedrand (seedrand ((seedrand ^^ m) x))) :: 64 word) =
           word_of_int (park_miller ((park_miller ^^ Suc m) (sint x)))"
    using f [of "Suc (Suc m)"] by (simp only: scast_eq funpow.simps comp_apply)
  have c: "(scast (seedrand (seedrand (seedrand ((seedrand ^^ m) x)))) :: 64 word) =
           word_of_int (park_miller (park_miller ((park_miller ^^ Suc m) (sint x))))"
    using f [of "Suc (Suc (Suc m))"] by (simp only: scast_eq funpow.simps comp_apply)
  show ?thesis by (simp only: seed_entry_def Let_def a b c)
qed

lemma rng_seed_ref:
  "rng_seed cooked seed = \<lparr>tap = 0, feed = 334, vec = seed_vec_ref cooked (sint seed)\<rparr>"
proof -
  obtain x0 where st: "rng_seed cooked seed = \<lparr>tap = 0, feed = 334, vec = seed_loop cooked (-20) x0 (replicate 607 0)\<rparr>"
    and x0: "sint x0 = seed_start (sint seed)" "0 < sint x0" "sint x0 < 2147483647"
    using seed_normalise [where seed = seed and cooked = cooked] by blast
  have "seed_loop cooked (-20) x0 (replicate 607 0) = seed_loop cooked 0 ((seedrand ^^ 20) x0) (replicate 607 0)"
    using seed_loop_warmup [of cooked 20 x0 "replicate 607 0"] by (simp only: of_nat_numeral)
  also have "\<dots> = map (\<lambda>j. seed_entry cooked j ((seedrand ^^ (3 * j)) ((seedrand ^^ 20) x0))) [0..<607]"
    using seed_loop_fill [of 607 "replicate 607 0" cooked "(seedrand ^^ 20) x0"]
    by (simp only: length_replicate of_nat_numeral diff_self_eq_0 diff_self not_less0 if_False diff_zero order_refl simp_thms)
  also have "\<dots> = seed_vec_ref cooked (sint seed)"
  proof -
    have e: "seed_entry cooked j ((seedrand ^^ (3 * j)) ((seedrand ^^ 20) x0)) =
             (let a = (park_miller ^^ (21 + 3 * j)) (seed_start (sint seed)); b = park_miller a; c = park_miller b
              in ((push_bit 40 (word_of_int a) XOR push_bit 20 (word_of_int b)) XOR word_of_int c) XOR cooked ! j)"
      for j
    proof -
      have "(seedrand ^^ (3 * j)) ((seedrand ^^ 20) x0) = (seedrand ^^ (20 + 3 * j)) x0"
        by (simp only: funpow_add comp_apply add.commute)
      moreover have "Suc (20 + 3 * j) = 21 + 3 * j" by simp
      ultimately show ?thesis using seed_entry_ref [OF x0(2,3), of cooked j "20 + 3 * j"] x0(1) by (simp only:)
    qed
    show ?thesis by (simp only: seed_vec_ref_def e)
  qed
  finally show ?thesis using st by (simp only:)
qed

lemma mod607: "- 607 \<le> d \<Longrightarrow> d < 607 \<Longrightarrow> d mod 607 = (if d < 0 then d + 607 else d)" for d :: int
proof (cases "d < 0")
  case True
  assume "- 607 \<le> d"
  then have "(d + 607) mod 607 = d + 607" using True by (intro mod_pos_pos_trivial) simp_all
  then show ?thesis using True by simp
qed simp

lemma rng_uint64_indices:
  assumes "rng_inv st"
  shows "tap (snd (rng_uint64 st)) = (feed st - 335) mod 607 \<and>
         feed (snd (rng_uint64 st)) = (feed st - 1) mod 607 \<and>
         fst (rng_uint64 st) = vec st ! nat ((feed st - 1) mod 607) + vec st ! nat ((feed st - 335) mod 607) \<and>
         vec (snd (rng_uint64 st)) = (vec st)[nat ((feed st - 1) mod 607) := fst (rng_uint64 st)]"
proof -
  have i: "0 \<le> tap st" "tap st < 607" "0 \<le> feed st" "feed st < 607" "(feed st - tap st) mod 607 = 334"
    using assms by (simp_all add: rng_inv_def)
  have "feed st - tap st = 334 \<or> feed st - tap st = -273"
    using i mod607 [of "feed st - tap st"] by (auto split: if_splits)
  then have t: "(if tap st - 1 < 0 then tap st - 1 + 607 else tap st - 1) = (feed st - 335) mod 607"
    using i by (auto simp: mod607)
  have f: "(if feed st - 1 < 0 then feed st - 1 + 607 else feed st - 1) = (feed st - 1) mod 607"
    using i by (simp add: mod607)
  show ?thesis unfolding rng_uint64_def Let_def t f by simp
qed

lemma rng_uint64_inv: "rng_inv st \<Longrightarrow> rng_inv (snd (rng_uint64 st))"
proof -
  assume a: "rng_inv st"
  then have "0 \<le> feed st" "feed st < 607" "length (vec st) = 607" by (simp_all add: rng_inv_def)
  moreover have "((feed st - 1) mod 607 - (feed st - 335) mod 607) mod 607 = 334"
    using \<open>0 \<le> feed st\<close> \<open>feed st < 607\<close> by (simp add: mod607)
  ultimately show ?thesis using rng_uint64_indices [OF a] by (simp add: rng_inv_def)
qed

lemma rng_uint64_refines:
  assumes "rng_inv st"
  shows "map_prod id lf_queue (rng_uint64 st) = lf_step (lf_queue st)"
proof -
  define F where "F = feed st"
  have F: "0 \<le> F" "F < 607" and len: "length (vec st) = 607" using assms by (simp_all add: rng_inv_def F_def)
  note ix = rng_uint64_indices [OF assms, folded F_def]
  define x where "x = fst (rng_uint64 st)"
  have q0: "lf_queue st ! 0 = vec st ! nat ((F - 1) mod 607)" by (simp add: lf_queue_def F_def)
  have q334: "lf_queue st ! 334 = vec st ! nat ((F - 335) mod 607)" by (simp add: lf_queue_def F_def)
  have x: "x = lf_queue st ! 0 + lf_queue st ! 334" using ix q0 q334 by (simp add: x_def)
  have win: "lf_queue (snd (rng_uint64 st)) = tl (lf_queue st) @ [x]"
  proof (rule nth_equalityI)
    show "length (lf_queue (snd (rng_uint64 st))) = length (tl (lf_queue st) @ [x])" by (simp add: lf_queue_def)
  next
    fix i assume "i < length (lf_queue (snd (rng_uint64 st)))"
    then have i: "i < 607" by (simp add: lf_queue_def)
    have n: "nat (((F - 1) mod 607 - 1 - int i) mod 607) < 607" by (simp add: nat_less_iff)
    show "lf_queue (snd (rng_uint64 st)) ! i = (tl (lf_queue st) @ [x]) ! i"
    proof (cases "i < 606")
      case True
      have ne: "((F - 1) mod 607 - 1 - int i) mod 607 \<noteq> (F - 1) mod 607"
        and eq: "((F - 1) mod 607 - 1 - int i) mod 607 = (F - 1 - int (Suc i)) mod 607"
        using True F by (cases "F = 0"; simp add: mod607)+
      have "nat (((F - 1) mod 607 - 1 - int i) mod 607) \<noteq> nat ((F - 1) mod 607)" using ne by simp
      then show ?thesis using ix i True eq len n
        by (simp add: lf_queue_def nth_append nth_tl x_def F_def)
    next
      case False
      then have "i = 606" using i by simp
      moreover have "((F - 1) mod 607 - 1 - 606) mod 607 = (F - 1) mod 607"
        using F by (cases "F = 0") (simp_all add: mod607)
      ultimately show ?thesis using ix len by (simp add: lf_queue_def nth_append x_def)
    qed
  qed
  show ?thesis using x win by (simp add: lf_step_def x_def Let_def prod_eq_iff)
qed

lemma rng_states_queue:
  "rng_inv st \<Longrightarrow> rng_inv (rng_states st n) \<and> lf_queue (rng_states st n) = lf_queues (lf_queue st) n"
proof (induction n)
  case (Suc n)
  then show ?case
    using rng_uint64_inv [of "rng_states st n"] rng_uint64_refines [of "rng_states st n"]
    by (simp add: prod_eq_iff)
qed simp

lemma rng_stream_lf: "rng_inv st \<Longrightarrow> rng_stream st = lf_stream (lf_queue st)"
proof
  fix n assume a: "rng_inv st"
  have "fst (rng_uint64 (rng_states st n)) = fst (lf_step (lf_queue (rng_states st n)))"
    using rng_uint64_refines [of "rng_states st n"] rng_states_queue [OF a, of n] by (simp add: prod_eq_iff)
  then show "rng_stream st n = lf_stream (lf_queue st) n"
    using rng_states_queue [OF a, of n] by (simp add: rng_stream_def lf_stream_def)
qed

lemma rng_seed_inv: "rng_inv (rng_seed cooked seed)"
  by (simp add: rng_seed_ref rng_inv_def seed_vec_ref_def)

lemma lf_queues_length: "length q = 607 \<Longrightarrow> length (lf_queues q n) = 607"
  by (induction n) (simp_all add: lf_step_def Let_def)

lemma lf_window:
  assumes q: "length q = 607" and k: "k \<le> 607"
  shows "j < 607 \<Longrightarrow> lf_queues q (n + k) ! j =
           (if j + k < 607 then lf_queues q n ! (j + k) else lf_stream q (n + j + k - 607))"
  using k
proof (induction k arbitrary: j)
  case (Suc k)
  have len: "length (lf_queues q (n + k)) = 607" using lf_queues_length [OF q] .
  have w: "lf_queues q (n + Suc k) = tl (lf_queues q (n + k)) @ [lf_stream q (n + k)]"
    by (simp add: lf_stream_def lf_step_def Let_def)
  show ?case
  proof (cases "j < 606")
    case True
    then show ?thesis using Suc.IH [of "Suc j"] Suc.prems len w by (simp add: nth_append nth_tl)
  next
    case False
    then have "j = 606" using Suc.prems by simp
    then show ?thesis using len w by (simp add: nth_append)
  qed
qed simp

text \<open>
  The outputs of the generator obey the additive lagged Fibonacci recurrence with lags 607
  and 273, in 64-bit arithmetic: \<open>x(n + 607) = x(n) + x(n + 334)\<close>.
\<close>

lemma lf_stream_recurrence:
  assumes "length q = 607"
  shows "lf_stream q (n + 607) = lf_stream q n + lf_stream q (n + 334)"
  using lf_window [OF assms order_refl, of 0 n] lf_window [OF assms order_refl, of 334 n]
  by (simp add: lf_stream_def lf_step_def Let_def add.commute)

lemma rng_stream_recurrence:
  "rng_inv st \<Longrightarrow> rng_stream st (n + 607) = rng_stream st n + rng_stream st (n + 334)"
  using lf_stream_recurrence [of "lf_queue st" n] by (simp add: rng_stream_lf lf_queue_def)

text \<open>
  C33: the seeding of the global source computes the Park--Miller reference: with
  Schrage's 32-bit method and Go's normalisation of the seed 1, line 87 draws exactly what
  it draws from the buffer the reference seeding \<open>seed_vec_ref\<close> (unbounded integers,
  exact \<open>mod (2^31 - 1)\<close>) fills.
\<close>

theorem program_timeout_seed_equiv:
  "program_timeout cooked i =
   next_timeout (rng_stream \<lparr>tap = 0, feed = 334, vec = seed_vec_ref cooked 1\<rparr>) i"
  by (simp add: program_timeout_def global_source_def rng_seed_ref)

text \<open>
  C34: the ring buffer implements the lagged Fibonacci generator: on every state of the
  source that satisfies the invariant (the one \<^verbatim>\<open>Seed\<close> builds and every
  \<^verbatim>\<open>Uint64\<close> keeps), line 87 draws exactly what it draws from the abstract generator
  whose window the buffer holds, oldest output just below \<^verbatim>\<open>feed\<close>.
\<close>

theorem next_timeout_lagged_fibonacci:
  "rng_inv st \<Longrightarrow> next_timeout (rng_stream st) i = next_timeout (lf_stream (lf_queue st)) i"
  by (simp add: rng_stream_lf)

theorem next_timeout_lagged_fibonacci_witness:
  "next_timeout (rng_stream (global_source (replicate 607 0))) 0 =
   next_timeout (lf_stream (lf_queue (global_source (replicate 607 0)))) 0"
proof -
  have h: "rng_inv (global_source (replicate 607 0))" by (simp add: global_source_def rng_seed_inv)
  show ?thesis using next_timeout_lagged_fibonacci [OF h] .
qed

end
