(* ===== verification/Json_Syntax.thy ===== *)
theory Json_Syntax
  imports Json_Value "HOL-Library.Code_Target_Nat"
begin

text \<open>
  The JSON syntax behind \<^verbatim>\<open>json.Unmarshal\<close> (src/cmd/main.go, line 108), which the
  rest of the development takes as the parameter \<open>decoder\<close>: a parser of the byte
  string into the decoded document \<open>json\<close>, and a printer. The parser follows RFC 8259
  as \<^verbatim>\<open>encoding/json\<close> accepts it, and reports the first offending byte with the
  message of Go's scanner (\<^verbatim>\<open>invalid character 'x' looking for beginning of value\<close>,
  \<^verbatim>\<open>unexpected end of JSON input\<close>, ...), quoting the byte as
  \<^verbatim>\<open>strconv.Quote\<close> does. Numbers keep their literal text. Strings are decoded as
  \<^verbatim>\<open>unquote\<close> does: escapes, \<^verbatim>\<open>\\u\<close> escapes to UTF-8, a surrogate pair of escapes to
  one code point, a lone surrogate to U+FFFD, well-formed UTF-8 sequences copied
  (\<open>utf8_len\<close> follows \<^verbatim>\<open>utf8.DecodeRune\<close>'s table of lead bytes and accepted ranges)
  and every other byte replaced by U+FFFD. The three mutually recursive parsers carry
  fuel; \<open>json_fuel\<close> (twice the input length plus two) always suffices. Not modelled:
  the nesting limit of newer Go releases, and the conversion of number literals to
  \<^verbatim>\<open>float64\<close>, which shows only in console text that is not modelled.
\<close>

definition json_space :: "char \<Rightarrow> bool" where
  "json_space c \<longleftrightarrow> c \<in> set [CHR '' '', CHR 0x09, CHR 0x0A, CHR 0x0D]"

definition skip_ws :: "char list \<Rightarrow> char list" where
  "skip_ws s = dropWhile json_space s"

definition is_digit :: "char \<Rightarrow> bool" where
  "is_digit c \<longleftrightarrow> c \<in> set ''0123456789''"

definition hex_digit :: "nat \<Rightarrow> char" where
  "hex_digit d = ''0123456789abcdef'' ! d"

definition hex_val :: "char \<Rightarrow> nat option" where
  "hex_val c =
     (if is_digit c then Some (of_char c - 48)
      else if c \<in> set ''abcdef'' then Some (of_char c - 87)
      else if c \<in> set ''ABCDEF'' then Some (of_char c - 55) else None)"

text \<open>
  \<^verbatim>\<open>utf8.EncodeRune\<close>: one to four bytes; a surrogate or a value above U+10FFFF is
  written as the replacement character U+FFFD.
\<close>

definition utf8_encode :: "nat \<Rightarrow> char list" where
  "utf8_encode code =
     (if code < 0x80 then [char_of code]
      else if code < 0x800 then [char_of (0xC0 + code div 64), char_of (0x80 + code mod 64)]
      else if 0xD800 \<le> code \<and> code < 0xE000 \<or> 0x10FFFF < code then [CHR 0xEF, CHR 0xBF, CHR 0xBD]
      else if code < 0x10000
      then [char_of (0xE0 + code div 4096), char_of (0x80 + code div 64 mod 64), char_of (0x80 + code mod 64)]
      else [char_of (0xF0 + code div 262144), char_of (0x80 + code div 4096 mod 64),
            char_of (0x80 + code div 64 mod 64), char_of (0x80 + code mod 64)])"

text \<open>
  \<^verbatim>\<open>strconv.Quote\<close> of the rune \<open>U+00nn\<close> without its quotes, as the scanner's
  \<^verbatim>\<open>quoteChar\<close> uses it for a byte \<open>n\<close>: backslash escapes for the control
  characters, \<^verbatim>\<open>\\u00nn\<close> for the C1 controls, the no-break space and the soft hyphen,
  and the UTF-8 encoding of the other Latin-1 characters.
\<close>

definition quote_rune :: "nat \<Rightarrow> string" where
  "quote_rune n =
     (if n = 0x5C then [CHR 0x5C, CHR 0x5C]
      else if 0x20 \<le> n \<and> n < 0x7F then [char_of n]
      else if n = 7 then [CHR 0x5C, CHR ''a''] else if n = 8 then [CHR 0x5C, CHR ''b'']
      else if n = 0x0C then [CHR 0x5C, CHR ''f''] else if n = 0x0A then [CHR 0x5C, CHR ''n'']
      else if n = 0x0D then [CHR 0x5C, CHR ''r''] else if n = 9 then [CHR 0x5C, CHR ''t'']
      else if n = 0x0B then [CHR 0x5C, CHR ''v'']
      else if n < 0x20 \<or> n = 0x7F then [CHR 0x5C, CHR ''x'', hex_digit (n div 16), hex_digit (n mod 16)]
      else if n \<le> 0xA0 \<or> n = 0xAD
      then [CHR 0x5C, CHR ''u'', CHR ''0'', CHR ''0'', hex_digit (n div 16), hex_digit (n mod 16)]
      else utf8_encode n)"

definition quote_char :: "char \<Rightarrow> string" where
  "quote_char c =
     (if c = CHR 0x27 then [CHR 0x27, CHR 0x5C, CHR 0x27, CHR 0x27]
      else if c = CHR 0x22 then [CHR 0x27, CHR 0x22, CHR 0x27]
      else CHR 0x27 # quote_rune (of_char c) @ [CHR 0x27])"

definition invalid_char :: "char \<Rightarrow> string \<Rightarrow> string" where
  "invalid_char c ctx = ''invalid character '' @ quote_char c @ '' '' @ ctx"

definition eof_error :: string where
  "eof_error = ''unexpected end of JSON input''"

definition simple_escape :: "char \<Rightarrow> char option" where
  "simple_escape e =
     (if e = CHR 0x22 then Some (CHR 0x22) else if e = CHR 0x5C then Some (CHR 0x5C)
      else if e = CHR ''/'' then Some (CHR ''/'') else if e = CHR ''b'' then Some (CHR 0x08)
      else if e = CHR ''f'' then Some (CHR 0x0C) else if e = CHR ''n'' then Some (CHR 0x0A)
      else if e = CHR ''r'' then Some (CHR 0x0D) else if e = CHR ''t'' then Some (CHR 0x09)
      else None)"

definition hex_quad :: "char list \<Rightarrow> string + nat" where
  "hex_quad s =
     (case find (\<lambda>c. hex_val c = None) (take 4 s) of
        Some c \<Rightarrow> Inl (invalid_char c (''in '' @ [CHR 0x5C] @ ''u hexadecimal character escape''))
      | None \<Rightarrow>
          if length s < 4 then Inl eof_error
          else Inr (foldl (\<lambda>acc c. 16 * acc + the (hex_val c)) 0 (take 4 s)))"

text \<open>\<^verbatim>\<open>getu4\<close>: a complete \<^verbatim>\<open>\\uXXXX\<close> escape at the head of the input.\<close>

definition getu4 :: "char list \<Rightarrow> nat option" where
  "getu4 s =
     (case s of
        a # b # r \<Rightarrow>
          if a = CHR 0x5C \<and> b = CHR ''u'' then (case hex_quad r of Inr v \<Rightarrow> Some v | Inl _ \<Rightarrow> None) else None
      | _ \<Rightarrow> None)"

text \<open>
  \<^verbatim>\<open>utf8.DecodeRune\<close>: the lead byte's entry of Go's \<^verbatim>\<open>first\<close> table (sequence size
  and accepted range of the second byte, \<^verbatim>\<open>acceptRanges\<close>), and the length of the
  well-formed UTF-8 sequence at the head of the input; 0 where \<^verbatim>\<open>DecodeRune\<close>
  returns \<^verbatim>\<open>(RuneError, 1)\<close> (an invalid or truncated sequence).
\<close>

definition utf8_lead :: "nat \<Rightarrow> (nat \<times> nat \<times> nat) option" where
  "utf8_lead b =
     (if b < 0x80 then Some (1, 0, 0)
      else if 0xC2 \<le> b \<and> b \<le> 0xDF then Some (2, 0x80, 0xBF)
      else if b = 0xE0 then Some (3, 0xA0, 0xBF)
      else if b = 0xED then Some (3, 0x80, 0x9F)
      else if 0xE1 \<le> b \<and> b \<le> 0xEF then Some (3, 0x80, 0xBF)
      else if b = 0xF0 then Some (4, 0x90, 0xBF)
      else if 0xF1 \<le> b \<and> b \<le> 0xF3 then Some (4, 0x80, 0xBF)
      else if b = 0xF4 then Some (4, 0x80, 0x8F)
      else None)"

definition utf8_cont :: "char list \<Rightarrow> nat \<Rightarrow> nat \<Rightarrow> nat \<Rightarrow> bool" where
  "utf8_cont r i lo hi \<longleftrightarrow> i < length r \<and> lo \<le> of_char (r ! i) \<and> of_char (r ! i) \<le> hi"

definition utf8_len :: "char list \<Rightarrow> nat" where
  "utf8_len s =
     (case s of
        [] \<Rightarrow> 0
      | c # r \<Rightarrow>
          (case utf8_lead (of_char c) of
             None \<Rightarrow> 0
           | Some (n, lo, hi) \<Rightarrow>
               if n = 1 \<or> utf8_cont r 0 lo hi \<and> list_all (\<lambda>i. utf8_cont r i 0x80 0xBF) [1..<n - 1]
               then n else 0))"

fun utf8_valid :: "char list \<Rightarrow> bool" where
  "utf8_valid [] = True"
| "utf8_valid (c # r) = (0 < utf8_len (c # r) \<and> utf8_valid (drop (utf8_len (c # r) - 1) r))"

text \<open>
  A string literal, scanned and unquoted in one pass: the scanner's errors, and
  \<^verbatim>\<open>unquote\<close>'s decoding: escapes, a surrogate pair of \<^verbatim>\<open>\\u\<close> escapes combined into
  one code point, a lone surrogate as U+FFFD, and each byte that does not start a
  well-formed UTF-8 sequence replaced by U+FFFD.
\<close>

function parse_str :: "string \<Rightarrow> char list \<Rightarrow> string + string \<times> char list" where
  "parse_str acc [] = Inl eof_error"
| "parse_str acc (c # cs) =
     (if c = CHR 0x22 then Inr (acc, cs)
      else if c = CHR 0x5C then
        (case cs of
           [] \<Rightarrow> Inl eof_error
         | e # cs' \<Rightarrow>
             if e = CHR ''u'' then
               (case hex_quad cs' of
                  Inl err \<Rightarrow> Inl err
                | Inr code \<Rightarrow>
                    if 0xD800 \<le> code \<and> code < 0xE000 then
                      (case getu4 (drop 4 cs') of
                         Some code2 \<Rightarrow>
                           if code < 0xDC00 \<and> 0xDC00 \<le> code2 \<and> code2 < 0xE000
                           then parse_str (acc @ utf8_encode (0x10000 + (code - 0xD800) * 1024 + (code2 - 0xDC00)))
                                  (drop 10 cs')
                           else parse_str (acc @ utf8_encode 0xFFFD) (drop 4 cs')
                       | None \<Rightarrow> parse_str (acc @ utf8_encode 0xFFFD) (drop 4 cs'))
                    else parse_str (acc @ utf8_encode code) (drop 4 cs'))
             else
               (case simple_escape e of
                  Some d \<Rightarrow> parse_str (acc @ [d]) cs'
                | None \<Rightarrow> Inl (invalid_char e ''in string escape code'')))
      else if of_char c < (32::nat) then Inl (invalid_char c ''in string literal'')
      else if of_char c < (128::nat) then parse_str (acc @ [c]) cs
      else if utf8_len (c # cs) = 0 then parse_str (acc @ utf8_encode 0xFFFD) cs
      else parse_str (acc @ take (utf8_len (c # cs)) (c # cs)) (drop (utf8_len (c # cs) - 1) cs))"
  by pat_completeness auto
termination by (relation "measure (\<lambda>(acc, s). length s)") auto

definition exp_sign :: "char list \<Rightarrow> string \<times> char list" where
  "exp_sign r = (case r of c # r' \<Rightarrow> if c = CHR ''+'' \<or> c = CHR ''-'' then ([c], r') else ([], r) | [] \<Rightarrow> ([], r))"

definition num_exp :: "string \<Rightarrow> char list \<Rightarrow> string + string \<times> char list" where
  "num_exp lit s =
     (case s of
        [] \<Rightarrow> Inr (lit, [])
      | e # r \<Rightarrow>
          if e = CHR ''e'' \<or> e = CHR ''E'' then
            (let (sg, r1) = exp_sign r
             in case r1 of
                  [] \<Rightarrow> Inl eof_error
                | c # r' \<Rightarrow>
                    if is_digit c then Inr (lit @ [e] @ sg @ c # takeWhile is_digit r', dropWhile is_digit r')
                    else Inl (invalid_char c ''in exponent of numeric literal''))
          else Inr (lit, s))"

definition num_frac :: "string \<Rightarrow> char list \<Rightarrow> string + string \<times> char list" where
  "num_frac lit s =
     (case s of
        d # r \<Rightarrow>
          if d = CHR ''.'' then
            (case r of
               [] \<Rightarrow> Inl eof_error
             | c # r' \<Rightarrow>
                 if is_digit c then num_exp (lit @ ''.'' @ c # takeWhile is_digit r') (dropWhile is_digit r')
                 else Inl (invalid_char c ''after decimal point in numeric literal''))
          else num_exp lit s
      | [] \<Rightarrow> num_exp lit s)"

definition num_sign :: "char list \<Rightarrow> string \<times> char list" where
  "num_sign s = (case s of c # r \<Rightarrow> if c = CHR ''-'' then (''-'', r) else ([], s) | [] \<Rightarrow> ([], s))"

definition parse_number :: "char list \<Rightarrow> string + string \<times> char list" where
  "parse_number s =
     (let (sg, s1) = num_sign s
      in case s1 of
           [] \<Rightarrow> Inl eof_error
         | c # r \<Rightarrow>
             if c = CHR ''0'' then num_frac (sg @ ''0'') r
             else if is_digit c then num_frac (sg @ c # takeWhile is_digit r) (dropWhile is_digit r)
             else Inl (invalid_char c ''in numeric literal''))"

fun lit_rest :: "string \<Rightarrow> string \<Rightarrow> char list \<Rightarrow> string + char list" where
  "lit_rest w [] s = Inr s"
| "lit_rest w (x # xs) [] = Inl eof_error"
| "lit_rest w (x # xs) (c # cs) =
     (if c = x then lit_rest w xs cs
      else Inl (invalid_char c (''in literal '' @ w @ '' (expecting '' @ quote_char x @ '')'')))"

fun parse_value :: "nat \<Rightarrow> char list \<Rightarrow> (string + json \<times> char list) option"
and parse_elems :: "nat \<Rightarrow> json list \<Rightarrow> char list \<Rightarrow> (string + json \<times> char list) option"
and parse_members :: "nat \<Rightarrow> (string \<times> json) list \<Rightarrow> char list \<Rightarrow> (string + json \<times> char list) option"
where
  "parse_value 0 s = None"
| "parse_value (Suc f) s =
     (case skip_ws s of
        [] \<Rightarrow> Some (Inl eof_error)
      | c # cs \<Rightarrow>
          if c = CHR ''['' then
            (case skip_ws cs of
               [] \<Rightarrow> Some (Inl eof_error)
             | d # r \<Rightarrow> if d = CHR '']'' then Some (Inr (JArr [], r)) else parse_elems f [] cs)
          else if c = CHR ''{'' then
            (case skip_ws cs of
               [] \<Rightarrow> Some (Inl eof_error)
             | d # r \<Rightarrow> if d = CHR ''}'' then Some (Inr (JObj [], r)) else parse_members f [] cs)
          else if c = CHR 0x22 then Some (map_sum id (\<lambda>(str, r). (JStr str, r)) (parse_str [] cs))
          else if c = CHR ''-'' \<or> is_digit c then
            Some (map_sum id (\<lambda>(lit, r). (JNum lit, r)) (parse_number (c # cs)))
          else if c = CHR ''t'' then Some (map_sum id (\<lambda>r. (JBool True, r)) (lit_rest ''true'' ''rue'' cs))
          else if c = CHR ''f'' then Some (map_sum id (\<lambda>r. (JBool False, r)) (lit_rest ''false'' ''alse'' cs))
          else if c = CHR ''n'' then Some (map_sum id (\<lambda>r. (JNull, r)) (lit_rest ''null'' ''ull'' cs))
          else Some (Inl (invalid_char c ''looking for beginning of value'')))"
| "parse_elems 0 acc s = None"
| "parse_elems (Suc f) acc s =
     (case parse_value f s of
        None \<Rightarrow> None
      | Some (Inl e) \<Rightarrow> Some (Inl e)
      | Some (Inr (v, r)) \<Rightarrow>
          (case skip_ws r of
             [] \<Rightarrow> Some (Inl eof_error)
           | c # r' \<Rightarrow>
               if c = CHR '','' then parse_elems f (acc @ [v]) r'
               else if c = CHR '']'' then Some (Inr (JArr (acc @ [v]), r'))
               else Some (Inl (invalid_char c ''after array element''))))"
| "parse_members 0 acc s = None"
| "parse_members (Suc f) acc s =
     (case skip_ws s of
        [] \<Rightarrow> Some (Inl eof_error)
      | c # cs \<Rightarrow>
          if c \<noteq> CHR 0x22 then Some (Inl (invalid_char c ''looking for beginning of object key string''))
          else
            (case parse_str [] cs of
               Inl e \<Rightarrow> Some (Inl e)
             | Inr (k, r) \<Rightarrow>
                 (case skip_ws r of
                    [] \<Rightarrow> Some (Inl eof_error)
                  | d # r' \<Rightarrow>
                      if d \<noteq> CHR '':'' then Some (Inl (invalid_char d ''after object key''))
                      else
                        (case parse_value f r' of
                           None \<Rightarrow> None
                         | Some (Inl e) \<Rightarrow> Some (Inl e)
                         | Some (Inr (v, r2)) \<Rightarrow>
                             (case skip_ws r2 of
                                [] \<Rightarrow> Some (Inl eof_error)
                              | x # r3 \<Rightarrow>
                                  if x = CHR '','' then parse_members f (acc @ [(k, v)]) r3
                                  else if x = CHR ''}'' then Some (Inr (JObj (acc @ [(k, v)]), r3))
                                  else Some (Inl (invalid_char x ''after object key:value pair'')))))))"

definition json_fuel :: "char list \<Rightarrow> nat" where
  "json_fuel s = 2 * length s + 2"

definition json_decode :: decoder where
  "json_decode s =
     (case parse_value (json_fuel s) s of
        None \<Rightarrow> Inl ''json: parser out of fuel''
      | Some (Inl e) \<Rightarrow> Inl e
      | Some (Inr (v, r)) \<Rightarrow>
          (case skip_ws r of
             [] \<Rightarrow> Inr v
           | c # _ \<Rightarrow> Inl (invalid_char c ''after top-level value'')))"

definition esc_char :: "char \<Rightarrow> string" where
  "esc_char c =
     (if c = CHR 0x22 then [CHR 0x5C, CHR 0x22]
      else if c = CHR 0x5C then [CHR 0x5C, CHR 0x5C]
      else if of_char c < (32::nat)
      then [CHR 0x5C, CHR ''u'', CHR ''0'', CHR ''0'', hex_digit (of_char c div 16), hex_digit (of_char c mod 16)]
      else [c])"

definition encode_str :: "string \<Rightarrow> string" where
  "encode_str s = CHR 0x22 # concat (map esc_char s) @ [CHR 0x22]"

fun sep_commas :: "string list \<Rightarrow> string" where
  "sep_commas [] = []"
| "sep_commas [x] = x"
| "sep_commas (x # y # ys) = x @ CHR '','' # sep_commas (y # ys)"

fun json_encode :: "json \<Rightarrow> string" where
  "json_encode JNull = ''null''"
| "json_encode (JBool b) = (if b then ''true'' else ''false'')"
| "json_encode (JNum lit) = lit"
| "json_encode (JStr s) = encode_str s"
| "json_encode (JArr xs) = CHR ''['' # sep_commas (map json_encode xs) @ '']''"
| "json_encode (JObj kvs) =
     CHR ''{'' # sep_commas (map (\<lambda>(k, v). encode_str k @ CHR '':'' # json_encode v) kvs) @ ''}''"

definition num_delim :: "char list \<Rightarrow> bool" where
  "num_delim r \<longleftrightarrow> (case r of [] \<Rightarrow> True | c # _ \<Rightarrow> c \<in> set '',]}'')"

definition json_number :: "string \<Rightarrow> bool" where
  "json_number lit \<longleftrightarrow> parse_number lit = Inr (lit, [])"

fun json_wf :: "json \<Rightarrow> bool" where
  "json_wf (JNum lit) = json_number lit"
| "json_wf (JStr s) = utf8_valid s"
| "json_wf (JArr xs) = list_all json_wf xs"
| "json_wf (JObj kvs) = list_all (\<lambda>(k, v). utf8_valid k \<and> json_wf v) kvs"
| "json_wf _ = True"

text \<open>
  Inputs for the properties of \<^verbatim>\<open>unquote\<close>: the escape \<^verbatim>\<open>\\uXXXX\<close> of a 16-bit
  value, with lower-case hex digits, and the UTF-16 surrogate pair of a supplementary
  code point (\<^verbatim>\<open>utf16.EncodeRune\<close>), as another encoder writes a character outside
  the Basic Multilingual Plane.
\<close>

definition hex4 :: "nat \<Rightarrow> string" where
  "hex4 n = [hex_digit (n div 4096), hex_digit (n div 256 mod 16), hex_digit (n div 16 mod 16), hex_digit (n mod 16)]"

definition u_escape :: "nat \<Rightarrow> string" where
  "u_escape n = CHR 0x5C # CHR ''u'' # hex4 n"

definition utf16_pair :: "nat \<Rightarrow> nat \<times> nat" where
  "utf16_pair code = (0xD800 + (code - 0x10000) div 1024, 0xDC00 + (code - 0x10000) mod 1024)"

lemma utf8_lead_facts:
  "utf8_lead b = Some (n, lo, hi) \<Longrightarrow> 1 \<le> n \<and> n \<le> 4 \<and> (n = 1 \<longleftrightarrow> b < 0x80) \<and> (1 < n \<longrightarrow> 0x80 \<le> lo \<and> hi \<le> 0xBF)"
  by (simp add: utf8_lead_def split: if_splits)

lemma utf8_len_Cons:
  "utf8_len (c # r) = n \<Longrightarrow> 0 < n \<Longrightarrow>
   \<exists>lo hi. utf8_lead (of_char c) = Some (n, lo, hi) \<and>
           (n = 1 \<or> utf8_cont r 0 lo hi \<and> list_all (\<lambda>i. utf8_cont r i 0x80 0xBF) [1..<n - 1])"
  by (auto simp: utf8_len_def split: option.splits if_splits)

lemma upt_one_small:
  "[Suc 0..<0] = []" "[Suc 0..<Suc 0] = []" "[Suc 0..<2] = [Suc 0]" "[Suc 0..<3] = [Suc 0, 2]"
  by (simp_all add: upt_rec)

lemma utf8_len_le: "utf8_len s = n \<Longrightarrow> 0 < n \<Longrightarrow> n \<le> length s"
proof (cases s)
  case (Cons c r)
  assume "utf8_len s = n" "0 < n"
  then obtain lo hi where l: "utf8_lead (of_char c) = Some (n, lo, hi)"
    and cs: "n = 1 \<or> utf8_cont r 0 lo hi \<and> list_all (\<lambda>i. utf8_cont r i 0x80 0xBF) [1..<n - 1]"
    using utf8_len_Cons Cons by blast
  have "n \<le> 4" "1 \<le> n" using utf8_lead_facts [OF l] by simp_all
  then consider "n = 1" | "n = 2" | "n = 3" | "n = 4" by linarith
  then show ?thesis using cs Cons by cases (auto simp: utf8_cont_def upt_one_small Suc_le_eq)
qed (simp add: utf8_len_def)

lemma utf8_cont_append: "utf8_cont r i lo hi \<Longrightarrow> utf8_cont (r @ t) i lo hi"
  by (simp add: utf8_cont_def nth_append)

lemma utf8_len_append: "0 < utf8_len s \<Longrightarrow> utf8_len (s @ t) = utf8_len s"
proof (cases s)
  case (Cons c r)
  assume "0 < utf8_len s"
  moreover define n where "n = utf8_len s"
  ultimately obtain lo hi where l: "utf8_lead (of_char c) = Some (n, lo, hi)"
    and cs: "n = 1 \<or> utf8_cont r 0 lo hi \<and> list_all (\<lambda>i. utf8_cont r i 0x80 0xBF) [1..<n - 1]"
    using utf8_len_Cons Cons by blast
  have "n = 1 \<or> utf8_cont (r @ t) 0 lo hi \<and> list_all (\<lambda>i. utf8_cont (r @ t) i 0x80 0xBF) [1..<n - 1]"
    using cs by (auto simp: utf8_cont_append list_all_iff)
  then have "utf8_len (c # r @ t) = n" using l unfolding utf8_len_def by simp
  then show ?thesis using Cons n_def by simp
qed (simp add: utf8_len_def)

lemma utf8_cont_take: "utf8_cont r i lo hi \<Longrightarrow> i < m \<Longrightarrow> utf8_cont (take m r) i lo hi"
  by (simp add: utf8_cont_def)

lemma utf8_len_take: "0 < utf8_len s \<Longrightarrow> utf8_len (take (utf8_len s) s) = utf8_len s"
proof (cases s)
  case (Cons c r)
  assume "0 < utf8_len s"
  moreover define n where "n = utf8_len s"
  ultimately obtain lo hi where l: "utf8_lead (of_char c) = Some (n, lo, hi)"
    and cs: "n = 1 \<or> utf8_cont r 0 lo hi \<and> list_all (\<lambda>i. utf8_cont r i 0x80 0xBF) [1..<n - 1]"
    using utf8_len_Cons Cons by blast
  have "0 < n" using \<open>0 < utf8_len s\<close> n_def by simp
  have "n = 1 \<or> utf8_cont (take (n - 1) r) 0 lo hi \<and> list_all (\<lambda>i. utf8_cont (take (n - 1) r) i 0x80 0xBF) [1..<n - 1]"
    using cs \<open>0 < n\<close> by (auto simp: utf8_cont_take list_all_iff)
  then have "utf8_len (c # take (n - 1) r) = n" using l unfolding utf8_len_def by simp
  moreover have "take n s = c # take (n - 1) r" using Cons \<open>0 < n\<close> by (cases n) simp_all
  ultimately show ?thesis by (simp add: n_def [symmetric])
qed (simp add: utf8_len_def)

lemma utf8_valid_append: "utf8_valid a \<Longrightarrow> utf8_valid b \<Longrightarrow> utf8_valid (a @ b)"
proof (induction a rule: utf8_valid.induct)
  case (2 c r)
  define n where "n = utf8_len (c # r)"
  have n: "0 < n" and v: "utf8_valid (drop (n - 1) r)" using 2(2) by (simp_all add: n_def)
  have l: "n - 1 \<le> length r" using utf8_len_le [OF n_def [symmetric] n] by simp
  have e: "utf8_len (c # r @ b) = n" using utf8_len_append [of "c # r" b] n by (simp add: n_def)
  have "drop (n - 1) (r @ b) = drop (n - 1) r @ b" using l by simp
  moreover have "utf8_valid (drop (n - 1) r @ b)" using 2(1) v 2(3) by (simp add: n_def)
  ultimately show ?case using e n by simp
qed simp

lemma utf8_valid_seq: "0 < utf8_len s \<Longrightarrow> utf8_valid (take (utf8_len s) s)"
proof (cases s)
  case (Cons c r)
  assume n: "0 < utf8_len s"
  have l: "utf8_len s \<le> length s" using utf8_len_le n by blast
  have "utf8_len (take (utf8_len s) s) = utf8_len s" using utf8_len_take n .
  then show ?thesis using Cons n l by (cases "utf8_len s") (simp_all add: min_def)
qed simp

lemma utf8_valid_ascii: "of_char c < (128::nat) \<Longrightarrow> utf8_valid [c]"
  by (simp add: utf8_len_def utf8_lead_def)

lemma utf8_valid_fffd: "utf8_valid [CHR 0xEF, CHR 0xBF, CHR 0xBD]"
  by (simp add: utf8_len_def utf8_lead_def utf8_cont_def upt_one_small)

lemma code_digits:
  "code = 4096 * (code div 4096) + 64 * (code div 64 mod 64) + code mod 64 \<and>
   code div 4096 = 64 * (code div 262144) + code div 4096 mod 64" for code :: nat
proof -
  have "code div 64 div 64 = code div 4096" "code div 4096 div 64 = code div 262144"
    by (simp_all add: div_mult2_eq [symmetric])
  then have "code div 64 = 64 * (code div 4096) + code div 64 mod 64"
    and "code div 4096 = 64 * (code div 262144) + code div 4096 mod 64"
    using div_mult_mod_eq [of "code div 64" 64] div_mult_mod_eq [of "code div 4096" 64] by simp_all
  then show ?thesis using div_mult_mod_eq [of code 64] by linarith
qed

lemma utf8_valid_encode: "utf8_valid (utf8_encode code)"
proof -
  have ch: "of_char (char_of k :: char) = k" if "k < 256" for k :: nat using that by simp
  define a where "a = code div 4096"
  define b where "b = code div 64 mod 64"
  define c where "c = code mod 64"
  define a2 where "a2 = code div 4096 mod 64"
  have dig: "code = 4096 * a + 64 * b + c" "a = 64 * (code div 262144) + a2"
    using code_digits [of code] by (simp_all add: a_def b_def c_def a2_def)
  have bc: "b < 64" "c < 64" "a2 < 64" by (simp_all add: b_def c_def a2_def)
  consider (one) "code < 0x80" | (two) "0x80 \<le> code" "code < 0x800"
    | (rep) "0xD800 \<le> code \<and> code < 0xE000 \<or> 0x10FFFF < code"
    | (three) "0x800 \<le> code" "code < 0x10000" "\<not> (0xD800 \<le> code \<and> code < 0xE000)"
    | (four) "0x10000 \<le> code" "code \<le> 0x10FFFF" by linarith
  then show ?thesis
  proof cases
    case one
    then show ?thesis by (simp add: utf8_encode_def utf8_len_def utf8_lead_def)
  next
    case two
    have "128 div 64 \<le> code div 64" using two div_le_mono by blast
    moreover have "code div 64 < 32" using two by (simp add: less_mult_imp_div_less)
    ultimately have "2 \<le> code div 64" "code div 64 < 32" by simp_all
    then show ?thesis using two
      by (simp add: utf8_encode_def utf8_len_def utf8_lead_def utf8_cont_def upt_one_small Let_def ch)
  next
    case rep
    then have "utf8_encode code = [CHR 0xEF, CHR 0xBF, CHR 0xBD]" by (auto simp: utf8_encode_def)
    then show ?thesis using utf8_valid_fffd by simp
  next
    case three
    have a: "a < 16" using three dig bc by linarith
    have e0: "a = 0 \<Longrightarrow> 32 \<le> b" using three dig bc by linarith
    have ed: "a \<noteq> 13 \<or> b \<le> 31" using three dig bc by linarith
    show ?thesis using three a e0 ed bc
      by (simp add: utf8_encode_def utf8_len_def utf8_lead_def utf8_cont_def upt_one_small Let_def ch flip: a_def b_def c_def)
  next
    case four
    have hi: "code div 262144 \<le> 4" "1 \<le> code div 262144 \<or> 16 \<le> a2" "code div 262144 = 4 \<Longrightarrow> a2 < 16"
      using four dig bc by linarith+
    show ?thesis using four hi bc
      by (simp add: utf8_encode_def utf8_len_def utf8_lead_def utf8_cont_def upt_one_small Let_def ch flip: a2_def b_def c_def) arith
  qed
qed

lemma hex_val_hex_digit: "d < 16 \<Longrightarrow> hex_val (hex_digit d) = Some d"
proof -
  assume "d < 16"
  then have "d \<in> set [0..<16]" by simp
  then show ?thesis by (simp add: upt_conv_Cons hex_digit_def hex_val_def is_digit_def; elim disjE; simp)
qed

lemma hex_quad_esc:
  assumes "of_char c < (32::nat)"
  shows "hex_quad ([CHR ''0'', CHR ''0'', hex_digit (of_char c div 16), hex_digit (of_char c mod 16)] @ rest) =
         Inr (of_char c)"
proof -
  have "of_char c div 16 < (16::nat)" using assms by simp
  then have h: "hex_val (hex_digit (of_char c div 16)) = Some (of_char c div 16)"
               "hex_val (hex_digit (of_char c mod 16)) = Some (of_char c mod 16)"
    by (simp_all add: hex_val_hex_digit)
  have z: "hex_val (CHR ''0'') = Some 0" by (simp add: hex_val_def is_digit_def)
  show ?thesis by (simp add: hex_quad_def h z)
qed

lemma parse_str_esc_char:
  "of_char c < (128::nat) \<Longrightarrow> parse_str acc (esc_char c @ rest) = parse_str (acc @ [c]) rest"
proof (cases "c = CHR 0x22 \<or> c = CHR 0x5C")
  case True
  then show ?thesis by (auto simp: esc_char_def simple_escape_def)
next
  case False
  assume a: "of_char c < (128::nat)"
  show ?thesis
  proof (cases "of_char c < (32::nat)")
    case True
    have "utf8_encode (of_char c) = [c]" using True by (simp add: utf8_encode_def)
    then show ?thesis using False True hex_quad_esc [OF True] by (simp add: esc_char_def)
  next
    case ge: False
    then show ?thesis using False a by (simp add: esc_char_def)
  qed
qed

lemma esc_chars_high: "\<forall>x \<in> set p. 128 \<le> (of_char x :: nat) \<Longrightarrow> concat (map esc_char p) = p"
  by (induction p) (auto simp: esc_char_def)

lemma utf8_tail_bytes:
  assumes n: "utf8_len (c # r) = n" "1 < n" and x: "x \<in> set (take (n - 1) r)"
  shows "128 \<le> (of_char x :: nat) \<and> of_char x \<le> (191::nat)"
proof -
  obtain lo hi where l: "utf8_lead (of_char c) = Some (n, lo, hi)"
    and cs: "utf8_cont r 0 lo hi" "list_all (\<lambda>i. utf8_cont r i 0x80 0xBF) [1..<n - 1]"
    using utf8_len_Cons [OF n(1)] n by auto
  have f: "0x80 \<le> lo" "hi \<le> 0xBF" using utf8_lead_facts [OF l] n(2) by auto
  obtain i where "i < n - 1" "i < length r" "x = r ! i" using x by (auto simp: in_set_conv_nth)
  then show ?thesis using cs f by (cases i) (auto simp: utf8_cont_def list_all_iff)
qed

lemma utf8_seq_high:
  assumes n: "utf8_len (c # r) = n" "1 < n" and x: "x \<in> set (c # take (n - 1) r)"
  shows "128 \<le> (of_char x :: nat)"
proof -
  obtain lo hi where "utf8_lead (of_char c) = Some (n, lo, hi)" using utf8_len_Cons [OF n(1)] n by auto
  then have "\<not> of_char c < (128::nat)" using utf8_lead_facts n(2) by auto
  then show ?thesis using x utf8_tail_bytes [OF n] by auto
qed

lemma utf8_len_trunc:
  assumes n: "utf8_len (c # r) = n" "0 < n" and t: "length t < n - 1"
  shows "utf8_len (c # t) = 0"
proof (rule ccontr)
  assume "utf8_len (c # t) \<noteq> 0"
  then obtain lo hi where "utf8_lead (of_char c) = Some (utf8_len (c # t), lo, hi)"
    using utf8_len_Cons [OF refl] by blast
  moreover obtain lo' hi' where "utf8_lead (of_char c) = Some (n, lo', hi')" using utf8_len_Cons [OF n] by blast
  ultimately have "utf8_len (c # t) = n" by simp
  then have "n \<le> length (c # t)" using utf8_len_le n(2) by blast
  then show False using t n(2) by simp
qed

lemma utf8_cont_byte_len: "128 \<le> (of_char c :: nat) \<Longrightarrow> of_char c \<le> (191::nat) \<Longrightarrow> utf8_len (c # r) = 0"
  by (simp add: utf8_len_def utf8_lead_def)

lemma parse_str_seq:
  assumes "\<not> of_char c < (128::nat)" "utf8_len (c # cs) = n" "0 < n"
  shows "parse_str acc (c # cs) = parse_str (acc @ take n (c # cs)) (drop (n - 1) cs)"
proof -
  have "c \<noteq> CHR 0x22" "c \<noteq> CHR 0x5C" "\<not> of_char c < (32::nat)" using assms(1) by auto
  then show ?thesis using assms by simp
qed

lemma parse_str_bad:
  assumes "\<not> of_char c < (128::nat)" "utf8_len (c # cs) = 0"
  shows "parse_str acc (c # cs) = parse_str (acc @ utf8_encode 0xFFFD) cs"
proof -
  have "c \<noteq> CHR 0x22" "c \<noteq> CHR 0x5C" "\<not> of_char c < (32::nat)" using assms(1) by auto
  then show ?thesis using assms by simp
qed

lemma esc_seq_high:
  "utf8_len (c # r) = n \<Longrightarrow> 1 < n \<Longrightarrow> concat (map esc_char (c # take (n - 1) r)) = c # take (n - 1) r"
  by (rule esc_chars_high) (use utf8_seq_high in blast)

lemma parse_str_esc_seq:
  assumes n: "utf8_len (c # r) = n" "0 < n"
  shows "parse_str acc (concat (map esc_char (c # take (n - 1) r)) @ t) = parse_str (acc @ c # take (n - 1) r) t"
proof -
  obtain lo hi where l: "utf8_lead (of_char c) = Some (n, lo, hi)" using utf8_len_Cons [OF n] by auto
  show ?thesis
  proof (cases "n = 1")
    case True
    then have "of_char c < (128::nat)" using utf8_lead_facts [OF l] by simp
    then show ?thesis using True by (simp add: parse_str_esc_char)
  next
    case False
    let ?p = "c # take (n - 1) r"
    have lp: "utf8_len ?p = n" using utf8_len_take [of "c # r"] n by (cases n) simp_all
    have "n - 1 \<le> length r" using utf8_len_le [OF n] by simp
    then have lt: "length (take (n - 1) r) = n - 1" by simp
    have len: "utf8_len (?p @ t) = n" using utf8_len_append [of ?p t] lp n by simp
    have hc: "\<not> of_char c < (128::nat)" using utf8_lead_facts [OF l] False by simp
    have "parse_str acc (?p @ t) = parse_str (acc @ take n (?p @ t)) (drop (n - 1) (take (n - 1) r @ t))"
      using parse_str_seq [OF hc _ n(2), of "take (n - 1) r @ t"] len by simp
    moreover have "take n (?p @ t) = ?p" using lt n by (cases n) simp_all
    ultimately show ?thesis using lt esc_seq_high [OF n(1)] False n(2) by simp
  qed
qed

lemma parse_str_esc:
  "utf8_valid s \<Longrightarrow> parse_str acc (concat (map esc_char s) @ CHR 0x22 # rest) = Inr (acc @ s, rest)"
proof (induction s arbitrary: acc rule: utf8_valid.induct)
  case (2 c r)
  define n where "n = utf8_len (c # r)"
  have n: "0 < n" and v: "utf8_valid (drop (n - 1) r)" using 2(2) by (simp_all add: n_def)
  have ih: "parse_str acc' (concat (map esc_char (drop (n - 1) r)) @ CHR 0x22 # rest) = Inr (acc' @ drop (n - 1) r, rest)"
    for acc' using 2(1) v n by (simp add: n_def)
  have "concat (map esc_char (c # r)) =
        concat (map esc_char (c # take (n - 1) r)) @ concat (map esc_char (drop (n - 1) r))"
    by (metis append_Cons append_take_drop_id concat_append map_append)
  then show ?case using parse_str_esc_seq [OF n_def [symmetric] n] ih [of "acc @ c # take (n - 1) r"] by simp
qed simp

lemma num_delim_facts:
  "num_delim r \<Longrightarrow> takeWhile is_digit r = [] \<and> dropWhile is_digit r = r \<and>
     (\<forall>c r'. r = c # r' \<longrightarrow> c \<noteq> CHR ''.'' \<and> c \<noteq> CHR ''e'' \<and> c \<noteq> CHR ''E'')"
  by (cases r) (auto simp: num_delim_def is_digit_def)

lemma num_exp_delim: "num_delim r \<Longrightarrow> num_exp l r = Inr (l, r)"
  using num_delim_facts [of r] by (cases r) (auto simp: num_exp_def)

lemma digits_append:
  "num_delim r \<Longrightarrow> dropWhile is_digit s = [] \<Longrightarrow>
   takeWhile is_digit (s @ r) = s \<and> dropWhile is_digit (s @ r) = r \<and> takeWhile is_digit s = s"
  using num_delim_facts [of r]
  by (simp add: takeWhile_append dropWhile_append dropWhile_eq_Nil_conv takeWhile_eq_all_conv)

lemma digits_append_stop:
  "dropWhile is_digit s = c # t \<Longrightarrow>
   takeWhile is_digit (s @ r) = takeWhile is_digit s \<and> dropWhile is_digit (s @ r) = c # t @ r"
  by (induction s) (auto split: if_splits)

lemma exp_sign_append:
  "snd (exp_sign t) \<noteq> [] \<Longrightarrow> exp_sign (t @ r) = (fst (exp_sign t), snd (exp_sign t) @ r)"
  by (cases t) (auto simp: exp_sign_def)

lemma num_exp_append:
  assumes res: "num_exp l s = Inr (l', [])" and d: "num_delim r"
  shows "num_exp l (s @ r) = Inr (l', r)"
proof (cases s)
  case Nil
  then have "l' = l" using res by (simp add: num_exp_def)
  then show ?thesis using Nil num_exp_delim [OF d, of l] by simp
next
  case (Cons e t)
  obtain sg r1 where sg: "exp_sign t = (sg, r1)" by fastforce
  from res Cons sg obtain c r' where
    e: "e = CHR ''e'' \<or> e = CHR ''E''" and r1: "r1 = c # r'" and c: "is_digit c"
    and l': "l' = l @ [e] @ sg @ c # takeWhile is_digit r'" and dw: "dropWhile is_digit r' = []"
    by (auto simp: num_exp_def split: if_splits list.splits)
  have "exp_sign (t @ r) = (sg, c # r' @ r)" using exp_sign_append [of t r] sg r1 by simp
  then show ?thesis using Cons e c l' digits_append [OF d dw] by (simp add: num_exp_def)
qed

lemma digits_split:
  "num_delim r \<Longrightarrow>
   takeWhile is_digit (s @ r) = takeWhile is_digit s \<and> dropWhile is_digit (s @ r) = dropWhile is_digit s @ r"
  using num_delim_facts [of r] by (induction s) auto

lemma num_frac_append:
  assumes res: "num_frac l s = Inr (l', [])" and d: "num_delim r"
  shows "num_frac l (s @ r) = Inr (l', r)"
proof (cases "s \<noteq> [] \<and> hd s = CHR ''.''")
  case True
  then obtain t where s: "s = CHR ''.'' # t" by (cases s) auto
  from res s obtain c r' where t: "t = c # r'" and c: "is_digit c"
    and e: "num_exp (l @ ''.'' @ c # takeWhile is_digit r') (dropWhile is_digit r') = Inr (l', [])"
    by (auto simp: num_frac_def split: list.splits if_splits)
  show ?thesis using s t c num_exp_append [OF e d] digits_split [OF d, of r'] by (simp add: num_frac_def)
next
  case False
  have "num_frac l (s @ r) = num_exp l (s @ r)"
  proof (cases s)
    case Nil
    then show ?thesis using num_delim_facts [OF d] by (cases r) (auto simp: num_frac_def)
  next
    case (Cons x t)
    then show ?thesis using False by (simp add: num_frac_def)
  qed
  moreover have "num_frac l s = num_exp l s" using False by (cases s) (auto simp: num_frac_def)
  ultimately show ?thesis using res num_exp_append [OF _ d] by simp
qed

lemma num_sign_append:
  "snd (num_sign s) \<noteq> [] \<Longrightarrow> num_sign (s @ r) = (fst (num_sign s), snd (num_sign s) @ r)"
  by (cases s) (auto simp: num_sign_def)

lemma num_sign_id: "fst (num_sign s) @ snd (num_sign s) = s"
  by (cases s) (auto simp: num_sign_def)

lemma parse_number_append:
  assumes res: "parse_number s = Inr (l', [])" and d: "num_delim r"
  shows "parse_number (s @ r) = Inr (l', r)"
proof -
  obtain sg s1 where sg: "num_sign s = (sg, s1)" by fastforce
  from res sg obtain c t where s1: "s1 = c # t" by (auto simp: parse_number_def split: list.splits)
  then have sg': "num_sign (s @ r) = (sg, c # t @ r)" using num_sign_append [of s r] sg by simp
  show ?thesis
  proof (cases "c = CHR ''0''")
    case True
    then show ?thesis using res sg sg' s1 num_frac_append [OF _ d] by (simp add: parse_number_def)
  next
    case False
    then show ?thesis using res sg sg' s1 num_frac_append [OF _ d] digits_split [OF d, of t]
      by (auto simp: parse_number_def split: if_splits)
  qed
qed

lemma exp_sign_id: "fst (exp_sign t) @ snd (exp_sign t) = t"
  by (cases t) (auto simp: exp_sign_def)

lemma exp_sign_digit:
  "exp_sign t = (sg, c # r') \<Longrightarrow> is_digit c \<Longrightarrow> exp_sign (sg @ c # z) = (sg, c # z)"
  by (cases t) (auto simp: exp_sign_def is_digit_def split: if_splits)

lemma digits_take: "takeWhile is_digit (takeWhile is_digit r) = takeWhile is_digit r \<and>
                    dropWhile is_digit (takeWhile is_digit r) = []"
  by (induction r) auto

lemma num_exp_prefix:
  assumes "num_exp l s = Inr (l', r)"
  shows "\<exists>w. s = w @ r \<and> l' = l @ w \<and> num_exp l w = Inr (l', [])"
proof (cases "s \<noteq> [] \<and> (hd s = CHR ''e'' \<or> hd s = CHR ''E'')")
  case True
  then obtain e t where s: "s = e # t" and e: "e = CHR ''e'' \<or> e = CHR ''E''" by (cases s) auto
  obtain sg r1 where sg: "exp_sign t = (sg, r1)" by fastforce
  from assms s e sg obtain c r' where r1: "r1 = c # r'" and c: "is_digit c"
    and l': "l' = l @ [e] @ sg @ c # takeWhile is_digit r'" and r: "r = dropWhile is_digit r'"
    by (auto simp: num_exp_def split: if_splits list.splits)
  have "t = sg @ c # r'" using exp_sign_id [of t] sg r1 by simp
  then have "s = (e # sg @ c # takeWhile is_digit r') @ r" using s r by simp
  moreover have "num_exp l (e # sg @ c # takeWhile is_digit r') = Inr (l', [])"
    using e c l' exp_sign_digit [OF sg [unfolded r1] c, of "takeWhile is_digit r'"] digits_take [of r']
    by (simp add: num_exp_def)
  ultimately show ?thesis using l' by auto
next
  case False
  then have "l' = l \<and> r = s" using assms by (cases s) (auto simp: num_exp_def)
  then show ?thesis by (intro exI [of _ "[]"]) (simp add: num_exp_def)
qed

lemma digits_stop:
  "w = [] \<or> \<not> is_digit (hd w) \<Longrightarrow>
   takeWhile is_digit (takeWhile is_digit r @ w) = takeWhile is_digit r \<and>
   dropWhile is_digit (takeWhile is_digit r @ w) = w"
proof -
  assume "w = [] \<or> \<not> is_digit (hd w)"
  then have "takeWhile is_digit w = [] \<and> dropWhile is_digit w = w" by (cases w) auto
  then show ?thesis by (induction r) auto
qed

lemma prefix_of_dropWhile:
  "dropWhile is_digit r' = w @ r \<Longrightarrow> w = [] \<or> \<not> is_digit (hd w)"
  using hd_dropWhile [of is_digit r'] by (cases w) auto

lemma num_frac_prefix:
  assumes "num_frac l s = Inr (l', r)"
  shows "\<exists>w. s = w @ r \<and> l' = l @ w \<and> num_frac l w = Inr (l', [])"
proof (cases "s \<noteq> [] \<and> hd s = CHR ''.''")
  case True
  then obtain t where s: "s = CHR ''.'' # t" by (cases s) auto
  from assms s obtain c r' where t: "t = c # r'" and c: "is_digit c"
    and e: "num_exp (l @ ''.'' @ c # takeWhile is_digit r') (dropWhile is_digit r') = Inr (l', r)"
    by (auto simp: num_frac_def split: list.splits if_splits)
  from num_exp_prefix [OF e] obtain w where w: "dropWhile is_digit r' = w @ r"
    and l': "l' = (l @ ''.'' @ c # takeWhile is_digit r') @ w"
    and ew: "num_exp (l @ ''.'' @ c # takeWhile is_digit r') w = Inr (l', [])" by blast
  have "r' = takeWhile is_digit r' @ w @ r" using w takeWhile_dropWhile_id [of is_digit r'] by simp
  then have "s = (CHR ''.'' # c # takeWhile is_digit r' @ w) @ r" using s t by simp
  moreover have "num_frac l (CHR ''.'' # c # takeWhile is_digit r' @ w) = Inr (l', [])"
    using c ew digits_stop [OF prefix_of_dropWhile [OF w]] by (simp add: num_frac_def)
  ultimately show ?thesis using l' by auto
next
  case False
  then have f: "num_frac l s = num_exp l s" by (cases s) (auto simp: num_frac_def)
  from num_exp_prefix [of l s l' r] assms f obtain w where
    w: "s = w @ r" "l' = l @ w" "num_exp l w = Inr (l', [])" by auto
  have "num_frac l w = num_exp l w" using False w(1) by (cases w) (auto simp: num_frac_def)
  then show ?thesis using w by auto
qed

lemma parse_number_prefix:
  assumes "parse_number s = Inr (l', r)"
  shows "s = l' @ r \<and> parse_number l' = Inr (l', [])"
proof -
  obtain sg s1 where sg: "num_sign s = (sg, s1)" by fastforce
  have s: "s = sg @ s1" using num_sign_id [of s] sg by simp
  from assms sg obtain c t where s1: "s1 = c # t" by (auto simp: parse_number_def split: list.splits)
  have sgw: "num_sign (sg @ c # z) = (sg, c # z)" for z
    using sg s1 by (cases s) (auto simp: num_sign_def split: if_splits)
  show ?thesis
  proof (cases "c = CHR ''0''")
    case True
    with assms sg s1 have "num_frac (sg @ ''0'') t = Inr (l', r)" by (simp add: parse_number_def)
    from num_frac_prefix [OF this] obtain w where
      w: "t = w @ r" "l' = (sg @ ''0'') @ w" "num_frac (sg @ ''0'') w = Inr (l', [])" by blast
    then show ?thesis using s s1 True sgw [of w] by (simp add: parse_number_def)
  next
    case False
    with assms sg s1 have c: "is_digit c"
      and e: "num_frac (sg @ c # takeWhile is_digit t) (dropWhile is_digit t) = Inr (l', r)"
      by (auto simp: parse_number_def split: if_splits)
    from num_frac_prefix [OF e] obtain w where w: "dropWhile is_digit t = w @ r"
      and l': "l' = (sg @ c # takeWhile is_digit t) @ w"
      and fw: "num_frac (sg @ c # takeWhile is_digit t) w = Inr (l', [])" by blast
    have "t = takeWhile is_digit t @ w @ r" using w takeWhile_dropWhile_id [of is_digit t] by simp
    then have "s = l' @ r" using s s1 l' by simp
    moreover have "parse_number l' = Inr (l', [])"
      using l' False c fw sgw [of "takeWhile is_digit t @ w"] digits_stop [OF prefix_of_dropWhile [OF w]]
      by (simp add: parse_number_def)
    ultimately show ?thesis by simp
  qed
qed

lemma skip_ws_length: "length (skip_ws s) \<le> length s"
  by (simp add: skip_ws_def length_dropWhile_le)

lemma skip_ws_Cons: "\<not> json_space c \<Longrightarrow> skip_ws (c # s) = c # s"
  by (simp add: skip_ws_def)

lemma skip_ws_Cons_length: "skip_ws s = c # cs \<Longrightarrow> length cs < length s"
  using skip_ws_length [of s] by simp

lemma simple_escape_ascii: "simple_escape e = Some d \<Longrightarrow> of_char d < (128::nat)"
  by (auto simp: simple_escape_def split: if_splits)

lemma parse_str_step:
  assumes res: "parse_str acc (c # cs) = Inr (x, r)"
  shows "c = CHR 0x22 \<and> x = acc \<and> r = cs \<or>
         (\<exists>p t. length t \<le> length cs \<and> utf8_valid p \<and> parse_str (acc @ p) t = Inr (x, r))"
proof (cases "c = CHR 0x5C")
  case bs: True
  from res bs obtain e cs' where cs: "cs = e # cs'" by (cases cs) auto
  show ?thesis
  proof (cases "e = CHR ''u''")
    case u: True
    from res bs cs u obtain code where h: "hex_quad cs' = Inr code" by (auto split: sum.splits)
    have "\<exists>k j. parse_str (acc @ utf8_encode k) (drop j cs') = Inr (x, r)"
      using res bs cs u h by (auto split: if_splits option.splits)
    then show ?thesis using cs utf8_valid_encode by fastforce
  next
    case False
    from res bs cs False obtain d where "simple_escape e = Some d" "parse_str (acc @ [d]) cs' = Inr (x, r)"
      by (auto split: option.splits)
    then show ?thesis using cs utf8_valid_ascii simple_escape_ascii by fastforce
  qed
next
  case nbs: False
  show ?thesis
  proof (cases "c = CHR 0x22 \<or> of_char c < (32::nat)")
    case True
    then show ?thesis using res nbs by (auto split: if_splits)
  next
    case nq: False
    show ?thesis
    proof (cases "of_char c < (128::nat)")
      case True
      then show ?thesis using res nbs nq utf8_valid_ascii by fastforce
    next
      case high: False
      show ?thesis
      proof (cases "utf8_len (c # cs) = 0")
        case True
        then show ?thesis using res nbs nq high utf8_valid_encode by fastforce
      next
        case False
        have "parse_str acc (c # cs) = parse_str (acc @ take (utf8_len (c # cs)) (c # cs)) (drop (utf8_len (c # cs) - 1) cs)"
          using parse_str_seq [OF high refl] False by simp
        then have "parse_str (acc @ take (utf8_len (c # cs)) (c # cs)) (drop (utf8_len (c # cs) - 1) cs) = Inr (x, r)"
          using res by simp
        then show ?thesis using utf8_valid_seq [of "c # cs"] False by fastforce
      qed
    qed
  qed
qed

lemma parse_str_result:
  "parse_str acc s = Inr (x, r) \<Longrightarrow> utf8_valid acc \<Longrightarrow> length r < length s \<and> utf8_valid x"
proof (induction "length s" arbitrary: acc s rule: less_induct)
  case less
  then obtain c cs where s: "s = c # cs" by (cases s) auto
  from parse_str_step [OF less(2) [unfolded s]] show ?case
  proof
    assume "c = CHR 0x22 \<and> x = acc \<and> r = cs"
    then show ?thesis using s less(3) by simp
  next
    assume "\<exists>p t. length t \<le> length cs \<and> utf8_valid p \<and> parse_str (acc @ p) t = Inr (x, r)"
    then obtain p t where "length t \<le> length cs" "utf8_valid p" "parse_str (acc @ p) t = Inr (x, r)" by blast
    then show ?thesis using less(1) [of t "acc @ p"] less(3) s utf8_valid_append by fastforce
  qed
qed

lemma parse_str_length: "parse_str [] s = Inr (x, r) \<Longrightarrow> length r < length s"
  using parse_str_result by fastforce

lemma parse_str_valid: "parse_str [] s = Inr (x, r) \<Longrightarrow> utf8_valid x"
  using parse_str_result by fastforce

lemma lit_rest_length: "lit_rest w xs s = Inr r \<Longrightarrow> length r \<le> length s"
  by (induction w xs s rule: lit_rest.induct) (auto split: if_splits)

lemma lit_rest_self: "lit_rest w xs (xs @ rest) = Inr rest"
  by (induction xs) simp_all

lemma parse_number_head:
  "parse_number s = Inr x \<Longrightarrow> \<exists>c cs. s = c # cs \<and> (c = CHR ''-'' \<or> is_digit c)"
  by (cases s) (auto simp: parse_number_def num_sign_def is_digit_def split: if_splits list.splits)

lemma parse_number_length: "parse_number s = Inr (l, r) \<Longrightarrow> length r < length s"
  using parse_number_prefix [of s l r] parse_number_head [of l "(l, [])"] by auto

lemma parse_consumes:
  shows "parse_value f s = Some (Inr (v, r)) \<Longrightarrow> length r < length s"
    and "parse_elems f acc s = Some (Inr (v, r)) \<Longrightarrow> length r < length s"
    and "parse_members f kvs s = Some (Inr (v, r)) \<Longrightarrow> length r < length s"
proof (induction f s and f acc s and f kvs s arbitrary: v r and v r and v r
       rule: parse_value_parse_elems_parse_members.induct)
  case (2 f s)
  note res = 2(3) and ih_arr = 2(1) and ih_obj = 2(2)
  obtain c cs where sw: "skip_ws s = c # cs" using res by (cases "skip_ws s") auto
  have lc: "length cs < length s" using skip_ws_Cons_length [OF sw] .
  consider "c = CHR ''[''" | "c = CHR ''{''" | "c \<noteq> CHR ''['' \<and> c \<noteq> CHR ''{''" by blast
  then show ?case
  proof cases
    case 1
    obtain d r0 where sw2: "skip_ws cs = d # r0" using res sw 1 by (cases "skip_ws cs") auto
    show ?thesis
    proof (cases "d = CHR '']''")
      case True
      then show ?thesis using res sw sw2 1 lc skip_ws_Cons_length [OF sw2] by auto
    next
      case False
      then have "parse_elems f [] cs = Some (Inr (v, r))" using res sw sw2 1 by simp
      then show ?thesis using ih_arr [OF sw 1 sw2 False] lc by simp
    qed
  next
    case 2
    obtain d r0 where sw2: "skip_ws cs = d # r0" using res sw 2 by (cases "skip_ws cs") auto
    show ?thesis
    proof (cases "d = CHR ''}''")
      case True
      then show ?thesis using res sw sw2 2 lc skip_ws_Cons_length [OF sw2] by auto
    next
      case False
      then have "parse_members f [] cs = Some (Inr (v, r))" using res sw sw2 2 by simp
      then show ?thesis using ih_obj [OF sw _ 2 sw2 False] 2 lc by simp
    qed
  next
    case 3
    then show ?thesis using res sw lc parse_str_length [of cs] parse_number_length [of "c # cs"]
        lit_rest_length [of _ _ cs]
      by (auto simp: map_sum_eq_Inr split: if_splits dest!: lit_rest_length)
  qed
next
  case (4 f acc s)
  note res = 4(3)
  obtain v1 r1 where p: "parse_value f s = Some (Inr (v1, r1))"
    using res by (auto split: option.splits sum.splits)
  then have l1: "length r1 < length s" using 4(1) by blast
  obtain c r' where sw: "skip_ws r1 = c # r'" using res p by (cases "skip_ws r1") auto
  have "length r' < length s" using skip_ws_Cons_length [OF sw] l1 by simp
  then show ?case using res p sw 4(2) [OF p refl refl sw] by (auto split: if_splits)
next
  case (6 f kvs s)
  note res = 6(3)
  obtain c cs where sw: "skip_ws s = c # cs" using res by (cases "skip_ws s") auto
  have q: "c = CHR 0x22" using res sw by (auto split: if_splits)
  obtain k r0 where ps: "parse_str [] cs = Inr (k, r0)" using res sw q by (auto split: sum.splits)
  obtain d r' where sw2: "skip_ws r0 = d # r'" using res sw q ps by (cases "skip_ws r0") auto
  have d: "d = CHR '':''" using res sw q ps sw2 by (auto split: if_splits)
  obtain v1 r2 where pv: "parse_value f r' = Some (Inr (v1, r2))"
    using res sw q ps sw2 d by (auto split: option.splits sum.splits)
  obtain x r3 where sw3: "skip_ws r2 = x # r3" using res sw q ps sw2 d pv by (cases "skip_ws r2") auto
  have "length r' < length s"
    using skip_ws_Cons_length [OF sw] skip_ws_Cons_length [OF sw2] parse_str_length [OF ps] by simp
  then have "length r3 < length s"
    using 6(1) [OF sw _ ps refl sw2 _ pv] q d skip_ws_Cons_length [OF sw3] by fastforce
  then show ?case
    using res sw q ps sw2 d pv sw3 6(2) [OF sw _ ps refl sw2 _ pv refl refl sw3] by (auto split: if_splits)
qed simp_all

lemma parse_fuel:
  shows "parse_value f s = None \<Longrightarrow> f \<le> 2 * length s"
    and "parse_elems f acc s = None \<Longrightarrow> f \<le> 2 * length s + 1"
    and "parse_members f kvs s = None \<Longrightarrow> f \<le> 2 * length s + 1"
proof (induction f s and f acc s and f kvs s rule: parse_value_parse_elems_parse_members.induct)
  case (2 f s)
  note res = 2(3) and ih_arr = 2(1) and ih_obj = 2(2)
  obtain c cs where sw: "skip_ws s = c # cs" using res by (cases "skip_ws s") auto
  have lc: "length cs < length s" using skip_ws_Cons_length [OF sw] .
  obtain d r0 where sw2: "skip_ws cs = d # r0"
    using res sw by (cases "skip_ws cs") (auto split: if_splits)
  consider "c = CHR ''['' \<and> d \<noteq> CHR '']''" | "c = CHR ''{'' \<and> d \<noteq> CHR ''}''"
    using res sw sw2 by (auto split: if_splits)
  then show ?case
  proof cases
    case 1
    then have "parse_elems f [] cs = None" using res sw sw2 by simp
    then show ?thesis using ih_arr [OF sw _ sw2] 1 lc by simp
  next
    case 2
    then have "parse_members f [] cs = None" using res sw sw2 by simp
    then show ?thesis using ih_obj [OF sw _ _ sw2] 2 lc by simp
  qed
next
  case (4 f acc s)
  note res = 4(3)
  show ?case
  proof (cases "parse_value f s")
    case None
    then show ?thesis using 4(1) by simp
  next
    case (Some x)
    then obtain v1 r1 where p: "parse_value f s = Some (Inr (v1, r1))"
      using res by (auto split: sum.splits)
    obtain c r' where sw: "skip_ws r1 = c # r'" using res p by (cases "skip_ws r1") auto
    have "c = CHR '',''" "parse_elems f (acc @ [v1]) r' = None" using res p sw by (auto split: if_splits)
    moreover have "length r' < length s"
      using skip_ws_Cons_length [OF sw] parse_consumes(1) [OF p] by simp
    ultimately show ?thesis using 4(2) [OF p refl refl sw] by simp
  qed
next
  case (6 f kvs s)
  note res = 6(3)
  obtain c cs where sw: "skip_ws s = c # cs" using res by (cases "skip_ws s") auto
  have q: "c = CHR 0x22" using res sw by (auto split: if_splits)
  obtain k r0 where ps: "parse_str [] cs = Inr (k, r0)" using res sw q by (auto split: sum.splits)
  obtain d r' where sw2: "skip_ws r0 = d # r'" using res sw q ps by (cases "skip_ws r0") auto
  have d: "d = CHR '':''" using res sw q ps sw2 by (auto split: if_splits)
  have lr': "length r' + 3 \<le> length s"
    using skip_ws_Cons_length [OF sw] skip_ws_Cons_length [OF sw2] parse_str_length [OF ps] by simp
  show ?case
  proof (cases "parse_value f r'")
    case None
    then show ?thesis using 6(1) [OF sw _ ps refl sw2] q d lr' by simp
  next
    case (Some x)
    then obtain v1 r2 where pv: "parse_value f r' = Some (Inr (v1, r2))"
      using res sw q ps sw2 d by (auto split: sum.splits)
    obtain x r3 where sw3: "skip_ws r2 = x # r3" using res sw q ps sw2 d pv by (cases "skip_ws r2") auto
    have "x = CHR '',''" "parse_members f (kvs @ [(k, v1)]) r3 = None"
      using res sw q ps sw2 d pv sw3 by (auto split: if_splits)
    moreover have "length r3 < length r'"
      using skip_ws_Cons_length [OF sw3] parse_consumes(1) [OF pv] by simp
    ultimately show ?thesis using 6(2) [OF sw _ ps refl sw2 _ pv refl refl sw3] q d lr' by simp
  qed
qed simp_all

lemma parse_wf:
  shows "parse_value f s = Some (Inr (v, r)) \<Longrightarrow> json_wf v"
    and "parse_elems f acc s = Some (Inr (v, r)) \<Longrightarrow> list_all json_wf acc \<Longrightarrow> json_wf v"
    and "parse_members f kvs s = Some (Inr (v, r)) \<Longrightarrow> list_all (\<lambda>(k, v). utf8_valid k \<and> json_wf v) kvs \<Longrightarrow> json_wf v"
proof (induction f s and f acc s and f kvs s arbitrary: v r and v r and v r
       rule: parse_value_parse_elems_parse_members.induct)
  case (2 f s)
  note res = 2(3) and ih_arr = 2(1) and ih_obj = 2(2)
  obtain c cs where sw: "skip_ws s = c # cs" using res by (cases "skip_ws s") auto
  consider "c = CHR ''[''" | "c = CHR ''{''" | "c \<noteq> CHR ''['' \<and> c \<noteq> CHR ''{''" by blast
  then show ?case
  proof cases
    case 1
    obtain d r0 where sw2: "skip_ws cs = d # r0" using res sw 1 by (cases "skip_ws cs") auto
    show ?thesis
    proof (cases "d = CHR '']''")
      case True
      then show ?thesis using res sw sw2 1 by auto
    next
      case False
      then have "parse_elems f [] cs = Some (Inr (v, r))" using res sw sw2 1 by simp
      then show ?thesis using ih_arr [OF sw 1 sw2 False] by simp
    qed
  next
    case 2
    obtain d r0 where sw2: "skip_ws cs = d # r0" using res sw 2 by (cases "skip_ws cs") auto
    show ?thesis
    proof (cases "d = CHR ''}''")
      case True
      then show ?thesis using res sw sw2 2 by auto
    next
      case False
      then have "parse_members f [] cs = Some (Inr (v, r))" using res sw sw2 2 by simp
      then show ?thesis using ih_obj [OF sw _ 2 sw2 False] 2 by simp
    qed
  next
    case 3
    then show ?thesis using res sw parse_number_prefix [of "c # cs"] parse_str_valid [of cs]
      by (auto simp: map_sum_eq_Inr json_number_def split: if_splits)
  qed
next
  case (4 f acc s)
  note res = 4(3)
  obtain v1 r1 where p: "parse_value f s = Some (Inr (v1, r1))"
    using res by (auto split: option.splits sum.splits)
  have w1: "json_wf v1" using 4(1) [OF p] .
  obtain c r' where sw: "skip_ws r1 = c # r'" using res p by (cases "skip_ws r1") auto
  show ?case using res p sw w1 4(4) 4(2) [OF p refl refl sw] by (auto split: if_splits)
next
  case (6 f kvs s)
  note res = 6(3)
  obtain c cs where sw: "skip_ws s = c # cs" using res by (cases "skip_ws s") auto
  have q: "c = CHR 0x22" using res sw by (auto split: if_splits)
  obtain k r0 where ps: "parse_str [] cs = Inr (k, r0)" using res sw q by (auto split: sum.splits)
  obtain d r' where sw2: "skip_ws r0 = d # r'" using res sw q ps by (cases "skip_ws r0") auto
  have d: "d = CHR '':''" using res sw q ps sw2 by (auto split: if_splits)
  obtain v1 r2 where pv: "parse_value f r' = Some (Inr (v1, r2))"
    using res sw q ps sw2 d by (auto split: option.splits sum.splits)
  have w1: "json_wf v1" using 6(1) [OF sw _ ps refl sw2 _ pv] q d by simp
  have wk: "utf8_valid k" using parse_str_valid [OF ps] .
  obtain x r3 where sw3: "skip_ws r2 = x # r3" using res sw q ps sw2 d pv by (cases "skip_ws r2") auto
  show ?case
    using res sw q ps sw2 d pv sw3 w1 wk 6(4) 6(2) [OF sw _ ps refl sw2 _ pv refl refl sw3]
    by (auto split: if_splits)
qed simp_all

lemma json_encode_head:
  "json_wf v \<Longrightarrow> \<exists>c cs. json_encode v = c # cs \<and> \<not> json_space c \<and> c \<noteq> CHR '']'' \<and> c \<noteq> CHR ''}''"
proof (cases v)
  case (JNum lit)
  assume "json_wf v"
  then have "parse_number lit = Inr (lit, [])" using JNum by (simp add: json_number_def)
  from parse_number_head [OF this] JNum show ?thesis by (auto simp: json_space_def is_digit_def)
qed (auto simp: json_space_def encode_str_def)

lemma skip_ws_encode:
  "json_wf v \<Longrightarrow> skip_ws (json_encode v @ rest) = json_encode v @ rest"
  using json_encode_head [of v] by (auto simp: skip_ws_Cons)

lemma parse_key:
  "utf8_valid k \<Longrightarrow> parse_str [] (tl (encode_str k) @ rest) = Inr (k, rest)"
  using parse_str_esc [of k "[]" rest] by (simp add: encode_str_def)

lemma elems_roundtrip:
  assumes ih: "\<forall>x \<in> set xs. \<forall>f rest. num_delim rest \<longrightarrow> length (json_encode x) < f \<longrightarrow>
                 parse_value f (json_encode x @ rest) = Some (Inr (x, rest))"
    and wf: "list_all json_wf xs" and ne: "xs \<noteq> []"
    and fuel: "length (sep_commas (map json_encode xs)) + 1 < f"
  shows "parse_elems f acc (sep_commas (map json_encode xs) @ CHR '']'' # rest) =
         Some (Inr (JArr (acc @ xs), rest))"
  using ih wf ne fuel
proof (induction xs arbitrary: acc f)
  case (Cons x ys)
  obtain f' where f: "f = Suc f'" using Cons.prems(4) by (cases f) auto
  have d: "num_delim (CHR '']'' # rest)" "num_delim (CHR '','' # z)" for z by (simp_all add: num_delim_def)
  show ?case
  proof (cases ys)
    case Nil
    have "parse_value f' (json_encode x @ CHR '']'' # rest) = Some (Inr (x, CHR '']'' # rest))"
      using Cons.prems(1,4) d(1) Nil f by simp
    then show ?thesis using Nil f by (simp add: skip_ws_Cons json_space_def)
  next
    case (Cons y zs)
    then have sep: "sep_commas (map json_encode (x # ys)) =
                    json_encode x @ CHR '','' # sep_commas (map json_encode ys)" by simp
    have "parse_value f' (json_encode x @ CHR '','' # sep_commas (map json_encode ys) @ CHR '']'' # rest) =
          Some (Inr (x, CHR '','' # sep_commas (map json_encode ys) @ CHR '']'' # rest))"
      using \<open>\<forall>x \<in> set (x # ys). _\<close> d(2) \<open>length (sep_commas (map json_encode (x # ys))) + 1 < f\<close> sep f
      by simp
    moreover have "parse_elems f' (acc @ [x]) (sep_commas (map json_encode ys) @ CHR '']'' # rest) =
                   Some (Inr (JArr ((acc @ [x]) @ ys), rest))"
      using Cons.IH [where acc = "acc @ [x]" and f = f'] Cons.prems sep f \<open>ys = y # zs\<close> by simp
    ultimately show ?thesis using sep f by (simp add: skip_ws_Cons json_space_def)
  qed
qed simp

lemma sep_commas_Cons:
  "sep_commas (x # ys) = x @ (if ys = [] then [] else CHR '','' # sep_commas ys)"
  by (cases ys) simp_all

lemma members_roundtrip:
  assumes ih: "\<forall>kv \<in> set kvs. \<forall>f rest. num_delim rest \<longrightarrow> length (json_encode (snd kv)) < f \<longrightarrow>
                 parse_value f (json_encode (snd kv) @ rest) = Some (Inr (snd kv, rest))"
    and wf: "list_all (\<lambda>(k, v). utf8_valid k \<and> json_wf v) kvs" and ne: "kvs \<noteq> []"
    and fuel: "length (sep_commas (map (\<lambda>(k, v). encode_str k @ CHR '':'' # json_encode v) kvs)) + 1 < f"
  shows "parse_members f acc
           (sep_commas (map (\<lambda>(k, v). encode_str k @ CHR '':'' # json_encode v) kvs) @ CHR ''}'' # rest) =
         Some (Inr (JObj (acc @ kvs), rest))"
  using ih wf ne fuel
proof (induction kvs arbitrary: acc f)
  case (Cons kv ys)
  obtain k x where kv: "kv = (k, x)" by fastforce
  obtain f' where f: "f = Suc f'" using Cons.prems(4) by (cases f) auto
  let ?m = "\<lambda>(k, v). encode_str k @ CHR '':'' # json_encode v"
  let ?tail = "(if ys = [] then [] else CHR '','' # sep_commas (map ?m ys)) @ CHR ''}'' # rest"
  have enc: "sep_commas (map ?m (kv # ys)) @ CHR ''}'' # rest =
              CHR 0x22 # tl (encode_str k) @ CHR '':'' # json_encode x @ ?tail"
    using kv by (simp add: sep_commas_Cons encode_str_def)
  have d: "num_delim ?tail" by (simp add: num_delim_def)
  have lx: "length (json_encode x) < f'"
    using Cons.prems(4) kv f by (simp add: sep_commas_Cons encode_str_def)
  have pv: "parse_value f' (json_encode x @ ?tail) = Some (Inr (x, ?tail))"
    using Cons.prems(1) kv d lx by simp
  have step: "parse_members f acc (sep_commas (map ?m (kv # ys)) @ CHR ''}'' # rest) =
              (case skip_ws ?tail of
                 [] \<Rightarrow> Some (Inl eof_error)
               | c # r3 \<Rightarrow>
                   if c = CHR '','' then parse_members f' (acc @ [(k, x)]) r3
                   else if c = CHR ''}'' then Some (Inr (JObj (acc @ [(k, x)]), r3))
                   else Some (Inl (invalid_char c ''after object key:value pair'')))"
    using enc f pv parse_key [of k "CHR '':'' # json_encode x @ ?tail"] Cons.prems(2) kv
    by (simp add: skip_ws_Cons json_space_def)
  show ?case
  proof (cases ys)
    case Nil
    then show ?thesis using step kv by (simp add: skip_ws_Cons json_space_def)
  next
    case (Cons y zs)
    have "parse_members f' (acc @ [(k, x)]) (sep_commas (map ?m ys) @ CHR ''}'' # rest) =
          Some (Inr (JObj ((acc @ [(k, x)]) @ ys), rest))"
      using Cons.IH [where acc = "acc @ [(k, x)]" and f = f'] Cons.prems f kv \<open>ys = y # zs\<close>
      by (simp add: sep_commas_Cons)
    then show ?thesis using step kv \<open>ys = y # zs\<close> by (simp add: skip_ws_Cons json_space_def)
  qed
qed simp

lemma value_roundtrip:
  "json_wf v \<Longrightarrow> num_delim rest \<Longrightarrow> length (json_encode v) < f \<Longrightarrow>
   parse_value f (json_encode v @ rest) = Some (Inr (v, rest))"
proof (induction v arbitrary: f rest)
  case JNull
  then obtain f' where "f = Suc f'" by (cases f) auto
  then show ?case using lit_rest_self [of "''null''" "''ull''" rest]
    by (simp add: skip_ws_Cons json_space_def is_digit_def)
next
  case (JBool b)
  then obtain f' where "f = Suc f'" by (cases f) auto
  then show ?case using lit_rest_self [of "''true''" "''rue''" rest] lit_rest_self [of "''false''" "''alse''" rest]
    by (cases b) (simp_all add: skip_ws_Cons json_space_def is_digit_def)
next
  case (JNum lit)
  then obtain f' where f: "f = Suc f'" by (cases f) auto
  have p: "parse_number lit = Inr (lit, [])" using JNum.prems(1) by (simp add: json_number_def)
  obtain c cs where lit: "lit = c # cs" and c: "c = CHR ''-'' \<or> is_digit c"
    using parse_number_head [OF p] by blast
  have "parse_number (lit @ rest) = Inr (lit, rest)" using parse_number_append [OF p JNum.prems(2)] .
  then show ?case using f lit c by (auto simp: skip_ws_Cons json_space_def is_digit_def)
next
  case (JStr str)
  then obtain f' where "f = Suc f'" by (cases f) auto
  then show ?case using parse_str_esc [of str "[]" rest] JStr.prems(1)
    by (simp add: encode_str_def skip_ws_Cons json_space_def)
next
  case (JArr xs)
  then obtain f' where f: "f = Suc f'" by (cases f) auto
  show ?case
  proof (cases xs)
    case Nil
    then show ?thesis using f by (simp add: skip_ws_Cons json_space_def)
  next
    case (Cons x ys)
    have wf: "list_all json_wf xs" using JArr.prems(1) by simp
    have ih: "\<forall>x \<in> set xs. \<forall>f rest. num_delim rest \<longrightarrow> length (json_encode x) < f \<longrightarrow>
                parse_value f (json_encode x @ rest) = Some (Inr (x, rest))"
      using JArr.IH wf by (simp add: list_all_iff)
    obtain c cs where h: "json_encode x = c # cs" "\<not> json_space c" "c \<noteq> CHR '']''"
      using json_encode_head [of x] wf Cons by auto
    have sw: "skip_ws (sep_commas (map json_encode xs) @ CHR '']'' # rest) =
              sep_commas (map json_encode xs) @ CHR '']'' # rest"
      using h Cons by (simp add: sep_commas_Cons skip_ws_Cons)
    have "parse_elems f' [] (sep_commas (map json_encode xs) @ CHR '']'' # rest) = Some (Inr (JArr xs, rest))"
      using elems_roundtrip [OF ih wf] Cons JArr.prems(3) f by simp
    then show ?thesis using f sw h Cons by (simp add: skip_ws_Cons json_space_def sep_commas_Cons)
  qed
next
  case (JObj kvs)
  then obtain f' where f: "f = Suc f'" by (cases f) auto
  let ?m = "\<lambda>(k, v). encode_str k @ CHR '':'' # json_encode v"
  show ?case
  proof (cases kvs)
    case Nil
    then show ?thesis using f by (simp add: skip_ws_Cons json_space_def)
  next
    case (Cons kv ys)
    have wf: "list_all (\<lambda>(k, v). utf8_valid k \<and> json_wf v) kvs" using JObj.prems(1) by simp
    have ih: "\<forall>kv \<in> set kvs. \<forall>f rest. num_delim rest \<longrightarrow> length (json_encode (snd kv)) < f \<longrightarrow>
                parse_value f (json_encode (snd kv) @ rest) = Some (Inr (snd kv, rest))"
      using JObj.IH wf by (fastforce simp: list_all_iff)
    obtain k x where kv: "kv = (k, x)" by fastforce
    have sw: "skip_ws (sep_commas (map ?m kvs) @ CHR ''}'' # rest) = sep_commas (map ?m kvs) @ CHR ''}'' # rest"
      using Cons kv by (simp add: sep_commas_Cons skip_ws_Cons encode_str_def json_space_def)
    have "parse_members f' [] (sep_commas (map ?m kvs) @ CHR ''}'' # rest) = Some (Inr (JObj kvs, rest))"
      using members_roundtrip [OF ih wf] Cons JObj.prems(3) f by simp
    then show ?thesis using f sw Cons kv by (simp add: skip_ws_Cons json_space_def sep_commas_Cons encode_str_def)
  qed
qed

text \<open>
  The parser accepts every well-formed document the printer produces and returns it;
  every document it returns is well-formed; and its fuel always suffices.
\<close>

lemma json_decode_roundtrip:
  "json_wf v \<Longrightarrow> json_decode (json_encode v) = Inr v"
  using value_roundtrip [of v "[]" "json_fuel (json_encode v)"]
  by (simp add: json_decode_def json_fuel_def num_delim_def skip_ws_def)

lemma json_decode_wf:
  "json_decode s = Inr v \<Longrightarrow> json_wf v"
  using parse_wf(1) by (auto simp: json_decode_def split: option.splits sum.splits list.splits)

lemma json_decode_fuel_suffices:
  "parse_value (json_fuel s) s \<noteq> None"
  using parse_fuel(1) [of "json_fuel s" s] by (auto simp: json_fuel_def)

lemma hex_quad_hex4: "n < 65536 \<Longrightarrow> hex_quad (hex4 n @ rest) = Inr n"
proof -
  assume n: "n < 65536"
  have a: "n div 4096 < 16" using n by (simp add: less_mult_imp_div_less)
  have h: "hex_val (hex_digit (n div 4096)) = Some (n div 4096)"
    "hex_val (hex_digit (n div 256 mod 16)) = Some (n div 256 mod 16)"
    "hex_val (hex_digit (n div 16 mod 16)) = Some (n div 16 mod 16)"
    "hex_val (hex_digit (n mod 16)) = Some (n mod 16)"
    using a by (simp_all add: hex_val_hex_digit)
  have q: "n div 256 div 16 = n div 4096" "n div 16 div 16 = n div 256"
    by (simp_all add: div_mult2_eq [symmetric])
  have e1: "16 * (n div 16) + n mod 16 = n" by simp
  have e2: "16 * (n div 256) + n div 16 mod 16 = n div 16"
    using div_mult_mod_eq [of "n div 16" 16] q(2) by simp
  have e3: "16 * (n div 4096) + n div 256 mod 16 = n div 256"
    using div_mult_mod_eq [of "n div 256" 16] q(1) by simp
  have "16 * (16 * (16 * (n div 4096) + n div 256 mod 16) + n div 16 mod 16) + n mod 16 = n"
    by (simp only: e1 e2 e3)
  then show ?thesis by (simp add: hex_quad_def hex4_def h)
qed

lemma getu4_u_escape: "n < 65536 \<Longrightarrow> getu4 (u_escape n @ rest) = Some n"
  by (simp add: getu4_def u_escape_def hex_quad_hex4)

lemma parse_str_u_escape:
  assumes "n < 65536"
  shows "parse_str acc (u_escape n @ rest) =
         (if 0xD800 \<le> n \<and> n < 0xE000 then
            (case getu4 rest of
               Some code2 \<Rightarrow>
                 if n < 0xDC00 \<and> 0xDC00 \<le> code2 \<and> code2 < 0xE000
                 then parse_str (acc @ utf8_encode (0x10000 + (n - 0xD800) * 1024 + (code2 - 0xDC00))) (drop 6 rest)
                 else parse_str (acc @ utf8_encode 0xFFFD) rest
             | None \<Rightarrow> parse_str (acc @ utf8_encode 0xFFFD) rest)
          else parse_str (acc @ utf8_encode n) rest)"
proof -
  have d: "drop 4 (hex4 n @ rest) = rest" "drop 10 (hex4 n @ rest) = drop 6 rest" by (simp_all add: hex4_def)
  show ?thesis using hex_quad_hex4 [OF assms] by (simp add: u_escape_def d del: drop_append cong: if_cong option.case_cong)
qed

lemma utf16_pair_range:
  assumes "0x10000 \<le> code" "code \<le> 0x10FFFF"
  shows "0xD800 \<le> fst (utf16_pair code) \<and> fst (utf16_pair code) < 0xDC00 \<and>
         0xDC00 \<le> snd (utf16_pair code) \<and> snd (utf16_pair code) < 0xE000 \<and>
         0x10000 + (fst (utf16_pair code) - 0xD800) * 1024 + (snd (utf16_pair code) - 0xDC00) = code"
proof -
  have "(code - 0x10000) div 1024 < 1024" using assms by (simp add: less_mult_imp_div_less)
  moreover have "(code - 0x10000) div 1024 * 1024 + (code - 0x10000) mod 1024 = code - 0x10000"
    by (rule div_mult_mod_eq)
  ultimately show ?thesis using assms by (simp add: utf16_pair_def)
qed

lemma utf8_len_before_quote: "\<not> of_char c < (128::nat) \<Longrightarrow> utf8_len (c # CHR 0x22 # r) = 0"
  by (auto simp: utf8_len_def utf8_cont_def dest: utf8_lead_facts split: option.splits)

lemma json_decode_one_string:
  assumes "parse_str [] (t @ [CHR 0x22, CHR ''}'']) = Inr (v, [CHR ''}''])"
  shows "unmarshal_map json_decode (''{\"k\":\"'' @ t @ ''\"}'') = Inr [''k'' \<mapsto> JStr v]"
proof -
  obtain m where f: "json_fuel (''{\"k\":\"'' @ t @ ''\"}'') = Suc (Suc (Suc m))" by (simp add: json_fuel_def)
  have "json_decode (''{\"k\":\"'' @ t @ ''\"}'') = Inr (JObj [(''k'', JStr v)])"
    unfolding json_decode_def f using assms by (simp add: skip_ws_Cons skip_ws_def json_space_def is_digit_def)
  then show ?thesis by (simp add: unmarshal_map_obj)
qed



text \<open>
  C29: every key and value \<^verbatim>\<open>json.Unmarshal\<close> of line 108 puts into the result map
  is well-formed, whatever the body: the key and every string in the value are valid UTF-8
  (\<^verbatim>\<open>unquote\<close> replaces each invalid byte and lone surrogate by U+FFFD), and each
  number is a literal the number scanner accepts in full.
\<close>

theorem unmarshal_map_wf:
  assumes "unmarshal_map json_decode body = Inr m" and "m k = Some v"
  shows "utf8_valid k \<and> json_wf v"
proof (cases "json_decode body")
  case (Inr d)
  have wf: "json_wf d" using json_decode_wf [OF Inr] .
  show ?thesis
  proof (cases d)
    case (JObj kvs)
    then have "(k, v) \<in> set kvs" using assms Inr by (auto simp: unmarshal_map_def dest: map_of_SomeD)
    then show ?thesis using wf JObj by (auto simp: list_all_iff)
  qed (use assms Inr in \<open>auto simp: unmarshal_map_def\<close>)
qed (use assms in \<open>simp add: unmarshal_map_def\<close>)

theorem unmarshal_map_wf_witness:
  "json_wf (JArr [JNum ''1'', JNum ''-2.5''])"
proof -
  have j: "json_decode ''{\"items\": [1, -2.5]}'' = Inr (JObj [(''items'', JArr [JNum ''1'', JNum ''-2.5''])])"
    by code_simp
  have d: "unmarshal_map json_decode ''{\"items\": [1, -2.5]}'' =
           Inr (map_of (rev [(''items'', JArr [JNum ''1'', JNum ''-2.5''])]))"
    by (simp only: unmarshal_map_def j) simp
  have m: "map_of (rev [(''items'', JArr [JNum ''1'', JNum ''-2.5''])]) ''items'' = Some (JArr [JNum ''1'', JNum ''-2.5''])"
    by simp
  show ?thesis using unmarshal_map_wf [OF d m] by simp
qed

text \<open>
  C35: a character outside the Basic Multilingual Plane written as a UTF-16 surrogate pair
  of \<^verbatim>\<open>\\u\<close> escapes decodes, through \<^verbatim>\<open>json.Unmarshal\<close> of line 108, into the
  UTF-8 encoding of that one code point.
\<close>

theorem unmarshal_map_surrogate_pair:
  assumes "0x10000 \<le> code" "code \<le> 0x10FFFF"
  shows "unmarshal_map json_decode
           (''{\"k\":\"'' @ u_escape (fst (utf16_pair code)) @ u_escape (snd (utf16_pair code)) @ ''\"}'') =
         Inr [''k'' \<mapsto> JStr (utf8_encode code)]"
proof -
  let ?hi = "fst (utf16_pair code)" and ?lo = "snd (utf16_pair code)"
  have r: "0xD800 \<le> ?hi" "?hi < 0xDC00" "0xDC00 \<le> ?lo" "?lo < 0xE000"
    "0x10000 + (?hi - 0xD800) * 1024 + (?lo - 0xDC00) = code"
    using utf16_pair_range [OF assms] by simp_all
  have g: "getu4 (u_escape ?lo @ [CHR 0x22, CHR ''}'']) = Some ?lo" using getu4_u_escape r(4) by simp
  have d: "drop 6 (u_escape ?lo @ [CHR 0x22, CHR ''}'']) = [CHR 0x22, CHR ''}'']" by (simp add: u_escape_def hex4_def)
  have "parse_str [] ((u_escape ?hi @ u_escape ?lo) @ [CHR 0x22, CHR ''}'']) = Inr (utf8_encode code, [CHR ''}''])"
    using parse_str_u_escape [of ?hi "[]" "u_escape ?lo @ [CHR 0x22, CHR ''}'']"] r g d by simp
  from json_decode_one_string [OF this] show ?thesis by simp
qed

theorem unmarshal_map_surrogate_pair_witness:
  "unmarshal_map json_decode (''{\"k\":\"'' @ u_escape 0xD83D @ u_escape 0xDE00 @ ''\"}'') =
   Inr [''k'' \<mapsto> JStr (utf8_encode 0x1F600)]"
proof -
  have "utf16_pair 0x1F600 = (0xD83D, 0xDE00)" by (simp add: utf16_pair_def)
  then show ?thesis using unmarshal_map_surrogate_pair [of "0x1F600"] by simp
qed

lemma lone_surrogate_fffd:
  assumes "0xD800 \<le> n" "n < 0xE000"
  shows "unmarshal_map json_decode (''{\"k\":\"'' @ u_escape n @ ''\"}'') = Inr [''k'' \<mapsto> JStr (utf8_encode 0xFFFD)]"
proof -
  have "getu4 [CHR 0x22, CHR ''}''] = None" by (simp add: getu4_def)
  then have "parse_str [] (u_escape n @ [CHR 0x22, CHR ''}'']) = Inr (utf8_encode 0xFFFD, [CHR ''}''])"
    using parse_str_u_escape [of n "[]" "[CHR 0x22, CHR ''}'']"] assms by simp
  then show ?thesis using json_decode_one_string by simp
qed

lemma invalid_byte_fffd:
  assumes "128 \<le> (of_char c :: nat)"
  shows "unmarshal_map json_decode (''{\"k\":\"'' @ [c] @ ''\"}'') = Inr [''k'' \<mapsto> JStr (utf8_encode 0xFFFD)]"
proof -
  have h: "\<not> of_char c < (128::nat)" using assms by simp
  have e: "parse_str [] [c, CHR 0x22, CHR ''}''] = parse_str (utf8_encode 0xFFFD) [CHR 0x22, CHR ''}'']"
    using parse_str_bad [OF h utf8_len_before_quote [OF h], of "[]"] by (simp only: append.simps)
  have q: "parse_str acc [CHR 0x22, CHR ''}''] = Inr (acc, [CHR ''}''])" for acc by simp
  have "parse_str [] ([c] @ [CHR 0x22, CHR ''}'']) = Inr (utf8_encode 0xFFFD, [CHR ''}''])"
    by (simp only: e q append.simps)
  from json_decode_one_string [OF this] show ?thesis by simp
qed

text \<open>
  C36: \<^verbatim>\<open>json.Unmarshal\<close> of line 108 puts U+FFFD where a string holds what is not a
  character: a \<^verbatim>\<open>\\u\<close> escape of a lone surrogate (one not followed by the escape of
  its other half), and a byte that does not start a well-formed UTF-8 sequence.
\<close>

theorem unmarshal_map_replacement_char:
  "(0xD800 \<le> n \<and> n < 0xE000 \<longrightarrow>
      unmarshal_map json_decode (''{\"k\":\"'' @ u_escape n @ ''\"}'') = Inr [''k'' \<mapsto> JStr (utf8_encode 0xFFFD)]) \<and>
   (128 \<le> (of_char c :: nat) \<longrightarrow>
      unmarshal_map json_decode (''{\"k\":\"'' @ [c] @ ''\"}'') = Inr [''k'' \<mapsto> JStr (utf8_encode 0xFFFD)])"
  using lone_surrogate_fffd [of n] invalid_byte_fffd [of c] by blast

theorem unmarshal_map_replacement_char_witness:
  "unmarshal_map json_decode (''{\"k\":\"'' @ u_escape 0xDE00 @ ''\"}'') = Inr [''k'' \<mapsto> JStr (utf8_encode 0xFFFD)] \<and>
   unmarshal_map json_decode (''{\"k\":\"'' @ [CHR 0xC3] @ ''\"}'') = Inr [''k'' \<mapsto> JStr (utf8_encode 0xFFFD)]"
  using unmarshal_map_replacement_char [of "0xDE00" "CHR 0xC3"] by simp

end
