(* ===== verification/Json_Truncation.thy ===== *)
theory Json_Truncation
  imports Json_Syntax
begin

text \<open>
  What the parser of \<open>Json_Syntax\<close> does with a document that was cut short, as a body
  read from a connection that closed early is: every strict prefix of the printed text of a
  well-formed array or object is rejected with Go's \<^verbatim>\<open>unexpected end of JSON input\<close>.
  A strict prefix of a scalar may still parse (a prefix of \<open>123\<close> is the number
  \<open>12\<close>), and \<open>truncated_result\<close> names the two outcomes a prefix can have.
\<close>

definition truncated_result :: "(string + json \<times> char list) option \<Rightarrow> bool" where
  "truncated_result r =
     (case r of
        Some (Inl e) \<Rightarrow> e = eof_error
      | Some (Inr (w, rest)) \<Rightarrow> rest = []
      | None \<Rightarrow> False)"

lemma lit_rest_trunc: "xs = p @ q \<Longrightarrow> q \<noteq> [] \<Longrightarrow> lit_rest w xs p = Inl eof_error"
proof (induction p arbitrary: xs)
  case Nil
  then show ?case by (cases xs) auto
qed auto

lemma esc_prefix_eof:
  assumes e: "esc_char c = p @ us" and ne: "us \<noteq> []"
  shows "parse_str acc p = Inl eof_error"
proof -
  have p: "p = take (length p) (esc_char c)" and l: "length p < length (esc_char c)"
    using e ne by (simp_all add: e)
  show ?thesis
  proof (cases "of_char c < (32::nat) \<and> c \<noteq> CHR 0x22 \<and> c \<noteq> CHR 0x5C")
    case True
    have "of_char c < (32::nat)" using True by blast
    then have "of_char c div 16 < (16::nat)" by simp
    then have h: "hex_val (hex_digit (of_char c div 16)) = Some (of_char c div 16)"
      by (simp add: hex_val_hex_digit)
    have z: "hex_val (CHR ''0'') = Some 0" by (simp add: hex_val_def is_digit_def)
    have "length p < 6" using l True by (simp add: esc_char_def)
    then have "length p \<in> {0, 1, 2, 3, 4, 5}" by (simp only: insert_iff empty_iff) presburger
    then show ?thesis using p True
      by (auto simp: esc_char_def hex_quad_def h z)
  next
    case False
    have "length p < 2" using l False by (auto simp: esc_char_def split: if_splits)
    then have "length p \<in> {0, 1}" by (simp only: insert_iff empty_iff) presburger
    then show ?thesis using p False by (auto simp: esc_char_def)
  qed
qed

lemma cont_bytes_eof:
  "\<forall>x \<in> set t. 128 \<le> (of_char x :: nat) \<and> of_char x \<le> (191::nat) \<Longrightarrow> parse_str acc t = Inl eof_error"
proof (induction t arbitrary: acc)
  case (Cons x t)
  then have "\<not> of_char x < (128::nat)" "utf8_len (x # t) = 0" using utf8_cont_byte_len by auto
  then show ?case using Cons parse_str_bad by simp
qed simp

lemma seq_prefix_eof:
  assumes n: "utf8_len (c # r) = n" "1 < n" and p: "c # take (n - 1) r = p @ us" and ne: "us \<noteq> []"
  shows "parse_str acc p = Inl eof_error"
proof (cases p)
  case (Cons c' t)
  have t: "c' = c" "take (n - 1) r = t @ us" using p Cons by simp_all
  have "length t + length us \<le> n - 1" using arg_cong [OF t(2), of length] by simp
  then have "length t < n - 1" using ne by (cases us) simp_all
  then have z: "utf8_len (c # t) = 0" using utf8_len_trunc [OF n(1)] n(2) by simp
  have "\<not> of_char c < (128::nat)" using utf8_seq_high [OF n, of c] by simp
  moreover have "\<forall>x \<in> set t. 128 \<le> (of_char x :: nat) \<and> of_char x \<le> (191::nat)"
    using utf8_tail_bytes [OF n] t(2) by auto
  ultimately show ?thesis using Cons t(1) z parse_str_bad cont_bytes_eof by simp
qed simp

lemma str_trunc:
  "utf8_valid s \<Longrightarrow> concat (map esc_char s) @ [CHR 0x22] = p @ q \<Longrightarrow> q \<noteq> [] \<Longrightarrow>
   parse_str acc p = Inl eof_error"
proof (induction s arbitrary: acc p rule: utf8_valid.induct)
  case 1
  then show ?case by (cases p) auto
next
  case (2 c r)
  define n where "n = utf8_len (c # r)"
  have n: "0 < n" and v: "utf8_valid (drop (n - 1) r)" using 2(2) by (simp_all add: n_def)
  let ?P = "c # take (n - 1) r" and ?Q = "concat (map esc_char (drop (n - 1) r)) @ [CHR 0x22]"
  have ih: "?Q = p' @ q \<Longrightarrow> parse_str acc' p' = Inl eof_error" for acc' p'
    using 2(1) v n 2(4) by (simp add: n_def)
  have e: "concat (map esc_char ?P) @ ?Q = p @ q"
    using 2(3) by (metis append_Cons append_assoc append_take_drop_id concat_append map_append)
  then obtain us where
    "concat (map esc_char ?P) = p @ us \<and> us @ ?Q = q \<or> concat (map esc_char ?P) @ us = p \<and> ?Q = us @ q"
    unfolding append_eq_append_conv2 by blast
  then consider (pre) "concat (map esc_char ?P) = p @ us" "us \<noteq> []"
    | (post) us' where "concat (map esc_char ?P) @ us' = p" "?Q = us' @ q"
    by (metis append_Nil append_Nil2)
  then show ?case
  proof cases
    case pre
    show ?thesis
    proof (cases "n = 1")
      case True
      then show ?thesis using pre esc_prefix_eof by simp
    next
      case False
      then have "1 < n" using n by simp
      then have "concat (map esc_char ?P) = ?P" using esc_seq_high [OF n_def [symmetric]] by simp
      then show ?thesis using seq_prefix_eof [OF n_def [symmetric] \<open>1 < n\<close> _ pre(2)] pre(1) by simp
    qed
  next
    case (post us')
    then show ?thesis using parse_str_esc_seq [OF n_def [symmetric] n] ih by auto
  qed
qed

lemma digits_trunc:
  assumes tr: "\<And>l p q l'. F l (p @ q) = Inr (l', []) \<Longrightarrow> F l p = Inl eof_error \<or> (\<exists>l''. F l p = Inr (l'', []))"
    and nil: "\<And>l. F l [] = Inr (l, [])"
    and res: "F (L (takeWhile is_digit (r @ q))) (dropWhile is_digit (r @ q)) = Inr (l', [])"
  shows "F (L (takeWhile is_digit r)) (dropWhile is_digit r) = Inl eof_error \<or>
         (\<exists>l''. F (L (takeWhile is_digit r)) (dropWhile is_digit r) = Inr (l'', []))"
proof (cases "dropWhile is_digit r")
  case (Cons x t)
  then show ?thesis using res digits_append_stop [OF Cons, of q] tr [of _ "x # t" q] by auto
next
  case Nil
  show ?thesis by (simp only: Nil nil) simp
qed

lemma num_exp_trunc:
  assumes "num_exp l (p @ q) = Inr (l', [])"
  shows "num_exp l p = Inl eof_error \<or> (\<exists>l''. num_exp l p = Inr (l'', []))"
proof (cases p)
  case (Cons e r)
  have dw: "dropWhile is_digit (r' @ q) = [] \<Longrightarrow> dropWhile is_digit r' = []" for r'
    by (induction r') (auto split: if_splits)
  show ?thesis using assms Cons dw
    by (auto simp: num_exp_def exp_sign_def split: list.splits if_splits)
qed (simp add: num_exp_def)

lemma num_frac_trunc:
  assumes "num_frac l (p @ q) = Inr (l', [])"
  shows "num_frac l p = Inl eof_error \<or> (\<exists>l''. num_frac l p = Inr (l'', []))"
proof (cases p)
  case Nil
  then show ?thesis by (simp add: num_frac_def num_exp_def)
next
  case (Cons d r)
  have ne: "num_exp l [] = Inr (l, [])" for l by (simp add: num_exp_def)
  show ?thesis
  proof (cases "d = CHR ''.''")
    case True
    show ?thesis
    proof (cases r)
      case (Cons c r')
      then show ?thesis
        using assms \<open>p = d # r\<close> True
          digits_trunc [of num_exp "\<lambda>t. l @ ''.'' @ c # t" r' q l', OF num_exp_trunc ne]
        by (auto simp: num_frac_def split: if_splits)
    qed (use Cons True in \<open>simp add: num_frac_def\<close>)
  next
    case False
    then show ?thesis using assms Cons num_exp_trunc [of l p q l'] by (simp add: num_frac_def)
  qed
qed

lemma parse_number_trunc:
  assumes res: "parse_number (p @ q) = Inr (l', [])"
  shows "parse_number p = Inl eof_error \<or> (\<exists>l''. parse_number p = Inr (l'', []))"
proof (cases "snd (num_sign p)")
  case Nil
  then show ?thesis by (simp add: parse_number_def split_beta)
next
  case (Cons c r)
  have s: "num_sign (p @ q) = (fst (num_sign p), c # r @ q)" using num_sign_append [of p q] Cons by simp
  have nf: "num_frac l [] = Inr (l, [])" for l by (simp add: num_frac_def num_exp_def)
  show ?thesis
    using res s Cons num_frac_trunc [of "fst (num_sign p) @ ''0''" r q l']
      digits_trunc [of num_frac "\<lambda>t. fst (num_sign p) @ c # t" r q l', OF num_frac_trunc nf]
    by (auto simp: parse_number_def split_beta split: if_splits)
qed

lemma truncated_result_eof [simp]: "truncated_result (Some (Inl eof_error))"
  by (simp add: truncated_result_def)

lemma truncated_result_done [simp]: "truncated_result (Some (Inr (w, [])))"
  by (simp add: truncated_result_def)

lemma value_then:
  assumes ih: "\<forall>f p q. json_encode x = p @ q \<longrightarrow> q \<noteq> [] \<longrightarrow> 2 * length p < f \<longrightarrow>
                 truncated_result (parse_value f p)"
    and wf: "json_wf x" and split: "json_encode x @ c # t = p @ q" and d: "c \<in> set '',]}''"
    and fuel: "2 * length p < f"
  shows "truncated_result (parse_value f p) \<or>
         (\<exists>p'. p = json_encode x @ c # p' \<and> p' @ q = t \<and> parse_value f p = Some (Inr (x, c # p')))"
proof -
  have whole: "parse_value f (json_encode x @ rest) = Some (Inr (x, rest))" if "num_delim rest"
    and "length (json_encode x) \<le> length p" for rest
    using value_roundtrip [OF wf that(1)] that(2) fuel by simp
  from split obtain us where
    "json_encode x = p @ us \<and> q = us @ c # t \<or> json_encode x @ us = p \<and> c # t = us @ q"
    by (auto simp: append_eq_append_conv2)
  then show ?thesis
  proof
    assume a: "json_encode x = p @ us \<and> q = us @ c # t"
    show ?thesis
    proof (cases "us = []")
      case True
      then show ?thesis using a whole [of "[]"] by (simp add: num_delim_def)
    qed (use a ih fuel in blast)
  next
    assume b: "json_encode x @ us = p \<and> c # t = us @ q"
    show ?thesis
    proof (cases us)
      case Nil
      then show ?thesis using b whole [of "[]"] by (simp add: num_delim_def)
    next
      case (Cons c' p')
      then show ?thesis using b d whole [of "c # p'"] by (auto simp: num_delim_def)
    qed
  qed
qed

lemma elems_trunc:
  assumes ih: "\<forall>x \<in> set xs. \<forall>f p q. json_encode x = p @ q \<longrightarrow> q \<noteq> [] \<longrightarrow> 2 * length p < f \<longrightarrow>
                 truncated_result (parse_value f p)"
    and wf: "list_all json_wf xs" and ne: "xs \<noteq> []"
    and split: "sep_commas (map json_encode xs) @ [CHR '']''] = p @ q" and q: "q \<noteq> []"
    and fuel: "2 * length p + 1 < f"
  shows "parse_elems f acc p = Some (Inl eof_error)"
  using ih wf ne split fuel
proof (induction xs arbitrary: acc p f)
  case (Cons x ys)
  obtain f' where f: "f = Suc f'" using Cons.prems(5) by (cases f) auto
  let ?c = "if ys = [] then CHR '']'' else CHR '',''"
  let ?t = "if ys = [] then [] else sep_commas (map json_encode ys) @ [CHR '']'']"
  have sp: "json_encode x @ ?c # ?t = p @ q" using Cons.prems(4) by (cases ys) simp_all
  have "truncated_result (parse_value f' p) \<or>
        (\<exists>p'. p = json_encode x @ ?c # p' \<and> p' @ q = ?t \<and> parse_value f' p = Some (Inr (x, ?c # p')))"
    using value_then [OF _ _ sp] Cons.prems(1,2,5) f by simp
  then show ?case
  proof
    assume "truncated_result (parse_value f' p)"
    then show ?thesis using f by (auto simp: truncated_result_def skip_ws_def split: option.splits sum.splits)
  next
    assume "\<exists>p'. p = json_encode x @ ?c # p' \<and> p' @ q = ?t \<and> parse_value f' p = Some (Inr (x, ?c # p'))"
    then obtain p' where p: "p = json_encode x @ ?c # p'" and t: "p' @ q = ?t"
      and pv: "parse_value f' p = Some (Inr (x, ?c # p'))" by blast
    have ys: "ys \<noteq> []" using t q by auto
    have "parse_elems f' (acc @ [x]) p' = Some (Inl eof_error)"
      using Cons.IH [where acc = "acc @ [x]" and f = f' and p = p'] Cons.prems(1,2,5) ys t p f by simp
    then show ?thesis using f pv ys by (simp add: skip_ws_Cons json_space_def)
  qed
qed simp

lemma after_value_eof:
  "truncated_result (parse_value f p) \<Longrightarrow>
   (case parse_value f p of
      None \<Rightarrow> None
    | Some (Inl e) \<Rightarrow> Some (Inl e)
    | Some (Inr (v, r)) \<Rightarrow> (case skip_ws r of [] \<Rightarrow> Some (Inl eof_error) | c # r' \<Rightarrow> g v c r')) =
   Some (Inl eof_error)"
  by (auto simp: truncated_result_def skip_ws_def split: option.splits sum.splits)

lemma members_trunc:
  assumes ih: "\<forall>kv \<in> set kvs. \<forall>f p q. json_encode (snd kv) = p @ q \<longrightarrow> q \<noteq> [] \<longrightarrow> 2 * length p < f \<longrightarrow>
                 truncated_result (parse_value f p)"
    and wf: "list_all (\<lambda>(k, v). utf8_valid k \<and> json_wf v) kvs" and ne: "kvs \<noteq> []"
    and split: "sep_commas (map (\<lambda>(k, v). encode_str k @ CHR '':'' # json_encode v) kvs) @ [CHR ''}''] = p @ q"
    and q: "q \<noteq> []" and fuel: "2 * length p + 1 < f"
  shows "parse_members f acc p = Some (Inl eof_error)"
  using ih wf ne split fuel
proof (induction kvs arbitrary: acc p f)
  case (Cons kv ys)
  obtain k x where kv: "kv = (k, x)" by fastforce
  obtain f' where f: "f = Suc f'" using Cons.prems(5) by (cases f) auto
  let ?m = "\<lambda>(k, v). encode_str k @ CHR '':'' # json_encode v"
  let ?c = "if ys = [] then CHR ''}'' else CHR '',''"
  let ?t = "if ys = [] then [] else sep_commas (map ?m ys) @ [CHR ''}'']"
  let ?K = "concat (map esc_char k) @ [CHR 0x22]"
  have sp: "CHR 0x22 # ?K @ CHR '':'' # json_encode x @ ?c # ?t = p @ q"
    using Cons.prems(4) kv by (cases ys) (simp_all add: encode_str_def)
  have wk: "utf8_valid k" using Cons.prems(2) kv by simp
  have key: "parse_str [] (?K @ rest) = Inr (k, rest)" for rest
    using parse_key [of k rest] wk by (simp add: encode_str_def)
  have ihx: "\<forall>f p q. json_encode x = p @ q \<longrightarrow> q \<noteq> [] \<longrightarrow> 2 * length p < f \<longrightarrow>
               truncated_result (parse_value f p)" and wfx: "json_wf x"
    using Cons.prems(1,2) kv by auto
  show ?case
  proof (cases p)
    case Nil
    then show ?thesis using f by (simp add: skip_ws_def)
  next
    case (Cons c0 p1)
    have c0: "c0 = CHR 0x22" and sp1: "?K @ CHR '':'' # json_encode x @ ?c # ?t = p1 @ q"
      using sp Cons by auto
    have pm: "parse_members f acc p =
              (case parse_str [] p1 of
                 Inl e \<Rightarrow> Some (Inl e)
               | Inr (k', r) \<Rightarrow>
                   (case skip_ws r of
                      [] \<Rightarrow> Some (Inl eof_error)
                    | d # r' \<Rightarrow>
                        if d \<noteq> CHR '':'' then Some (Inl (invalid_char d ''after object key''))
                        else
                          (case parse_value f' r' of
                             None \<Rightarrow> None
                           | Some (Inl e) \<Rightarrow> Some (Inl e)
                           | Some (Inr (v, r2)) \<Rightarrow>
                               (case skip_ws r2 of
                                  [] \<Rightarrow> Some (Inl eof_error)
                                | x # r3 \<Rightarrow>
                                    if x = CHR '','' then parse_members f' (acc @ [(k', v)]) r3
                                    else if x = CHR ''}'' then Some (Inr (JObj (acc @ [(k', v)]), r3))
                                    else Some (Inl (invalid_char x ''after object key:value pair''))))))"
      using Cons c0 f by (simp add: skip_ws_Cons json_space_def)
    from sp1 obtain us where
      "?K = p1 @ us \<and> us @ CHR '':'' # json_encode x @ ?c # ?t = q \<or>
       ?K @ us = p1 \<and> CHR '':'' # json_encode x @ ?c # ?t = us @ q"
      using append_eq_append_conv2 [of ?K "CHR '':'' # json_encode x @ ?c # ?t" p1 q] by blast
    then show ?thesis
    proof
      assume a: "?K = p1 @ us \<and> us @ CHR '':'' # json_encode x @ ?c # ?t = q"
      show ?thesis
      proof (cases "us = []")
        case True
        then show ?thesis using a pm key [of "[]"] by (simp add: skip_ws_def)
      next
        case False
        then show ?thesis using a pm str_trunc [of k p1 us "[]"] wk by simp
      qed
    next
      assume b: "?K @ us = p1 \<and> CHR '':'' # json_encode x @ ?c # ?t = us @ q"
      show ?thesis
      proof (cases us)
        case Nil
        then show ?thesis using b pm key [of "[]"] by (simp add: skip_ws_def)
      next
        case (Cons d p2)
        have d: "d = CHR '':''" and sp2: "json_encode x @ ?c # ?t = p2 @ q" using b Cons by auto
        have pm2: "parse_members f acc p =
                   (case parse_value f' p2 of
                      None \<Rightarrow> None
                    | Some (Inl e) \<Rightarrow> Some (Inl e)
                    | Some (Inr (v, r2)) \<Rightarrow>
                        (case skip_ws r2 of
                           [] \<Rightarrow> Some (Inl eof_error)
                         | x # r3 \<Rightarrow>
                             if x = CHR '','' then parse_members f' (acc @ [(k, v)]) r3
                             else if x = CHR ''}'' then Some (Inr (JObj (acc @ [(k, v)]), r3))
                             else Some (Inl (invalid_char x ''after object key:value pair''))))"
          using pm b Cons d key [of us] by (simp add: skip_ws_Cons json_space_def)
        have "length p2 < length p1" using b Cons by auto
        then have fuel2: "2 * length p2 < f'" using Cons.prems(5) f \<open>p = c0 # p1\<close> by simp
        have "truncated_result (parse_value f' p2) \<or>
              (\<exists>p'. p2 = json_encode x @ ?c # p' \<and> p' @ q = ?t \<and> parse_value f' p2 = Some (Inr (x, ?c # p')))"
          using value_then [OF ihx wfx sp2 _ fuel2] by simp
        then show ?thesis
        proof
          assume "truncated_result (parse_value f' p2)"
          then show ?thesis using pm2 after_value_eof by simp
        next
          assume "\<exists>p'. p2 = json_encode x @ ?c # p' \<and> p' @ q = ?t \<and> parse_value f' p2 = Some (Inr (x, ?c # p'))"
          then obtain p' where p': "p2 = json_encode x @ ?c # p'" "p' @ q = ?t"
            and pv: "parse_value f' p2 = Some (Inr (x, ?c # p'))" by blast
          have ys: "ys \<noteq> []" using p' q by auto
          have "length p' < length p2" using p'(1) by simp
          then have fuel3: "2 * length p' + 1 < f'" using fuel2 by simp
          have "parse_members f' (acc @ [(k, x)]) p' = Some (Inl eof_error)"
            using Cons.IH [where acc = "acc @ [(k, x)]" and f = f' and p = p', OF _ _ _ _ fuel3]
              Cons.prems(1,2) ys p'(2) by simp
          then show ?thesis using pm2 pv ys by (simp add: skip_ws_Cons json_space_def)
        qed
      qed
    qed
  qed
qed simp

lemma array_trunc:
  assumes ih: "\<forall>x \<in> set xs. \<forall>f p q. json_encode x = p @ q \<longrightarrow> q \<noteq> [] \<longrightarrow> 2 * length p < f \<longrightarrow>
                 truncated_result (parse_value f p)"
    and wf: "list_all json_wf xs" and split: "json_encode (JArr xs) = p @ q" and q: "q \<noteq> []"
    and fuel: "2 * length p < f"
  shows "parse_value f p = Some (Inl eof_error)"
proof -
  obtain f' where f: "f = Suc f'" using fuel by (cases f) auto
  show ?thesis
  proof (cases p)
    case Nil
    then show ?thesis using f by (simp add: skip_ws_def)
  next
    case (Cons c p1)
    have c: "c = CHR ''[''" and sp: "sep_commas (map json_encode xs) @ [CHR '']''] = p1 @ q"
      using split Cons by auto
    show ?thesis
    proof (cases "p1 = [] \<or> xs = []")
      case True
      then show ?thesis using sp q f Cons c by (auto simp: skip_ws_def Cons_eq_append_conv)
    next
      case False
      then obtain x ys where xs: "xs = x # ys" by (cases xs) auto
      obtain d cs where h: "json_encode x = d # cs" "\<not> json_space d" "d \<noteq> CHR '']''"
        using json_encode_head [of x] wf xs by auto
      obtain p2 where p1: "p1 = d # p2" using sp False xs h by (cases p1) (auto simp: sep_commas_Cons)
      have "parse_elems f' [] p1 = Some (Inl eof_error)"
        using elems_trunc [OF ih wf _ sp q] False fuel f Cons by simp
      then show ?thesis using f Cons c p1 h by (simp add: skip_ws_Cons json_space_def)
    qed
  qed
qed

lemma object_trunc:
  assumes ih: "\<forall>kv \<in> set kvs. \<forall>f p q. json_encode (snd kv) = p @ q \<longrightarrow> q \<noteq> [] \<longrightarrow> 2 * length p < f \<longrightarrow>
                 truncated_result (parse_value f p)"
    and wf: "list_all (\<lambda>(k, v). utf8_valid k \<and> json_wf v) kvs" and split: "json_encode (JObj kvs) = p @ q"
    and q: "q \<noteq> []" and fuel: "2 * length p < f"
  shows "parse_value f p = Some (Inl eof_error)"
proof -
  obtain f' where f: "f = Suc f'" using fuel by (cases f) auto
  let ?m = "\<lambda>(k, v). encode_str k @ CHR '':'' # json_encode v"
  show ?thesis
  proof (cases p)
    case Nil
    then show ?thesis using f by (simp add: skip_ws_def)
  next
    case (Cons c p1)
    have c: "c = CHR ''{''" and sp: "sep_commas (map ?m kvs) @ [CHR ''}''] = p1 @ q"
      using split Cons by auto
    show ?thesis
    proof (cases "p1 = [] \<or> kvs = []")
      case True
      then show ?thesis using sp q f Cons c by (auto simp: skip_ws_def Cons_eq_append_conv)
    next
      case False
      then obtain k x ys where kvs: "kvs = (k, x) # ys" by (cases kvs) auto
      obtain p2 where p1: "p1 = CHR 0x22 # p2"
        using sp False kvs by (cases p1) (auto simp: sep_commas_Cons encode_str_def)
      have "parse_members f' [] p1 = Some (Inl eof_error)"
        using members_trunc [OF ih wf _ sp q] False fuel f Cons by simp
      then show ?thesis using f Cons c p1 by (simp add: skip_ws_Cons json_space_def)
    qed
  qed
qed

lemma value_trunc:
  "json_wf v \<Longrightarrow> json_encode v = p @ q \<Longrightarrow> q \<noteq> [] \<Longrightarrow> 2 * length p < f \<Longrightarrow>
   truncated_result (parse_value f p)"
proof (induction v arbitrary: f p q)
  case JNull
  then obtain f' where "f = Suc f'" by (cases f) auto
  then show ?case using JNull lit_rest_trunc [of "''ull''" "tl p" q "''null''"]
    by (cases p) (auto simp: skip_ws_def json_space_def is_digit_def)
next
  case (JBool b)
  then obtain f' where "f = Suc f'" by (cases f) auto
  then show ?case using JBool lit_rest_trunc [of "''rue''" "tl p" q "''true''"]
      lit_rest_trunc [of "''alse''" "tl p" q "''false''"]
    by (cases p; cases b) (auto simp: skip_ws_def json_space_def is_digit_def)
next
  case (JNum lit)
  then obtain f' where f: "f = Suc f'" by (cases f) auto
  have res: "parse_number (p @ q) = Inr (lit, [])" using JNum by (simp add: json_number_def)
  show ?case
  proof (cases p)
    case (Cons c p1)
    have "c = CHR ''-'' \<or> is_digit c" using parse_number_head [OF res] Cons by auto
    then show ?thesis using parse_number_trunc [OF res] f Cons
      by (auto simp: skip_ws_Cons json_space_def is_digit_def)
  qed (simp add: f skip_ws_def)
next
  case (JStr str)
  then obtain f' where "f = Suc f'" by (cases f) auto
  then show ?case using JStr str_trunc [of str "tl p" q "[]"]
    by (cases p) (auto simp: skip_ws_def encode_str_def json_space_def)
next
  case (JArr xs)
  then show ?case using array_trunc [of xs p q f] by (simp add: list_all_iff)
next
  case (JObj kvs)
  then show ?case using object_trunc [of kvs p q f] by (fastforce simp: list_all_iff)
qed

lemma container_trunc:
  "json_wf v \<Longrightarrow> json_kind v \<in> {''array'', ''object''} \<Longrightarrow> json_encode v = p @ q \<Longrightarrow> q \<noteq> [] \<Longrightarrow>
   2 * length p < f \<Longrightarrow> parse_value f p = Some (Inl eof_error)"
proof (cases v)
  case (JArr xs)
  assume "json_wf v" "json_encode v = p @ q" "q \<noteq> []" "2 * length p < f"
  moreover have "\<forall>x \<in> set xs. \<forall>f p q. json_encode x = p @ q \<longrightarrow> q \<noteq> [] \<longrightarrow> 2 * length p < f \<longrightarrow>
                   truncated_result (parse_value f p)"
    using \<open>json_wf v\<close> JArr by (auto simp: list_all_iff intro: value_trunc)
  ultimately show ?thesis using JArr array_trunc [of xs p q f] by simp
next
  case (JObj kvs)
  assume "json_wf v" "json_encode v = p @ q" "q \<noteq> []" "2 * length p < f"
  moreover have "\<forall>kv \<in> set kvs. \<forall>f p q. json_encode (snd kv) = p @ q \<longrightarrow> q \<noteq> [] \<longrightarrow>
                   2 * length p < f \<longrightarrow> truncated_result (parse_value f p)"
    using \<open>json_wf v\<close> JObj by (fastforce simp: list_all_iff intro: value_trunc)
  ultimately show ?thesis using JObj object_trunc [of kvs p q f] by simp
qed simp_all

lemma json_decode_truncated:
  "json_wf v \<Longrightarrow> json_kind v \<in> {''array'', ''object''} \<Longrightarrow> json_encode v = p @ q \<Longrightarrow> q \<noteq> [] \<Longrightarrow>
   json_decode p = Inl eof_error"
  using container_trunc [of v p q "json_fuel p"] by (simp add: json_decode_def json_fuel_def)

text \<open>
  C30: a body cut short is rejected as such by \<^verbatim>\<open>json.Unmarshal\<close> of line 108: every
  strict prefix of the printed text of a well-formed array or object, such as a response
  whose connection closed early, gives Go's \<^verbatim>\<open>unexpected end of JSON input\<close>.
\<close>

theorem unmarshal_map_truncated:
  "json_wf v \<Longrightarrow> json_kind v \<in> {''array'', ''object''} \<Longrightarrow> json_encode v = body @ rest \<Longrightarrow>
   rest \<noteq> [] \<Longrightarrow> unmarshal_map json_decode body = Inl eof_error"
  using json_decode_truncated [of v body rest] by (simp add: unmarshal_map_def)

theorem unmarshal_map_truncated_witness:
  "unmarshal_map json_decode ''{\"items\":[1'' = Inl eof_error"
proof -
  have w: "json_wf (JObj [(''items'', JArr [JNum ''12''])])" by code_simp
  have k: "json_kind (JObj [(''items'', JArr [JNum ''12''])]) \<in> {''array'', ''object''}" by simp
  have e: "json_encode (JObj [(''items'', JArr [JNum ''12''])]) = ''{\"items\":[1'' @ ''2]}''" by code_simp
  show ?thesis using unmarshal_map_truncated [OF w k e] by simp
qed

end
