(* ===== verification/Console_Text.thy ===== *)
theory Console_Text
  imports Poller Json_Syntax "HOL-Library.List_Lexorder" "HOL-Library.Char_ord"
begin

text \<open>
  The text the program writes to standard output (src/cmd/main.go, lines 61 and 89--132):
  \<^verbatim>\<open>fmt.Print\<close> and \<^verbatim>\<open>fmt.Println\<close> as Go's \<^verbatim>\<open>fmt\<close> package renders their operands.
  \<^verbatim>\<open>Println\<close> always puts a space between operands and ends with a newline;
  \<^verbatim>\<open>Print\<close> puts a space only between two operands neither of which is a string
  (\<^verbatim>\<open>doPrint\<close>, \<^verbatim>\<open>doPrintln\<close>). An operand is printed with \<^verbatim>\<open>%v\<close>
  (\<^verbatim>\<open>printValue\<close>): a string as itself, \<^verbatim>\<open>nil\<close> as \<^verbatim>\<open><nil>\<close>, a slice as its elements
  between brackets separated by spaces, a map as \<^verbatim>\<open>map[k:v ...]\<close> with its keys sorted
  bytewise (\<^verbatim>\<open>internal/fmtsort\<close>). The text of \<^verbatim>\<open>time.Now()\<close> and of a
  \<^verbatim>\<open>float64\<close> are the parameters \<open>tt\<close> and \<open>nf\<close>: their formatting is not modelled.
\<close>

fun join_space :: "string list \<Rightarrow> string" where
  "join_space [] = []"
| "join_space [x] = x"
| "join_space (x # y # ys) = x @ CHR '' '' # join_space (y # ys)"

text \<open>
  A Go map printed with \<^verbatim>\<open>%v\<close>, given the printed members in document order: the
  decoded map keeps the last value of a duplicate key, and the keys are printed sorted.
\<close>

definition fmt_map :: "(string \<times> string) list \<Rightarrow> string" where
  "fmt_map ps =
     ''map['' @ join_space (map (\<lambda>k. k @ CHR '':'' # the (map_of (rev ps) k)) (sort (remdups (map fst ps)))) @ '']''"

fun fmt_value :: "(string \<Rightarrow> string) \<Rightarrow> json \<Rightarrow> string" where
  "fmt_value nf JNull = ''<nil>''"
| "fmt_value nf (JBool b) = (if b then ''true'' else ''false'')"
| "fmt_value nf (JNum lit) = nf lit"
| "fmt_value nf (JStr s) = s"
| "fmt_value nf (JArr xs) = CHR ''['' # join_space (map (fmt_value nf) xs) @ '']''"
| "fmt_value nf (JObj kvs) = fmt_map (map (\<lambda>(k, v). (k, fmt_value nf v)) kvs)"

fun fmt_operand :: "string \<Rightarrow> (string \<Rightarrow> string) \<Rightarrow> operand \<Rightarrow> string" where
  "fmt_operand tt nf (OpStr s) = s"
| "fmt_operand tt nf OpTime = tt"
| "fmt_operand tt nf (OpVal v) = fmt_value nf v"

text \<open>Whether an operand's dynamic type is a string, the test of \<^verbatim>\<open>doPrint\<close>.\<close>

fun is_string_arg :: "operand \<Rightarrow> bool" where
  "is_string_arg (OpStr _) = True"
| "is_string_arg (OpVal (JStr _)) = True"
| "is_string_arg _ = False"

fun print_args :: "string \<Rightarrow> (string \<Rightarrow> string) \<Rightarrow> bool \<Rightarrow> bool \<Rightarrow> operand list \<Rightarrow> string" where
  "print_args tt nf first prev [] = []"
| "print_args tt nf first prev (a # as) =
     (if \<not> first \<and> \<not> is_string_arg a \<and> \<not> prev then CHR '' '' # fmt_operand tt nf a else fmt_operand tt nf a) @
     print_args tt nf False (is_string_arg a) as"

definition console_text :: "string \<Rightarrow> (string \<Rightarrow> string) \<Rightarrow> console \<Rightarrow> string" where
  "console_text tt nf c =
     (case c of
        Print ops \<Rightarrow> print_args tt nf True False ops
      | Println ops \<Rightarrow> join_space (map (fmt_operand tt nf) ops) @ [CHR 0x0A])"

text \<open>What a trace writes to standard output; the other events write nothing.\<close>

definition stdout_text :: "string \<Rightarrow> (string \<Rightarrow> string) \<Rightarrow> event list \<Rightarrow> string" where
  "stdout_text tt nf evs = concat (map (\<lambda>e. case e of EvOut c \<Rightarrow> console_text tt nf c | _ \<Rightarrow> []) evs)"

text \<open>
  The output of one pass of the loop (lines 89--132, with \<^verbatim>\<open>playSound\<close>'s line 61),
  \<open>tt\<close> being the text of that pass's \<^verbatim>\<open>time.Now()\<close>, and the output of the loop over
  a sequence of passes, each with its own time.
\<close>

definition pass_text :: "string \<Rightarrow> (string \<Rightarrow> string) \<Rightarrow> decoder \<Rightarrow> get_result \<Rightarrow> sound_env \<Rightarrow> string" where
  "pass_text tt nf dec g senv = stdout_text tt nf (fst (poll_iteration dec g senv))"

lemma stdout_text_simps [simp]:
  "stdout_text tt nf [] = []"
  "stdout_text tt nf (e # es) = (case e of EvOut c \<Rightarrow> console_text tt nf c | _ \<Rightarrow> []) @ stdout_text tt nf es"
  "stdout_text tt nf (xs @ ys) = stdout_text tt nf xs @ stdout_text tt nf ys"
  by (simp_all add: stdout_text_def)

lemma console_text_simps [simp]:
  "console_text tt nf (Print ops) = print_args tt nf True False ops"
  "console_text tt nf (Println ops) = join_space (map (fmt_operand tt nf) ops) @ [CHR 0x0A]"
  by (simp_all add: console_text_def)

lemma check_prefix_text: "stdout_text tt nf check_prefix = tt @ '' -- ''"
  by simp

lemma println_strs_text:
  "stdout_text tt nf [println_strs ss] = join_space ss @ [CHR 0x0A]"
  by (simp add: comp_def)

lemma play_sound_text:
  "stdout_text tt nf (play_sound senv) =
     (case senv of DecodeFails e \<Rightarrow> ''wav.Decode err:  '' @ e @ [CHR 0x0A] | _ \<Rightarrow> [])"
  by (simp add: play_sound_def Let_def split: sound_env.split)

lemma poll_iteration_last_println:
  "\<exists>post ops. fst (poll_iteration dec g senv) = check_prefix @ post @ [EvOut (Println ops)]"
  by (auto simp: poll_iteration_def split: get_result.split sum.split option.split)

lemma available_items_pass:
  assumes "available_items dec g = Some items"
  shows "fst (poll_iteration dec g senv) =
           check_prefix @ EvCallPlaySound # play_sound senv @
           [EvOut (Println [OpStr ''********************** '', OpVal (JArr items)])]"
proof -
  obtain body where g: "g = GetResp (Inr body)"
    using assms by (auto simp: available_items_def split: get_result.splits sum.splits)
  obtain r where u: "unmarshal_map dec body = Inr r" "r ''items'' = Some (JArr items)" "items \<noteq> []"
    using assms g by (auto simp: available_items_def split: sum.splits option.splits json.splits if_splits)
  then show ?thesis using g by (simp add: poll_iteration_def)
qed

text \<open>
  C37: every pass of the loop writes a block of output that starts with the time of the
  check and \<^verbatim>\<open> -- \<close>, and ends with a newline, on every branch: two passes never
  share a line of the console stream.
\<close>

theorem pass_text_timestamped:
  "\<exists>m. pass_text tt nf dec g senv = tt @ '' -- '' @ m @ [CHR 0x0A]"
proof -
  obtain post ops where "fst (poll_iteration dec g senv) = check_prefix @ post @ [EvOut (Println ops)]"
    using poll_iteration_last_println by blast
  then show ?thesis by (simp add: pass_text_def)
qed

text \<open>
  C38: the output of a pass that finds slots: the banner \<^verbatim>\<open>**********************\<close>,
  two spaces (the label's own and the one \<^verbatim>\<open>Println\<close> adds), and the items as
  \<^verbatim>\<open>%v\<close> prints them. If \<^verbatim>\<open>wav.Decode\<close> fails, its error takes the timestamped line
  and the banner goes on a line of its own, without a timestamp.
\<close>

theorem pass_text_notification:
  assumes "available_items dec g = Some items"
  shows "pass_text tt nf dec g senv =
           tt @ '' -- '' @ (case senv of DecodeFails e \<Rightarrow> ''wav.Decode err:  '' @ e @ [CHR 0x0A] | _ \<Rightarrow> []) @
           ''**********************  '' @ fmt_value nf (JArr items) @ [CHR 0x0A]"
  using available_items_pass [OF assms, of senv] play_sound_text [of tt nf senv]
  by (simp add: pass_text_def del: fmt_value.simps)

theorem pass_text_notification_witness:
  "pass_text ''T'' id json_decode (GetResp (Inr ''{\"items\":[\"9am\"]}'')) (DecodeFails ''wav: bad header'') =
   ''T -- wav.Decode err:  wav: bad header'' @ [CHR 0x0A] @ ''**********************  [9am]'' @ [CHR 0x0A]"
proof -
  have "available_items json_decode (GetResp (Inr ''{\"items\":[\"9am\"]}'')) = Some [JStr ''9am'']"
    by code_simp
  from pass_text_notification [OF this, of "''T''" id "DecodeFails ''wav: bad header''"]
  show ?thesis by simp
qed

text \<open>
  C39: the report of an empty result copies the raw body into its line, so every newline
  of the body (a pretty-printed response) becomes a line break of the console stream:
  one check then spans several lines.
\<close>

theorem pass_text_no_slots_lines:
  assumes "unmarshal_map dec body = Inr r" and "r ''items'' = Some (JArr [])" and "CHR 0x0A \<notin> set tt"
  shows "count_list (pass_text tt nf dec (GetResp (Inr body)) senv) (CHR 0x0A) = Suc (count_list body (CHR 0x0A))"
proof -
  have "fst (poll_iteration dec (GetResp (Inr body)) senv) = check_prefix @ [println_strs [''no slots ('', body, '')'']]"
    using assms(1,2) by (simp add: poll_iteration_def)
  then show ?thesis using assms(3) by (simp add: pass_text_def)
qed

theorem pass_text_no_slots_lines_witness:
  "count_list (pass_text ''T'' id json_decode (GetResp (Inr (''{'' @ [CHR 0x0A] @ ''\"items\": []'' @ [CHR 0x0A] @ ''}'')))
     (Decoded 8000)) (CHR 0x0A) = 3"
proof -
  have j: "json_decode (''{'' @ [CHR 0x0A] @ ''\"items\": []'' @ [CHR 0x0A] @ ''}'') = Inr (JObj [(''items'', JArr [])])"
    by code_simp
  have u: "unmarshal_map json_decode (''{'' @ [CHR 0x0A] @ ''\"items\": []'' @ [CHR 0x0A] @ ''}'') =
           Inr (map_of (rev [(''items'', JArr [])]))" by (simp only: unmarshal_map_def j) simp
  have "count_list (''{'' @ [CHR 0x0A] @ ''\"items\": []'' @ [CHR 0x0A] @ ''}'') (CHR 0x0A) = 2" by simp
  with pass_text_no_slots_lines [OF u _, of "''T''" id "Decoded 8000"] show ?thesis by simp
qed

end
