(* ===== verification/Spec2Isabelle.thy ===== *)
theory Spec2Isabelle
  imports Cancel_Context Rand_Source Json_Truncation Console_Text
begin

text \<open>
  \<^bold>\<open>A verification development for the H-E-B timeslot poller\<close> (src/cmd/main.go,
  the repository's only source file).

  \<^bold>\<open>The program.\<close> \<^verbatim>\<open>main\<close> creates a cancellable context and a
  \<^verbatim>\<open>sync.WaitGroup\<close>, starts the signal watcher (\<^verbatim>\<open>translateInterruptToCancel\<close>,
  lines 33--52) and the poll goroutine (lines 73--134), and waits for both (line 136).
  The watcher registers an unbuffered channel for SIGINT/SIGTERM and blocks in a
  \<^verbatim>\<open>select\<close>; on a signal it cancels the context and returns, running its deferred
  \<^verbatim>\<open>signal.Stop\<close>/\<^verbatim>\<open>close\<close> and \<^verbatim>\<open>wg.Done\<close>. The poll goroutine loops:
  it waits \<^verbatim>\<open>timeout\<close> one-second steps, polling the context before each, then draws
  the next \<^verbatim>\<open>timeout = 25 + rand.Intn(10)\<close> and runs one check-and-act pass (request,
  read, decode, look up \<^verbatim>\<open>items\<close>, assert its type, report, and call
  \<^verbatim>\<open>playSound\<close> (lines 54--66) when slots exist). The context is the only shared
  mutable state besides the WaitGroup.

  \<^bold>\<open>The theories.\<close>
  \<^item> \<open>Prelude\<close>: the \<open>trace_simps\<close> collection and list facts on counting events.
  \<^item> \<open>Json_Value\<close>: the decoded document (\<open>json\<close>), \<^verbatim>\<open>json.Unmarshal\<close> into
    \<^verbatim>\<open>map[string]interface{}\<close> (\<open>unmarshal_map\<close>: nil map for \<^verbatim>\<open>null\<close>, last
    duplicate key wins, type errors) and the type assertion (\<open>as_slice\<close>). The byte-level
    parser is the parameter \<open>decoder\<close>, so that the concurrency theories hold for any
    parser; \<open>Json_Syntax\<close> supplies Go's.
  \<^item> \<open>Go_Effects\<close>: the observable events (console calls with their operands, sleeps,
    requests, body closes, speaker calls, cancel, signal registration, signal deliveries)
    and the counting functions \<open>gets\<close> and \<open>sleeps_since_get\<close> on traces.
  \<^item> \<open>Sound\<close>: \<open>play_sound\<close> (= \<^verbatim>\<open>playSound\<close>) and beep's
    \<^verbatim>\<open>SampleRate.N\<close> in 64-bit two's complement (\<open>sample_rate_N\<close>, \<open>go_div64\<close>).
  \<^item> \<open>Poll_Iteration\<close>: \<open>poll_iteration\<close>, one pass of lines 87--132 with every
    \<^verbatim>\<open>continue\<close> as a branch, returning its events and the deferred closes it
    registered; the theorems for each branch.
  \<^item> \<open>System_State\<close>: the process state \<open>sys\<close> (status, \<open>ctx_done\<close>, \<open>wg\<close>,
    one program counter per thread, the watcher's registration, \<^verbatim>\<open>timeout\<close>, pending
    defers, trace), \<open>init_sys\<close>, and \<open>wg_done\<close> with the runtime's panic.
  \<^item> \<open>Watcher\<close>: \<open>watcher_step\<close>, one rule per action of the watcher goroutine, and
    \<open>signal_step\<close>, the operating system's delivery of a signal (dropped while nobody
    receives on the unbuffered channel, fatal while nothing is registered).
  \<^item> \<open>Poller\<close>: \<open>poll_step\<close>, the sleep, the return on cancellation, and the pass;
    \<open>poll_run\<close>, the loop read as a sequential program over the environment's
    answers (random draw, HTTP and audio outcome per pass), with the refinement theorem
    that \<open>poll_step\<close> implements it, and the notification count over any run.
  \<^item> \<open>Coordinator\<close>: \<open>main_step\<close>, the interleaving \<open>sys_step\<close> of all threads and
    signals, \<open>reachable\<close>, the invariant \<open>sys_inv\<close> (four parts) proved by rule
    induction, two concrete runs, and the safety theorems.
  \<^item> \<open>Rand\<close>: \<^verbatim>\<open>rand.Intn\<close> with \<^verbatim>\<open>Int31n\<close>/\<^verbatim>\<open>Int63n\<close> of math/rand (panic on a
    bound that is not positive, the power-of-two mask, the rejection loop as a
    \<open>partial_function (option)\<close> where \<open>None\<close> is a loop that never ends, Go's
    truncating remainder), over the source's output sequence \<open>src\<close>; and
    \<open>next_timeout\<close>, the statement \<^verbatim>\<open>timeout = 25 + rand.Intn(10)\<close> of line 87.
  \<^item> \<open>Rand_Source\<close>: the generator behind it, math/rand's \<^verbatim>\<open>rngSource\<close>:
    its state (\<open>rng_state\<close>: \<^verbatim>\<open>tap\<close>, \<^verbatim>\<open>feed\<close>, the 607-word ring buffer),
    \<^verbatim>\<open>seedrand\<close> (Park--Miller by Schrage's method in 32 bits), \<^verbatim>\<open>Seed\<close>
    (\<open>rng_seed\<close>, \<open>seed_loop\<close>), \<^verbatim>\<open>Uint64\<close> (\<open>rng_uint64\<close>), the output
    stream \<open>rng_stream\<close> that instantiates \<open>src\<close>, the global source seeded with 1, and
    \<open>program_timeout\<close>, line 87 on that source; with two references, the Park--Miller
    seeding in unbounded integers (\<open>seed_vec_ref\<close>) and the lagged Fibonacci generator
    as a sliding window (\<open>lf_step\<close>).
  \<^item> \<open>Json_Syntax\<close>: \<open>json_decode\<close>, the parser behind \<^verbatim>\<open>json.Unmarshal\<close>
    (RFC 8259 as encoding/json accepts it, with the scanner's error messages, and strings
    decoded as \<^verbatim>\<open>unquote\<close> does, UTF-8 validation and surrogate pairs included),
    three mutually recursive functions on fuel; the printer \<open>json_encode\<close> and the
    well-formedness \<open>json_wf\<close> of documents (valid UTF-8 strings and keys, numbers the
    scanner accepts).
  \<^item> \<open>Json_Truncation\<close>: what the parser does with a strict prefix of a document.
  \<^item> \<open>Cancel_Context\<close>: Go's \<^verbatim>\<open>cancelCtx\<close> behind line 69 (\<open>cancel_ctx\<close>:
    the lazily made done channel, \<^verbatim>\<open>closedchan\<close>, \<^verbatim>\<open>Err()\<close>), with \<open>ctx_Done\<close>,
    \<open>ctx_cancel\<close> (idempotent; a double close would be the panic \<open>None\<close>) and the
    readiness \<open>done_ready\<close> of \<^verbatim>\<open>case <-ctx.Done()\<close>; the system's flag
    \<open>ctx_done\<close> is shown to be what this model reports.
  \<^item> \<open>Console_Text\<close>: the text \<^verbatim>\<open>fmt.Print\<close> and \<^verbatim>\<open>fmt.Println\<close> write
    (\<open>console_text\<close>: Go's spacing rules and \<^verbatim>\<open>%v\<close> of decoded values, maps with
    sorted keys), and the output of one pass of the loop (\<open>pass_text\<close>).
  \<^item> this theory: the shutdown measure and the liveness theorems, and the pass run with
    the JSON parser.

  \<^bold>\<open>What is proved.\<close> Safety of the coordination (main exits only after both
  goroutines; the WaitGroup counter equals the live goroutines and never panics; the
  watcher releases its registration exactly once;
  its \<^verbatim>\<open>ctx.Done\<close> case is dead; a signal that arrives before the watcher
  blocks is dropped); the timing of requests (the first is immediate,
  consecutive ones are 25 to 34 sleeps apart, at most one request follows cancellation, and
  one can); resource handling (bodies are closed only when the goroutine returns, so they
  accumulate); the behaviour of a pass on every branch; that the loop, read sequentially,
  plays the sound once for each pass whose \<^verbatim>\<open>items\<close> is a non-empty array and never
  otherwise, and that the interleavable steps can produce every run of that sequential
  reading (a forward simulation); \<^verbatim>\<open>playSound\<close>'s buffer of a tenth of a second,
  truncated towards zero, without overflow for every \<^verbatim>\<open>int32\<close> sample rate, sign-extended
  as beep converts it; and shutdown: after cancellation
  every run of the threads ends within eight steps and the process reaches exit.
  For the libraries the program calls: line 87 computes an interval exactly when the
  source eventually yields an acceptable draw, its intervals are exactly 25 to 34 (the
  range the poll step assumes), each produced by the same number of draws; Int31n's mask
  fast path agrees with rejection sampling. Behind it, \<^verbatim>\<open>seedrand\<close> equals
  \<open>48271 x mod (2^31 - 1)\<close> without 32-bit overflow and stays in \<open>1 .. 2^31 - 2\<close>, so
  \<^verbatim>\<open>Seed\<close> computes the reference seeding; \<^verbatim>\<open>Uint64\<close> keeps the buffer invariant and
  implements one step of the window (an abstraction-function refinement), so the outputs
  obey \<open>x(n + 607) = x(n) + x(n + 334)\<close>; both carry over to the intervals of line 87. \<^verbatim>\<open>json.Unmarshal\<close> of line 108 inverts the
  printer on well-formed objects, puts only valid UTF-8 keys and well-formed values into
  its map whatever the body, decodes a surrogate pair of escapes to the code point's
  UTF-8 and a lone surrogate or an invalid byte to U+FFFD, and rejects
  every strict prefix of an array or object with \<^verbatim>\<open>unexpected end of JSON input\<close>;
  composed with the pass, a printed object with a non-empty \<^verbatim>\<open>items\<close> array plays
  the sound, and a body cut short is logged under the read-failure label. The flag \<open>ctx_done\<close> that the thread model keeps
  for the context is exactly what \<^verbatim>\<open>context.WithCancel\<close>'s context reports, for
  every interleaving of \<^verbatim>\<open>Done()\<close> calls with the recorded cancels, and no context
  call panics. On the console,
  every pass writes a block that starts with its timestamp and ends with a newline; a
  pass that finds slots writes the banner with two spaces before the items, on a line
  of its own after a \<^verbatim>\<open>wav.Decode\<close> error; and the empty-result report copies the
  body's newlines into the stream.

  \<^bold>\<open>Bounds and environment.\<close> No fuel is used: the loop of the program runs forever and
  is modelled as a step relation, so every statement is about all finite runs. The
  environment chooses, at each step, which thread moves, when signals arrive, each
  \<^verbatim>\<open>rand.Intn(10)\<close> result (any \<open>0 \<le> r < 10\<close>, its contract), each HTTP and
  audio outcome. An HTTP request is one atomic step: the model assumes it returns, as the
  spec notes the transport has no deadline; the shutdown bound counts steps, not seconds.
  The JSON parser's fuel \<open>json_fuel s = 2 * length s + 2\<close> always suffices
  (\<open>json_decode_fuel_suffices\<close>): each call either consumes input or is one of at
  most two calls per consumed character, so the fuel value never shows. The rejection loop
  of \<^verbatim>\<open>Int31n\<close> has no fuel: it may really run forever, and its termination is
  characterised exactly.

  \<^bold>\<open>Not modelled.\<close> The HTTP transport (\<^verbatim>\<open>net/http\<close>,
  \<^verbatim>\<open>ioutil.ReadAll\<close>) and beep's wav decoder and speaker are external libraries
  whose sources are neither in the repository nor described by the specification beyond
  their results: those results (a request error, a read error or the body; an open
  error, a decode error or the sample rate) are inputs chosen by the environment, and
  of the speaker only the buffer size computed by \<^verbatim>\<open>SampleRate.N\<close> is modelled. Of \<^verbatim>\<open>fmt\<close>, the text of a
  \<^verbatim>\<open>time.Time\<close> and of a \<^verbatim>\<open>float64\<close> are parameters (\<open>tt\<close>, \<open>nf\<close>): the
  statements hold for every such text. Of encoding/json,
  the nesting limit of newer releases and the conversion of numbers to \<^verbatim>\<open>float64\<close>
  are left out (see \<open>Json_Syntax\<close>). The 607 constants of math/rand's
  \<^verbatim>\<open>rngCooked\<close> table are data, not behaviour: they are the parameter \<open>cooked\<close>, so
  no statement depends on their values.
\<close>

section \<open>Shutdown\<close>

text \<open>
  A rank for each thread's position, summed: once the context is cancelled, every step
  of a thread lowers it.
\<close>

fun main_rank :: "main_pc \<Rightarrow> nat" where
  "main_rank MInit = 2"
| "main_rank MLaunchPoll = 1"
| "main_rank MWait = 0"

fun watcher_rank :: "watcher_pc \<Rightarrow> nat" where
  "watcher_rank WReturn = 1"
| "watcher_rank WDone = 0"
| "watcher_rank _ = 2"

fun poll_rank :: "poll_pc \<Rightarrow> int \<Rightarrow> nat" where
  "poll_rank PNone t = 3"
| "poll_rank (PWait i) t = (if i < t then 1 else 2)"
| "poll_rank PDone t = 0"

definition shutdown_measure :: "sys \<Rightarrow> nat" where
  "shutdown_measure s =
     main_rank (mpc s) + watcher_rank (wpc s) + poll_rank (ppc s) (timeout s) + of_bool (proc s = Running)"

lemma cancelled_watcher:
  "reachable dec s \<Longrightarrow> ctx_done s \<Longrightarrow> wpc s = WReturn \<or> wpc s = WDone"
  using reachable_inv by (auto simp: sys_inv_def inv_signal_def)

lemma wg_done_measure:
  "shutdown_measure (wg_done s) \<le> shutdown_measure s"
  by (simp add: wg_done_def shutdown_measure_def)

lemma shutdown_measure_decreases:
  assumes "reachable dec s" and "ctx_done s" and "prog_step dec s t"
  shows "shutdown_measure t < shutdown_measure s"
proof -
  have w: "wpc s = WReturn \<or> wpc s = WDone" using cancelled_watcher assms(1,2) .
  have i: "sys_inv s" using reachable_inv assms(1) .
  from assms(3) show ?thesis unfolding prog_step_def
  proof (elim disjE)
    assume "main_step s t"
    then show ?thesis using w i
      by (cases rule: main_step.cases) (auto simp: shutdown_measure_def sys_inv_def inv_threads_def)
  next
    assume "watcher_step s t"
    then show ?thesis using w
      by (cases rule: watcher_step.cases) (auto simp: shutdown_measure_def wg_done_def)
  next
    assume "poll_step dec s t"
    then show ?thesis using assms(2)
      by (cases rule: poll_step.cases) (simp_all add: shutdown_measure_def wg_done_def)
  qed
qed

lemma shutdown_progress:
  assumes "reachable dec s" and "ctx_done s" and "proc s = Running"
  shows "\<exists>t. prog_step dec s t"
proof -
  have w: "wpc s = WReturn \<or> wpc s = WDone" using cancelled_watcher assms(1,2) .
  have i: "sys_inv s" using reachable_inv assms(1) .
  show ?thesis
  proof (cases "wpc s = WReturn")
    case True
    then show ?thesis using assms(3) by (auto simp: prog_step_def intro: watcher_step.w_return)
  next
    case False
    with w have wd: "wpc s = WDone" by simp
    show ?thesis
    proof (cases "ppc s")
      case PNone
      then have "mpc s = MLaunchPoll" using i wd
        by (cases "mpc s") (auto simp: sys_inv_def inv_threads_def)
      then show ?thesis using assms(3) by (auto simp: prog_step_def intro: main_step.m_launch)
    next
      case (PWait i)
      show ?thesis
      proof (cases "i < timeout s")
        case True
        then show ?thesis using assms(2,3) PWait
          by (auto simp: prog_step_def intro: poll_step.p_return)
      next
        case False
        have "poll_step dec s (s\<lparr>ppc := PWait 0, timeout := 25 + 0,
                defers := defers s + snd (poll_iteration dec (GetErr []) (OpenFails [])),
                trace := trace s @ fst (poll_iteration dec (GetErr []) (OpenFails []))\<rparr>)"
          using assms(3) PWait False by (intro poll_step.p_check) simp_all
        then show ?thesis by (auto simp: prog_step_def)
      qed
    next
      case PDone
      then have "mpc s = MWait" "wg s = 0" using i wd
        by (cases "mpc s"; auto simp: sys_inv_def inv_threads_def live_goroutines_def)+
      then show ?thesis using assms(3) by (auto simp: prog_step_def intro: main_step.m_exit)
    qed
  qed
qed

lemma prog_step_not_killed: "prog_step dec s t \<Longrightarrow> proc t \<noteq> Killed"
  by (auto simp: prog_step_def wg_done_def split: if_splits elim!: main_stepE watcher_stepE poll_stepE)

text \<open>
  C13: after cancellation the process shuts down cleanly: from every reachable state with
  a cancelled context and a running process, the threads alone (no further signal) reach
  the state where \<^verbatim>\<open>main\<close> has returned.
\<close>

theorem shutdown_reaches_exit:
  assumes "reachable dec s" and "ctx_done s" and "proc s = Running"
  shows "\<exists>t. (prog_step dec)\<^sup>*\<^sup>* s t \<and> proc t = Exited"
  using assms
proof (induction "shutdown_measure s" arbitrary: s rule: less_induct)
  case less
  obtain t where st: "prog_step dec s t" using shutdown_progress less.prems by blast
  have rt: "reachable dec t" using less.prems(1) st by (rule reachable_prog_step)
  have ct: "ctx_done t" using less.prems(2) st
    by (auto intro: sys_step_keeps_ctx_done simp: sys_step_def)
  have lt: "shutdown_measure t < shutdown_measure s"
    using shutdown_measure_decreases less.prems(1,2) st .
  show ?case
  proof (cases "proc t = Running")
    case True
    from less.hyps [OF lt rt ct True] obtain u where "(prog_step dec)\<^sup>*\<^sup>* t u" "proc u = Exited"
      by blast
    then show ?thesis using st by (blast intro: converse_rtranclp_into_rtranclp)
  next
    case False
    have "proc t \<noteq> Panicked" using reachable_inv [OF rt] by (simp add: sys_inv_def inv_threads_def)
    moreover have "proc t \<noteq> Killed" using st by (rule prog_step_not_killed)
    ultimately have "proc t = Exited" using False by (cases "proc t") simp_all
    then show ?thesis using st by blast
  qed
qed

theorem shutdown_reaches_exit_witness:
  "\<exists>s t. reachable (\<lambda>_. Inr JNull) s \<and> ctx_done s \<and> proc s = Running \<and>
         (prog_step (\<lambda>_. Inr JNull))\<^sup>*\<^sup>* s t \<and> proc t = Exited"
proof -
  note run = cancel_first_run(3) [of "\<lambda>_. Inr JNull"]
  from shutdown_reaches_exit [OF run [THEN conjunct1] run [THEN conjunct2, THEN conjunct1]] run
  show ?thesis by blast
qed

text \<open>
  C14: after cancellation every run of the threads is short: it takes at most
  \<open>shutdown_measure s\<close> steps (never more than eight), whatever the scheduler does, so
  no interleaving keeps the process alive; only an in-flight HTTP request, which the model
  treats as one step, can delay it.
\<close>

theorem shutdown_run_bound:
  assumes "reachable dec s" and "ctx_done s" and "(prog_step dec ^^ n) s t"
  shows "n \<le> shutdown_measure s \<and> shutdown_measure s \<le> 8"
  using assms
proof (induction n arbitrary: s)
  case 0
  then show ?case by (cases "mpc s"; cases "wpc s"; cases "ppc s") (auto simp: shutdown_measure_def)
next
  case (Suc n)
  obtain u where su: "prog_step dec s u" and ut: "(prog_step dec ^^ n) u t"
    using relpowp_Suc_D2 [OF Suc.prems(3)] by blast
  have ru: "reachable dec u" using Suc.prems(1) su by (rule reachable_prog_step)
  have cu: "ctx_done u" using Suc.prems(2) su
    by (auto intro: sys_step_keeps_ctx_done simp: sys_step_def)
  have "n \<le> shutdown_measure u" using Suc.IH [OF ru cu ut] by simp
  moreover have "shutdown_measure u < shutdown_measure s"
    using shutdown_measure_decreases Suc.prems(1,2) su .
  moreover have "shutdown_measure s \<le> 8"
    by (cases "mpc s"; cases "wpc s"; cases "ppc s") (auto simp: shutdown_measure_def)
  ultimately show ?case by simp
qed

theorem shutdown_run_bound_witness:
  "\<exists>s t. reachable (\<lambda>_. Inr JNull) s \<and> ctx_done s \<and> (prog_step (\<lambda>_. Inr JNull) ^^ 1) s t \<and>
         1 \<le> shutdown_measure s"
proof -
  note run = cancel_first_run(2) [of "\<lambda>_. Inr JNull"]
  then obtain s t where st: "reachable (\<lambda>_. Inr JNull) s" "main_step s t" "ctx_done s" by blast
  then have "prog_step (\<lambda>_. Inr JNull) s t" by (simp add: prog_step_def)
  then have "(prog_step (\<lambda>_. Inr JNull) ^^ 1) s t" by (simp only: relpowp_1)
  with shutdown_run_bound [OF st(1) st(3) this] st show ?thesis by blast
qed

section \<open>The pass with the JSON decoder\<close>



text \<open>
  C32: a body cut short in transfer (a strict prefix of the printed text of a well-formed
  array or object) is logged as \<^verbatim>\<open>ioutil.ReadAll err: unexpected end of JSON input\<close>:
  the decode failure carries the read-failure label and an end-of-input message, so the
  log line reads as a failed read.
\<close>

theorem poll_iteration_truncated_body:
  assumes "json_wf v" and "json_kind v \<in> {''array'', ''object''}" and "json_encode v = body @ rest"
    and "rest \<noteq> []"
  shows "poll_iteration json_decode (GetResp (Inr body)) senv =
           (check_prefix @ [println_strs [''ioutil.ReadAll err: '', ''unexpected end of JSON input'']], 1)"
proof -
  have "json_decode body = Inl eof_error"
    using json_decode_truncated [OF assms] .
  then show ?thesis by (simp add: poll_iteration_def unmarshal_map_def eof_error_def)
qed

theorem poll_iteration_truncated_body_witness:
  "poll_iteration json_decode (GetResp (Inr ''{\"items\":[\"9'')) (Decoded 44100) =
     (check_prefix @ [println_strs [''ioutil.ReadAll err: '', ''unexpected end of JSON input'']], 1)"
proof -
  have w: "json_wf (JObj [(''items'', JArr [JStr ''9am''])])" by code_simp
  have k: "json_kind (JObj [(''items'', JArr [JStr ''9am''])]) \<in> {''array'', ''object''}" by simp
  have e: "json_encode (JObj [(''items'', JArr [JStr ''9am''])]) = ''{\"items\":[\"9'' @ ''am\"]}''" by code_simp
  show ?thesis using poll_iteration_truncated_body [OF w k e] by simp
qed

end
